(* ===== verification/Os1_Prelude.thy ===== *)
theory Os1_Prelude
  imports Main "HOL-Library.Word"
begin

text \<open>
  Shared vocabulary of the development: the machine integers of the C++ sources, the
  page geometry constants, the power-of-two alignment helpers of
  \<^verbatim>\<open>src/src/kernel/util/align.hpp\<close>, the page-stepping loop used by several
  components, and the word lemmas the component proofs rest on.
\<close>

unbundle bit_operations_syntax

named_theorems word_nat \<open>reading word operations as natural numbers\<close>

type_synonym u8 = "8 word"
type_synonym u16 = "16 word"
type_synonym u32 = "32 word"
type_synonym u64 = "64 word"

section \<open>Definitions\<close>

definition kPageSize :: u64 where
  "kPageSize = 0x1000"

definition align_down :: "u64 \<Rightarrow> u64 \<Rightarrow> u64" where
  "align_down value alignment = value AND NOT (alignment - 1)"

definition align_up :: "u64 \<Rightarrow> u64 \<Rightarrow> u64" where
  "align_up value alignment = (value + alignment - 1) AND NOT (alignment - 1)"

text \<open>
  The overflow-checked addition that \<^verbatim>\<open>elf64.hpp\<close>, \<^verbatim>\<open>user_elf.cpp\<close> and
  \<^verbatim>\<open>cpio_newc.cpp\<close> each define: \<open>None\<close> is the \<open>false\<close> return.
\<close>

definition checked_add :: "u64 \<Rightarrow> u64 \<Rightarrow> u64 option" where
  "checked_add left right = (if left > NOT 0 - right then None else Some (left + right))"

definition align_up_checked :: "u64 \<Rightarrow> u64 \<Rightarrow> u64 option" where
  "align_up_checked value alignment =
     (if alignment = 0 then None
      else case checked_add value (alignment - 1) of
             None \<Rightarrow> None
           | Some biased \<Rightarrow> Some (biased AND NOT (alignment - 1)))"

text \<open>
  \<open>for (vp = first; vp < stop; vp += kPageSize) body(vp)\<close> on 64-bit counters. The
  counter can wrap when \<open>stop\<close> is within a page of the top of the address space, and
  the loop then never ends: that is the value \<open>None\<close>.
\<close>

partial_function (option) for_pages :: "(u64 \<Rightarrow> 's \<Rightarrow> 's) \<Rightarrow> u64 \<Rightarrow> u64 \<Rightarrow> 's \<Rightarrow> 's option" where
  "for_pages body vp stop s =
     (if vp < stop then for_pages body (vp + kPageSize) stop (body vp s) else Some s)"

section \<open>Reading words as natural numbers\<close>

lemma unat_drop_bit [word_nat]: "unat (drop_bit k w) = unat w div 2 ^ k" for w :: "'a::len word"
  by (simp only: unat_drop_bit_eq drop_bit_eq_div [where 'a = nat])

lemma unat_push_bit [word_nat]:
  "unat (push_bit k w) = unat w * 2 ^ k mod 2 ^ LENGTH('a)" for w :: "'a::len word"
  by (simp only: unsigned_push_bit_eq take_bit_eq_mod [where 'a = nat] push_bit_eq_mult [where 'a = nat])

lemma and_not_mask_eq: "w AND NOT (mask k) = push_bit k (drop_bit k w)" for w :: "'a::len word"
  by (rule bit_word_eqI) (auto simp: bit_simps)

lemma unat_and_not_mask:
  "unat (w AND NOT (mask k)) = unat w div 2 ^ k * 2 ^ k" for w :: "'a::len word"
proof -
  have "unat w div 2 ^ k * 2 ^ k \<le> unat w" by (rule div_times_less_eq_dividend)
  then have "unat w div 2 ^ k * 2 ^ k < 2 ^ LENGTH('a)"
    using unsigned_less [of w] by (rule le_less_trans)
  then show ?thesis by (simp add: and_not_mask_eq word_nat)
qed

lemma and_push_bit_one_iff: "(w AND push_bit n 1 = 0) \<longleftrightarrow> \<not> bit w n" for w :: "'a::len word"
proof
  assume z: "w AND push_bit n 1 = 0"
  show "\<not> bit w n"
  proof
    assume b: "bit w n"
    then have "n < LENGTH('a)" by (rule bit_imp_le_length)
    with b have "bit (w AND push_bit n 1) n" by (simp add: bit_simps)
    with z show False by simp
  qed
next
  assume "\<not> bit w n"
  then show "w AND push_bit n 1 = 0"
    by (intro bit_word_eqI) (auto simp: bit_and_iff bit_exp_iff)
qed

lemma unat_add_lt: "unat a + unat b < 2 ^ LENGTH('a) \<Longrightarrow> unat (a + b) = unat a + unat b"
  for a b :: "'a::len word"
  by (simp add: unat_word_ariths)

lemma unat_of_nat_lt: "n < 2 ^ LENGTH('a) \<Longrightarrow> unat (of_nat n :: 'a::len word) = n"
  by (simp add: unsigned_of_nat take_bit_eq_mod)

lemma u64_less: "unat (w :: u64) < 2 ^ 64"
  using unsigned_less [of w] by simp

lemma u64_less_numeral [simp]: "unat (w :: u64) < 18446744073709551616"
  using u64_less [of w] by simp

lemma u32_less: "unat (w :: u32) < 2 ^ 32"
  using unsigned_less [of w] by simp

lemma u16_less: "unat (w :: u16) < 2 ^ 16"
  using unsigned_less [of w] by simp

lemma u8_less: "unat (w :: u8) < 2 ^ 8"
  using unsigned_less [of w] by simp

lemma unat_ucast_u32_u64 [simp]: "unat (ucast (c :: u32) :: u64) = unat c"
  using u32_less [of c] by (simp add: unsigned_ucast_eq take_bit_nat_eq_self)

lemma unat_ucast_u16_u64 [simp]: "unat (ucast (c :: u16) :: u64) = unat c"
  using u16_less [of c] by (simp add: unsigned_ucast_eq take_bit_nat_eq_self)

lemma unat_of_nat_u64: "n < 2 ^ 64 \<Longrightarrow> unat (of_nat n :: u64) = n"
  by (rule unat_of_nat_lt) simp

lemma unat_add_u64: "unat a + unat b < 2 ^ 64 \<Longrightarrow> unat (a + b) = unat a + unat b" for a b :: u64
  by (rule unat_add_lt) simp

lemma unat_sub_le: "unat b \<le> unat a \<Longrightarrow> unat (a - b) = unat a - unat b" for a b :: "'a::len word"
  by (rule unat_sub) (simp add: word_le_nat_alt)

lemma bit_set_push_bit: "bit (w OR push_bit n 1) m \<longleftrightarrow> bit w m \<or> m = n \<and> n < LENGTH('a)"
  for w :: "'a::len word"
  by (auto simp: bit_or_iff bit_exp_iff)

lemma bit_clear_push_bit: "bit (w AND NOT (push_bit n 1)) m \<longleftrightarrow> bit w m \<and> m \<noteq> n"
  for w :: "'a::len word"
  by (auto simp: bit_and_iff bit_not_iff bit_exp_iff dest: bit_imp_le_length)

lemma all_ones_u64: "(0xFFFFFFFFFFFFFFFF :: u64) = mask 64"
  by (simp add: mask_eq_exp_minus_1)

lemma unat_page_offset: "unat (a AND 0xFFF) = unat a mod 4096" for a :: u64
proof -
  have "(0xFFF :: u64) = mask 12" by (simp add: mask_eq_exp_minus_1)
  then have "a AND 0xFFF = take_bit 12 a" by (simp only: take_bit_eq_mask)
  then show ?thesis by (simp add: take_bit_eq_mod unat_mod)
qed

lemma page_aligned_iff: "a AND 0xFFF = 0 \<longleftrightarrow> unat a mod 4096 = 0" for a :: u64
  by (simp add: unat_page_offset [symmetric] unat_eq_zero)

definition page_addr :: "nat \<Rightarrow> u64" where
  "page_addr i = push_bit 12 (of_nat i)"

lemma unat_page_addr: "i < 2 ^ 52 \<Longrightarrow> unat (page_addr i) = 4096 * i"
  by (simp add: page_addr_def unat_push_bit unat_of_nat_u64)

lemma page_of_page_addr: "i < 2 ^ 52 \<Longrightarrow> unat (drop_bit 12 (page_addr i)) = i"
  by (simp only: unat_drop_bit unat_page_addr) simp

lemma page_addr_aligned: "i < 2 ^ 52 \<Longrightarrow> page_addr i AND 0xFFF = 0"
  by (simp add: page_aligned_iff unat_page_addr)

lemma page_of_addr: "unat (drop_bit 12 a) = unat a div 4096" for a :: u64
  by (simp only: unat_drop_bit) simp

lemma page_addr_of_aligned:
  assumes "a AND 0xFFF = 0"
  shows "page_addr (unat (drop_bit 12 a)) = a"
proof -
  have "unat a div 4096 < 2 ^ 52" by (rule less_mult_imp_div_less) simp
  then have "unat (page_addr (unat a div 4096)) = unat a"
    using assms by (simp add: unat_page_addr page_aligned_iff mod_eq_0_iff_dvd)
  then show ?thesis by (simp only: page_of_addr word_unat_eq_iff)
qed

section \<open>Alignment\<close>

lemma kPageSize_exp: "kPageSize = 2 ^ 12"
  by (simp add: kPageSize_def)

lemma unat_kPageSize [simp, word_nat]: "unat kPageSize = 4096"
  by (simp add: kPageSize_def)

lemma align_down_eq: "align_down v (2 ^ k) = v AND NOT (mask k)"
  by (simp add: align_down_def mask_eq_exp_minus_1)

lemma unat_align_down: "unat (align_down v (2 ^ k)) = unat v div 2 ^ k * 2 ^ k"
  by (simp only: align_down_eq unat_and_not_mask)

lemma unat_align_up:
  assumes "unat v + (2 ^ k - 1) < 2 ^ 64" and "k < 64"
  shows "unat (align_up v (2 ^ k)) = (unat v + (2 ^ k - 1)) div 2 ^ k * 2 ^ k"
proof -
  have m: "v + 2 ^ k - 1 = v + mask k"
    by (simp add: mask_eq_exp_minus_1)
  have "mask k = (of_nat (2 ^ k - 1) :: u64)"
    by (simp add: mask_eq_exp_minus_1 of_nat_diff)
  moreover have "(2::nat) ^ k - 1 < 2 ^ 64"
    using assms(1) by linarith
  ultimately have "unat (mask k :: u64) = 2 ^ k - 1"
    by (simp only: unat_of_nat_u64)
  then have "unat (v + mask k) = unat v + (2 ^ k - 1)"
    using assms(1) by (simp add: unat_add_lt)
  then show ?thesis
    by (simp add: align_up_def m mask_eq_exp_minus_1 [symmetric] unat_and_not_mask)
qed

lemma checked_add_Some_iff:
  "checked_add a b = Some c \<longleftrightarrow> unat a + unat b < 2 ^ 64 \<and> c = a + b"
proof -
  have "unat (- 1 :: u64) = 2 ^ 64 - 1"
    by (simp add: unsigned_minus_1_eq_mask mask_eq_exp_minus_1)
  then have "unat (NOT 0 - b) = 2 ^ 64 - 1 - unat b"
    by (simp add: unat_sub)
  then have "(a > NOT 0 - b) \<longleftrightarrow> \<not> unat a + unat b < 2 ^ 64"
    using u64_less [of b] unfolding word_less_nat_alt by linarith
  then show ?thesis by (auto simp: checked_add_def)
qed

lemma checked_add_None_iff: "checked_add a b = None \<longleftrightarrow> 2 ^ 64 \<le> unat a + unat b"
  using checked_add_Some_iff [of a b "a + b"]
  by (cases "checked_add a b") (auto simp: checked_add_Some_iff)

section \<open>The page-stepping loop\<close>

definition page_steps :: "u64 \<Rightarrow> u64 \<Rightarrow> u64 list" where
  "page_steps vp stop =
     map (\<lambda>k. vp + of_nat k * kPageSize) [0 ..< (unat stop - unat vp + 4095) div 4096]"

lemma page_step_count:
  "(a::nat) < b \<Longrightarrow> (b - a + 4095) div 4096 = Suc ((b - (a + 4096) + 4095) div 4096)"
  by (cases "b \<le> a + 4096") (auto simp: div_if)

lemma for_pages_eq:
  assumes "unat stop + 4096 \<le> 2 ^ 64"
  shows "for_pages body vp stop s = Some (fold body (page_steps vp stop) s)"
proof (induction "unat stop - unat vp" arbitrary: vp s rule: less_induct)
  case less
  show ?case
  proof (cases "vp < stop")
    case True
    then have lt: "unat vp < unat stop" by (simp add: word_less_nat_alt)
    then have next_vp: "unat (vp + kPageSize) = unat vp + 4096"
      using assms by (simp add: unat_add_lt)
    then have IH: "for_pages body (vp + kPageSize) stop (body vp s) =
        Some (fold body (page_steps (vp + kPageSize) stop) (body vp s))"
      using lt by (intro less) linarith
    have "(unat stop - unat vp + 4095) div 4096 =
        Suc ((unat stop - unat (vp + kPageSize) + 4095) div 4096)"
      using lt by (simp only: next_vp page_step_count)
    then have "page_steps vp stop = vp # page_steps (vp + kPageSize) stop"
      by (simp only: page_steps_def map_upt_Suc of_nat_Suc of_nat_0 add.assoc distrib_right
            mult_1) simp
    with True IH show ?thesis by (simp add: for_pages.simps [of body vp])
  next
    case False
    then have "page_steps vp stop = []"
      by (simp add: page_steps_def word_less_nat_alt)
    with False show ?thesis by (simp add: for_pages.simps [of body vp])
  qed
qed

lemma takeWhile_less_upt: "takeWhile (\<lambda>j. j < n) [a ..< b] = [a ..< min b n]"
proof (cases "a \<le> n \<and> n < b")
  case True
  then have "[a ..< b] = [a ..< n] @ n # [Suc n ..< b]"
    by (metis upt_add_eq_append le_add_diff_inverse upt_conv_Cons less_imp_le)
  moreover have "takeWhile (\<lambda>j. j < n) ([a ..< n] @ n # [Suc n ..< b]) = [a ..< n]"
    by (subst takeWhile_append2) auto
  ultimately show ?thesis using True by (simp add: min_def)
next
  case False
  show ?thesis
  proof (cases "b \<le> n")
    case True
    then show ?thesis by (simp add: min_def takeWhile_eq_all_conv)
  next
    case b: False
    with False have "n < a" by simp
    then show ?thesis using b by (cases "a < b") (simp_all add: upt_conv_Cons)
  qed
qed

lemma all_less_upt: "(a::nat) < b \<Longrightarrow> (\<forall>j \<in> {a ..< b}. j < n) \<longleftrightarrow> b \<le> n"
  by (cases b) (auto dest: bspec simp: Suc_le_eq)

lemma takeWhile_less_words:
  assumes "b < 2 ^ 64"
  shows "unat ` set (takeWhile (\<lambda>j. j < n) (map (of_nat :: nat \<Rightarrow> u64) [a ..< b])) =
    {a ..< min b (unat n)}"
proof -
  have u: "unat (of_nat j :: u64) = j" if "j < b" for j
    using that assms by (intro unat_of_nat_u64) simp
  have "takeWhile (\<lambda>j. j < n) (map (of_nat :: nat \<Rightarrow> u64) [a ..< b]) =
      map of_nat (takeWhile (\<lambda>j. j < unat n) [a ..< b])"
    unfolding takeWhile_map
    by (intro arg_cong [of _ _ "map _"] takeWhile_cong) (simp_all add: word_less_nat_alt u)
  then show ?thesis by (simp add: takeWhile_less_upt image_image u)
qed

end
