(* ===== verification/Page_Frame.thy ===== *)
theory Page_Frame
  imports Os1_Prelude
begin

text \<open>
  The bitmap page-frame allocator of \<^verbatim>\<open>src/src/kernel/mm/page_frame.cpp\<close> and the boot
  reservation policy of \<^verbatim>\<open>src/src/kernel/mm/boot_reserve.cpp\<close>. The container is a record;
  \<open>pf_bitmap\<close> is the memory the pointer \<^verbatim>\<open>bitmap_\<close> designates, one 64-bit word per
  index, so an access past the tracked words is an access of that memory and not an error.
  An output parameter that is only written on success is an \<open>option\<close> result.
\<close>

section \<open>Data\<close>

record BootMemoryRegion =
  rg_physical_start :: u64
  rg_length :: u64
  rg_type :: u32
  rg_attributes :: u32

definition BootMemoryType_Usable :: u32 where
  "BootMemoryType_Usable = 1"

definition boot_memory_region_is_usable :: "BootMemoryRegion \<Rightarrow> bool" where
  "boot_memory_region_is_usable region \<longleftrightarrow> rg_type region = BootMemoryType_Usable"

record page_frames =
  pf_memory_size :: u64
  pf_memory_end :: u64
  pf_page_count :: u64
  pf_free_page_count :: u64
  pf_bitmap :: "nat \<Rightarrow> u64"
  pf_bitmap_physical_address :: u64
  pf_bitmap_size :: u64
  pf_bitmap_limit :: u64
  pf_initialized :: bool

definition kEarlyReservedPhysicalEnd :: u64 where
  "kEarlyReservedPhysicalEnd = 0x20000"

section \<open>Bitmap bits\<close>

definition memsetq :: "(nat \<Rightarrow> u64) \<Rightarrow> nat \<Rightarrow> u64 \<Rightarrow> u64 \<Rightarrow> (nat \<Rightarrow> u64)" where
  "memsetq mem start v num =
     (\<lambda>i. if start \<le> i \<and> i < start + unat num div 8 then v else mem i)"

definition set_free :: "page_frames \<Rightarrow> u64 \<Rightarrow> page_frames" where
  "set_free pf ipage =
     (let q = unat (ipage div 64)
      in pf\<lparr>pf_bitmap := (pf_bitmap pf)
              (q := pf_bitmap pf q OR push_bit (unat (ipage mod 64)) 1)\<rparr>)"

definition set_busy :: "page_frames \<Rightarrow> u64 \<Rightarrow> page_frames" where
  "set_busy pf ipage =
     (let q = unat (ipage div 64)
      in pf\<lparr>pf_bitmap := (pf_bitmap pf)
              (q := pf_bitmap pf q AND NOT (push_bit (unat (ipage mod 64)) 1))\<rparr>)"

definition is_free :: "page_frames \<Rightarrow> u64 \<Rightarrow> bool" where
  "is_free pf ipage \<longleftrightarrow>
     pf_bitmap pf (unat (ipage div 64)) AND push_bit (unat (ipage mod 64)) 1 \<noteq> 0"

section \<open>Initialisation\<close>

definition align_up_page :: "u64 \<Rightarrow> u64" where
  "align_up_page v = (v + kPageSize - 1) AND NOT (kPageSize - 1)"

definition align_down_page :: "u64 \<Rightarrow> u64" where
  "align_down_page v = v AND NOT (kPageSize - 1)"

text \<open>The memory-map pass: accumulated usable bytes and highest clipped end.\<close>

definition scan_region :: "u64 \<Rightarrow> BootMemoryRegion \<Rightarrow> u64 \<times> u64 \<Rightarrow> u64 \<times> u64" where
  "scan_region max_trackable_end b acc =
     (case acc of (memory_size, memory_end) \<Rightarrow>
        if boot_memory_region_is_usable b then
          let clipped_start = align_up_page (rg_physical_start b);
              region_end = rg_physical_start b + rg_length b;
              clipped_end = align_down_page region_end;
              clipped_end = (if clipped_end > max_trackable_end then max_trackable_end
                             else clipped_end)
          in if clipped_end \<le> clipped_start then (memory_size, memory_end)
             else (memory_size + (clipped_end - clipped_start),
                   if memory_end < clipped_end then clipped_end else memory_end)
        else (memory_size, memory_end))"

text \<open>Painting the page range of one region: the words it covers get their bits set.\<close>

definition paint_one_word :: "(nat \<Rightarrow> u64) \<Rightarrow> u64 \<Rightarrow> u64 \<Rightarrow> (nat \<Rightarrow> u64)" where
  "paint_one_word bitmap start_page end_page =
     (let q = unat (start_page div 64);
          first_bit = start_page mod 64;
          last_bit = (end_page - 1) mod 64;
          bit_count = last_bit - first_bit + 1;
          bmask = (if bit_count = 64 then 0xFFFFFFFFFFFFFFFF
                   else push_bit (unat first_bit) (push_bit (unat bit_count) 1 - 1))
      in bitmap(q := bitmap q OR bmask))"

definition paint_many_words :: "(nat \<Rightarrow> u64) \<Rightarrow> u64 \<Rightarrow> u64 \<Rightarrow> (nat \<Rightarrow> u64)" where
  "paint_many_words bitmap start_page end_page =
     (let ifirst = start_page div 64;
          ilast = (end_page - 1) div 64;
          q = unat ifirst;
          l = unat ilast;
          bm1 = bitmap(q := bitmap q OR push_bit (unat (start_page mod 64)) 0xFFFFFFFFFFFFFFFF);
          bm2 = (if ifirst + 1 < ilast
                 then memsetq bm1 (q + 1) 0xFFFFFFFFFFFFFFFF (8 * (ilast - ifirst - 1))
                 else bm1);
          last_bits = end_page mod 64;
          bmask = (if last_bits = 0 then 0xFFFFFFFFFFFFFFFF
                   else drop_bit (unat (64 - last_bits)) 0xFFFFFFFFFFFFFFFF)
      in bm2(l := bm2 l OR bmask))"

definition paint_pages :: "(nat \<Rightarrow> u64) \<Rightarrow> u64 \<Rightarrow> u64 \<Rightarrow> (nat \<Rightarrow> u64)" where
  "paint_pages bitmap start_page end_page =
     (if end_page \<le> start_page then bitmap
      else if start_page div 64 = (end_page - 1) div 64
      then paint_one_word bitmap start_page end_page
      else paint_many_words bitmap start_page end_page)"

definition paint_region :: "BootMemoryRegion \<Rightarrow> page_frames \<Rightarrow> page_frames" where
  "paint_region b pf =
     (if boot_memory_region_is_usable b then
        let start = align_up_page (rg_physical_start b);
            region_end = rg_physical_start b + rg_length b;
            end0 = align_down_page region_end;
            end1 = (if end0 > pf_memory_end pf then pf_memory_end pf else end0)
        in pf\<lparr>pf_bitmap := paint_pages (pf_bitmap pf) (drop_bit 12 start) (drop_bit 12 end1)\<rparr>
      else pf)"

text \<open>
  The counting pass. As in the source, \<open>ipage\<close> only advances inside words that are not
  zero.
\<close>

fun count_bits :: "nat \<Rightarrow> u64 \<Rightarrow> u64 \<Rightarrow> u64 \<Rightarrow> u64 \<Rightarrow> u64 \<times> u64" where
  "count_bits 0 page_count val num_pages ipage = (num_pages, ipage)"
| "count_bits (Suc bit_count) page_count val num_pages ipage =
     (if ipage < page_count
      then count_bits bit_count page_count (drop_bit 1 val)
             (if val AND 1 \<noteq> 0 then num_pages + 1 else num_pages) (ipage + 1)
      else (num_pages, ipage))"

definition count_word :: "page_frames \<Rightarrow> nat \<Rightarrow> u64 \<times> u64 \<Rightarrow> u64 \<times> u64" where
  "count_word pf p acc =
     (if pf_bitmap pf p \<noteq> 0
      then count_bits 64 (pf_page_count pf) (pf_bitmap pf p) (fst acc) (snd acc)
      else acc)"

definition count_free_pages :: "page_frames \<Rightarrow> u64" where
  "count_free_pages pf = fst (fold (count_word pf) [0 ..< unat (pf_bitmap_size pf)] (0, 0))"

definition mark_busy_counted :: "u64 \<Rightarrow> page_frames \<Rightarrow> page_frames" where
  "mark_busy_counted ipage pf =
     (if ipage < pf_page_count pf \<and> is_free pf ipage then
        let pf1 = set_busy pf ipage
        in if pf_free_page_count pf1 > 0
           then pf1\<lparr>pf_free_page_count := pf_free_page_count pf1 - 1\<rparr> else pf1
      else pf)"

definition mark_busy_at :: "u64 \<Rightarrow> page_frames \<Rightarrow> page_frames" where
  "mark_busy_at vp pf = mark_busy_counted (drop_bit 12 vp) pf"

text \<open>
  \<open>initialize\<close>. The bounds of the reserved kernel window come from the generated header
  \<^verbatim>\<open>kernel_layout.hpp\<close>, so they are the parameters \<open>krs\<close> and \<open>kre\<close>. \<open>None\<close> is a call
  whose reservation loops do not end.
\<close>

definition pf_initialize ::
  "u64 \<Rightarrow> u64 \<Rightarrow> page_frames \<Rightarrow> BootMemoryRegion list \<Rightarrow> u64 \<Rightarrow> u64 \<Rightarrow> (bool \<times> page_frames) option" where
  "pf_initialize krs kre pf memory_regions bitmap_address bitmap_limit =
     (if pf_initialized pf then Some (False, pf)
      else
        let max_trackable_pages = bitmap_limit * 64;
            max_trackable_end = max_trackable_pages * kPageSize;
            (msize, mend) = fold (scan_region max_trackable_end) memory_regions (0, 0);
            pf0 = pf\<lparr>pf_memory_size := msize, pf_memory_end := mend,
                     pf_bitmap_physical_address := bitmap_address,
                     pf_bitmap_limit := bitmap_limit\<rparr>
        in if msize > 0 \<and> mend > 0 then
             let page_count = drop_bit 12 mend;
                 bitmap_size = ((page_count + 7) div 8 + 7) div 8;
                 pf1 = pf0\<lparr>pf_page_count := page_count, pf_bitmap_size := bitmap_size\<rparr>
             in if bitmap_size \<le> bitmap_limit then
                  let pf2 = pf1\<lparr>pf_bitmap := memsetq (pf_bitmap pf1) 0 0 (bitmap_size * 8)\<rparr>;
                      pf3 = fold paint_region memory_regions pf2;
                      pf4 = pf3\<lparr>pf_free_page_count := count_free_pages pf3\<rparr>;
                      bitmap_end = bitmap_address + bitmap_limit * 8
                  in (case for_pages mark_busy_at bitmap_address bitmap_end pf4 of
                        None \<Rightarrow> None
                      | Some pf5 \<Rightarrow>
                        (case for_pages mark_busy_at 0 kEarlyReservedPhysicalEnd pf5 of
                           None \<Rightarrow> None
                         | Some pf6 \<Rightarrow>
                           (case for_pages mark_busy_at krs kre pf6 of
                              None \<Rightarrow> None
                            | Some pf7 \<Rightarrow> Some (True, pf7\<lparr>pf_initialized := True\<rparr>))))
                else Some (False, pf1)
           else Some (False, pf0))"

section \<open>Allocation\<close>

function find_bit :: "u64 \<Rightarrow> u64 \<Rightarrow> u64 option" where
  "find_bit val ipage =
     (if val \<noteq> 0 then
        if val AND 1 \<noteq> 0 then Some ipage else find_bit (drop_bit 1 val) (ipage + 1)
      else None)"
  by pat_completeness auto
termination
proof (relation "measure (\<lambda>(val, ipage). unat val)")
  fix val ipage :: u64
  assume "val \<noteq> 0"
  then have "0 < unat val" by (simp add: unat_gt_0)
  then have "unat (drop_bit 1 val) < unat val" by (simp only: unat_drop_bit) simp
  then show "((drop_bit 1 val, ipage + 1), val, ipage) \<in> measure (\<lambda>(val, ipage). unat val)"
    by simp
qed simp

declare find_bit.simps [simp del]

text \<open>The word scan of \<open>allocate(address)\<close>: the first word and page found free.\<close>

fun alloc_scan :: "(nat \<Rightarrow> u64) \<Rightarrow> nat list \<Rightarrow> (nat \<times> u64) option" where
  "alloc_scan bitmap [] = None"
| "alloc_scan bitmap (p # ps) =
     (if bitmap p \<noteq> 0
      then (case find_bit (bitmap p) (of_nat p * 64) of
              Some ipage \<Rightarrow> Some (p, ipage)
            | None \<Rightarrow> alloc_scan bitmap ps)
      else alloc_scan bitmap ps)"

definition pf_allocate :: "page_frames \<Rightarrow> u64 option \<times> page_frames" where
  "pf_allocate pf =
     (if \<not> pf_initialized pf then (None, pf)
      else case alloc_scan (pf_bitmap pf) [0 ..< unat (pf_bitmap_size pf)] of
             None \<Rightarrow> (None, pf)
           | Some (p, ipage) \<Rightarrow>
               let address = push_bit 12 ipage;
                   bmask = NOT (push_bit (unat (ipage mod 64)) 1);
                   pf1 = pf\<lparr>pf_bitmap := (pf_bitmap pf)(p := pf_bitmap pf p AND bmask)\<rparr>;
                   pf2 = (if pf_free_page_count pf1 > 0
                          then pf1\<lparr>pf_free_page_count := pf_free_page_count pf1 - 1\<rparr> else pf1)
               in (Some address, pf2))"

text \<open>
  The run scan of \<open>allocate(address, count)\<close>: \<open>run_start = page_count\<close> is \<open>no run open\<close>.
\<close>

fun run_scan :: "page_frames \<Rightarrow> u64 \<Rightarrow> u64 \<Rightarrow> u64 list \<Rightarrow> (u64 \<times> u64) option" where
  "run_scan pf count run_start [] = None"
| "run_scan pf count run_start (i # is) =
     (if is_free pf i then
        let run_start' = (if run_start = pf_page_count pf then i else run_start)
        in if i - run_start' + 1 = count then Some (run_start', i)
           else run_scan pf count run_start' is
      else run_scan pf count (pf_page_count pf) is)"

definition pf_allocate_run :: "page_frames \<Rightarrow> u32 \<Rightarrow> u64 option \<times> page_frames" where
  "pf_allocate_run pf count =
     (if \<not> pf_initialized pf then (None, pf)
      else if count = 0 then (None, pf)
      else case run_scan pf (ucast count) (pf_page_count pf)
                  (map of_nat [0 ..< unat (pf_page_count pf)]) of
             None \<Rightarrow> (None, pf)
           | Some (run_start, i) \<Rightarrow>
               let pf1 = fold (\<lambda>j s. set_busy s j)
                           (map of_nat [unat run_start ..< Suc (unat i)]) pf;
                   pf2 = (if pf_free_page_count pf1 \<ge> ucast count
                          then pf1\<lparr>pf_free_page_count := pf_free_page_count pf1 - ucast count\<rparr>
                          else pf1)
               in (Some (push_bit 12 run_start), pf2))"

section \<open>Release and reservation\<close>

definition pf_free :: "page_frames \<Rightarrow> u64 \<Rightarrow> bool \<times> page_frames" where
  "pf_free pf address =
     (if \<not> pf_initialized pf then (False, pf)
      else if address AND 0xFFF \<noteq> 0 then (False, pf)
      else
        let ipage = drop_bit 12 address
        in if ipage < pf_page_count pf then
             let q = unat (ipage div 64);
                 bmask = push_bit (unat (ipage mod 64)) 1
             in if pf_bitmap pf q AND bmask = 0
                then (True, pf\<lparr>pf_bitmap := (pf_bitmap pf)(q := pf_bitmap pf q OR bmask),
                               pf_free_page_count := pf_free_page_count pf + 1\<rparr>)
                else (False, pf)
           else (False, pf))"

fun reserve_pages :: "u64 list \<Rightarrow> page_frames \<Rightarrow> bool \<times> page_frames" where
  "reserve_pages [] pf = (True, pf)"
| "reserve_pages (ipage # rest) pf =
     (if ipage \<ge> pf_page_count pf then (False, pf)
      else if is_free pf ipage then
        let pf1 = set_busy pf ipage;
            pf2 = (if pf_free_page_count pf1 > 0
                   then pf1\<lparr>pf_free_page_count := pf_free_page_count pf1 - 1\<rparr> else pf1)
        in reserve_pages rest pf2
      else reserve_pages rest pf)"

definition pf_reserve_range :: "page_frames \<Rightarrow> u64 \<Rightarrow> u64 \<Rightarrow> bool \<times> page_frames" where
  "pf_reserve_range pf address len =
     (if \<not> pf_initialized pf \<or> len = 0 then (False, pf)
      else
        let start_page = drop_bit 12 address;
            end_page = drop_bit 12 (address + len + kPageSize - 1)
        in if end_page \<le> start_page then (True, pf)
           else reserve_pages (map of_nat [unat start_page ..< unat end_page]) pf)"

definition reserve_tracked_physical_range :: "page_frames \<Rightarrow> u64 \<Rightarrow> u64 \<Rightarrow> page_frames" where
  "reserve_tracked_physical_range frames physical_start len =
     (if len = 0 \<or> physical_start \<ge> pf_memory_end frames then frames
      else
        let clamped_end = (if physical_start + len < pf_memory_end frames
                           then physical_start + len else pf_memory_end frames)
        in if clamped_end > physical_start
           then snd (pf_reserve_range frames physical_start (clamped_end - physical_start))
           else frames)"

section \<open>Abstraction: the set of free pages\<close>

definition free_bit :: "page_frames \<Rightarrow> nat \<Rightarrow> bool" where
  "free_bit pf i \<longleftrightarrow> bit (pf_bitmap pf (i div 64)) (i mod 64)"

definition free_pages :: "page_frames \<Rightarrow> nat set" where
  "free_pages pf = {i. i < unat (pf_page_count pf) \<and> free_bit pf i}"

text \<open>
  The invariant: every tracked page has a bitmap bit, the bitmap carries no free bit past the
  tracked pages (so the word scan needs no bound check), and the counter is exact.
\<close>

definition pf_inv :: "page_frames \<Rightarrow> bool" where
  "pf_inv pf \<longleftrightarrow>
     pf_initialized pf \<and>
     unat (pf_page_count pf) < 2 ^ 52 \<and>
     unat (pf_page_count pf) \<le> 64 * unat (pf_bitmap_size pf) \<and>
     unat (pf_bitmap_size pf) < 2 ^ 52 \<and>
     (\<forall>i < 64 * unat (pf_bitmap_size pf). free_bit pf i \<longrightarrow> i < unat (pf_page_count pf)) \<and>
     unat (pf_free_page_count pf) = card (free_pages pf)"

lemma finite_free_pages [simp]: "finite (free_pages pf)"
  by (simp add: free_pages_def)

lemma unat_div_64 [simp]: "unat (i div 64) = unat i div 64" for i :: u64
  by (simp add: unat_div)

lemma unat_mod_64 [simp]: "unat (i mod 64) = unat i mod 64" for i :: u64
  by (simp add: unat_mod)

lemma is_free_iff: "is_free pf i \<longleftrightarrow> free_bit pf (unat i)"
  by (simp add: is_free_def free_bit_def and_push_bit_one_iff del: push_bit_of_1)

lemma div_mod_64_eq_iff: "(i::nat) div 64 = j div 64 \<and> i mod 64 = j mod 64 \<longleftrightarrow> i = j"
  by (metis div_mult_mod_eq)

lemma free_bit_set_busy [simp]:
  "free_bit (set_busy pf i) j \<longleftrightarrow> free_bit pf j \<and> j \<noteq> unat i"
  using div_mod_64_eq_iff [of j "unat i"]
  by (auto simp: free_bit_def set_busy_def Let_def bit_clear_push_bit
        simp del: push_bit_of_1)

lemma free_bit_set_free [simp]:
  "free_bit (set_free pf i) j \<longleftrightarrow> free_bit pf j \<or> j = unat i"
  using div_mod_64_eq_iff [of j "unat i"]
  by (auto simp: free_bit_def set_free_def Let_def bit_set_push_bit
        simp del: push_bit_of_1)

lemma set_busy_frame [simp]:
  "pf_page_count (set_busy pf i) = pf_page_count pf"
  "pf_bitmap_size (set_busy pf i) = pf_bitmap_size pf"
  "pf_free_page_count (set_busy pf i) = pf_free_page_count pf"
  "pf_initialized (set_busy pf i) = pf_initialized pf"
  "pf_memory_end (set_busy pf i) = pf_memory_end pf"
  by (simp_all add: set_busy_def Let_def)

lemma free_bit_bitmap: "pf_bitmap pf' = pf_bitmap pf \<Longrightarrow> free_bit pf' = free_bit pf"
  by (simp add: free_bit_def fun_eq_iff)

lemma free_bit_count_upd [simp]:
  "free_bit (pf\<lparr>pf_free_page_count := c\<rparr>) = free_bit pf"
  by (rule free_bit_bitmap) simp

lemma free_pages_count_upd [simp]:
  "free_pages (pf\<lparr>pf_free_page_count := c\<rparr>) = free_pages pf"
  by (simp add: free_pages_def)

lemma free_pages_set_busy [simp]: "free_pages (set_busy pf i) = free_pages pf - {unat i}"
  by (auto simp: free_pages_def)

section \<open>Single-page allocation\<close>

lemma find_bit_spec:
  "val \<noteq> 0 \<Longrightarrow> \<exists>n < 64. find_bit val ipage = Some (ipage + of_nat n) \<and> bit val n \<and> (\<forall>m < n. \<not> bit val m)"
proof (induction val ipage rule: find_bit.induct)
  case (1 val ipage)
  show ?case
  proof (cases "val AND 1 = 0")
    case False
    then have "bit val 0" by (simp add: and_one_eq odd_iff_mod_2_eq_one bit_0)
    with False "1.prems" show ?thesis
      by (intro exI [of _ 0]) (simp add: find_bit.simps)
  next
    case True
    have b0: "\<not> bit val 0"
      using True and_push_bit_one_iff [of val 0] by simp
    have nz: "drop_bit 1 val \<noteq> 0"
    proof
      assume z: "drop_bit 1 val = 0"
      have "\<not> bit val n" for n
        using b0 arg_cong [OF z, of "\<lambda>w. bit w (n - 1)"]
        by (cases n) (simp_all add: bit_drop_bit_eq)
      then have "val = 0" by (intro bit_word_eqI) simp
      with "1.prems" show False by simp
    qed
    from "1.IH" [OF "1.prems" _ nz] True obtain n where
      n: "find_bit (drop_bit 1 val) (ipage + 1) = Some (ipage + 1 + of_nat n)"
      "bit (drop_bit 1 val) n" "\<forall>m < n. \<not> bit (drop_bit 1 val) m" by auto
    have b: "bit val (Suc n)" using n(2) by (simp add: bit_drop_bit_eq)
    then have "Suc n < 64" using bit_imp_le_length [of val "Suc n"] by simp
    moreover have "\<not> bit val m" if "m < Suc n" for m
      using that b0 n(3) by (cases m) (auto simp: bit_drop_bit_eq)
    ultimately show ?thesis
      using True "1.prems" n(1) b
      by (intro exI [of _ "Suc n"]) (simp add: find_bit.simps [of val] add.assoc)
  qed
qed

lemma alloc_scan_None: "alloc_scan bm ps = None \<longleftrightarrow> (\<forall>p \<in> set ps. bm p = 0)"
proof (induction ps)
  case (Cons p ps)
  then show ?case
    using find_bit_spec [of "bm p" "of_nat p * 64"] by (auto split: option.splits)
qed simp

lemma alloc_scan_Some:
  "alloc_scan bm ps = Some (p, ip) \<Longrightarrow>
     \<exists>us vs n. ps = us @ p # vs \<and> (\<forall>q \<in> set us. bm q = 0) \<and> n < 64 \<and>
       ip = of_nat p * 64 + of_nat n \<and> bit (bm p) n \<and> (\<forall>m < n. \<not> bit (bm p) m)"
proof (induction ps)
  case (Cons q ps)
  show ?case
  proof (cases "bm q = 0")
    case True
    with Cons obtain us vs n where "ps = us @ p # vs" "\<forall>q \<in> set us. bm q = 0" "n < 64"
      "ip = of_nat p * 64 + of_nat n" "bit (bm p) n" "\<forall>m < n. \<not> bit (bm p) m"
      by auto
    with True show ?thesis
      by (intro exI [of _ "q # us"] exI [of _ vs] exI [of _ n]) simp
  next
    case False
    with Cons.prems find_bit_spec [OF False, of "of_nat q * 64"] show ?thesis
      by (intro exI [of _ "[]"] exI [of _ ps]) auto
  qed
qed simp

lemma upt_split: "[0 ..< b] = us @ p # vs \<Longrightarrow> us = [0 ..< p] \<and> p < b"
proof -
  assume eq: "[0 ..< b] = us @ p # vs"
  have len: "length us < b"
    using arg_cong [OF eq, of length] by simp
  moreover have "p = length us"
    using arg_cong [OF eq, of "\<lambda>xs. xs ! length us"] len by simp
  moreover have "us = take (length us) [0 ..< b]"
    by (simp add: eq)
  ultimately show ?thesis by simp
qed

lemma pf_inv_bound: "pf_inv pf \<Longrightarrow> i \<in> free_pages pf \<Longrightarrow> i < 2 ^ 52"
  by (auto simp: pf_inv_def free_pages_def)

lemma alloc_scan_Min:
  assumes inv: "pf_inv pf"
    and sc: "alloc_scan (pf_bitmap pf) [0 ..< unat (pf_bitmap_size pf)] = Some (p, ip)"
  shows "unat ip = Min (free_pages pf) \<and> unat ip \<in> free_pages pf \<and> p = unat ip div 64"
proof -
  from alloc_scan_Some [OF sc] obtain us vs n where
    sp: "[0 ..< unat (pf_bitmap_size pf)] = us @ p # vs" and
    z: "\<forall>q \<in> set us. pf_bitmap pf q = 0" and n: "n < 64" and
    ip: "ip = of_nat p * 64 + of_nat n" and b: "bit (pf_bitmap pf p) n" and
    least: "\<forall>m < n. \<not> bit (pf_bitmap pf p) m" by blast
  from upt_split [OF sp] have us: "us = [0 ..< p]" and p: "p < unat (pf_bitmap_size pf)" by auto
  have small: "64 * p + n < 2 ^ 58" using inv p n by (simp add: pf_inv_def)
  have "ip = of_nat (64 * p + n)" by (simp add: ip)
  with small unat_of_nat_u64 [of "64 * p + n"] have u: "unat ip = 64 * p + n" by simp
  have fb: "free_bit pf (unat ip)" using b n by (simp add: free_bit_def u)
  moreover have "unat ip < 64 * unat (pf_bitmap_size pf)" using p n u by simp
  ultimately have mem: "unat ip \<in> free_pages pf"
    using inv by (auto simp: pf_inv_def free_pages_def)
  have "unat ip \<le> j" if "j \<in> free_pages pf" for j
  proof (rule ccontr)
    assume "\<not> unat ip \<le> j"
    then have lt: "j < 64 * p + n" using u by simp
    have jb: "bit (pf_bitmap pf (j div 64)) (j mod 64)"
      using that by (simp add: free_pages_def free_bit_def)
    show False
    proof (cases "j div 64 < p")
      case True
      with z us have "pf_bitmap pf (j div 64) = 0" by auto
      with jb show False by simp
    next
      case False
      with lt n have "j div 64 = p" by simp
      with lt have "j mod 64 < n" by presburger
      with least jb \<open>j div 64 = p\<close> show False by simp
    qed
  qed
  then have "Min (free_pages pf) = unat ip" by (intro Min_eqI) (auto simp: mem)
  with mem u n show ?thesis by simp
qed

text \<open>The state after page \<open>i\<close> is taken: one bit cleared, one page fewer counted.\<close>

definition take_page :: "page_frames \<Rightarrow> u64 \<Rightarrow> page_frames" where
  "take_page pf i = (set_busy pf i)\<lparr>pf_free_page_count := pf_free_page_count pf - 1\<rparr>"

lemma card_free_pages_pos: "i \<in> free_pages pf \<Longrightarrow> 0 < card (free_pages pf)"
  by (auto simp: card_gt_0_iff)

lemma pf_inv_count_pos: "pf_inv pf \<Longrightarrow> i \<in> free_pages pf \<Longrightarrow> 0 < pf_free_page_count pf"
  using card_free_pages_pos [of i pf] by (simp add: pf_inv_def word_less_nat_alt)

lemma take_page_frame [simp]:
  "pf_page_count (take_page pf i) = pf_page_count pf"
  "pf_memory_end (take_page pf i) = pf_memory_end pf"
  "free_pages (take_page pf i) = free_pages pf - {unat i}"
  by (simp_all add: take_page_def)

lemma pf_inv_take_page:
  assumes "pf_inv pf" and "unat i \<in> free_pages pf"
  shows "pf_inv (take_page pf i)"
proof -
  have pos: "0 < pf_free_page_count pf" using assms by (rule pf_inv_count_pos)
  then have "unat (pf_free_page_count pf - 1) = card (free_pages pf) - 1"
    using assms(1) by (subst unat_sub_le) (auto simp: pf_inv_def word_less_nat_alt)
  then show ?thesis
    using assms by (auto simp: pf_inv_def take_page_def card_Diff_singleton)
qed

lemma pf_allocate_None: "pf_inv pf \<Longrightarrow> free_pages pf = {} \<Longrightarrow> pf_allocate pf = (None, pf)"
  using alloc_scan_Min [of pf]
  by (fastforce simp: pf_allocate_def split: option.splits)

lemma pf_allocate_Some:
  assumes inv: "pf_inv pf" and ne: "free_pages pf \<noteq> {}"
  shows "pf_allocate pf =
    (Some (push_bit 12 (of_nat (Min (free_pages pf)))), take_page pf (of_nat (Min (free_pages pf))))"
proof -
  from ne obtain j where j: "j \<in> free_pages pf" by auto
  then have "bit (pf_bitmap pf (j div 64)) (j mod 64)" by (simp add: free_pages_def free_bit_def)
  then have "pf_bitmap pf (j div 64) \<noteq> 0" by auto
  moreover have "j div 64 < unat (pf_bitmap_size pf)"
    using inv j by (auto simp: pf_inv_def free_pages_def)
  ultimately have "alloc_scan (pf_bitmap pf) [0 ..< unat (pf_bitmap_size pf)] \<noteq> None"
    by (auto simp: alloc_scan_None)
  then obtain p ip where sc: "alloc_scan (pf_bitmap pf) [0 ..< unat (pf_bitmap_size pf)] = Some (p, ip)"
    by auto
  from alloc_scan_Min [OF inv sc] have
    ip: "unat ip = Min (free_pages pf)" "unat ip \<in> free_pages pf" and p: "p = unat ip div 64" by auto
  have pos: "0 < pf_free_page_count pf" using inv ip(2) by (rule pf_inv_count_pos)
  have ip': "of_nat (Min (free_pages pf)) = ip" by (simp flip: ip(1))
  show ?thesis
    using inv sc pos unfolding ip'
    by (simp add: pf_allocate_def pf_inv_def take_page_def set_busy_def Let_def p)
qed

section \<open>Contiguous allocation\<close>

definition is_run :: "page_frames \<Rightarrow> nat \<Rightarrow> nat \<Rightarrow> bool" where
  "is_run pf c s \<longleftrightarrow> s + c \<le> unat (pf_page_count pf) \<and> (\<forall>j \<in> {s ..< s + c}. free_bit pf j)"

lemma is_run_subset: "is_run pf c s \<Longrightarrow> {s ..< s + c} \<subseteq> free_pages pf"
  by (auto simp: is_run_def free_pages_def)

lemma is_run_LeastI:
  assumes "is_run pf c s" and "\<forall>t < s. \<not> is_run pf c t"
  shows "(LEAST t. is_run pf c t) = s"
  using assms by (intro Least_equality) (auto simp: not_less [symmetric])

text \<open>
  At index \<open>k\<close> the open run starts at \<open>r\<close> (or at \<open>k\<close> itself when no run is open), is free
  throughout, is shorter than the request, and no admissible run starts before it.
\<close>

definition first_run :: "page_frames \<Rightarrow> nat \<Rightarrow> (u64 \<times> u64) option" where
  "first_run pf c =
     (if \<exists>t. is_run pf c t
      then Some (of_nat (LEAST t. is_run pf c t), of_nat ((LEAST t. is_run pf c t) + c - 1))
      else None)"

text \<open>One step on a busy page and one on a free page, then the induction.\<close>

lemma no_run_across_busy:
  assumes "\<not> free_bit pf k" and "k - r < c" and "r \<le> k" and "\<forall>t < r. \<not> is_run pf c t"
  shows "\<forall>t < Suc k. \<not> is_run pf c t"
proof (intro allI impI)
  fix t
  assume t: "t < Suc k"
  show "\<not> is_run pf c t"
  proof (cases "t < r")
    case True
    with assms(4) show ?thesis by simp
  next
    case False
    then have "k \<in> {t ..< t + c}" using t assms(2,3) by simp
    with assms(1) show ?thesis by (auto simp: is_run_def)
  qed
qed

lemma open_run_length:
  assumes "k < 2 ^ 63" and "r \<le> k" and "unat rs = r"
  shows "(of_nat k - rs + 1 = (count :: u64)) \<longleftrightarrow> k - r + 1 = unat count"
proof -
  have uk: "unat (of_nat k :: u64) = k" using assms(1) by (intro unat_of_nat_u64) simp
  have "unat (of_nat k - rs) = k - r"
    using assms by (simp add: unat_sub_le uk)
  then have "unat (of_nat k - rs + 1) = k - r + 1"
    using assms(1) by (subst unat_add_u64) auto
  then show ?thesis by (simp add: word_unat_eq_iff)
qed

lemma run_scan_spec:
  assumes N: "N = unat (pf_page_count pf)" "N < 2 ^ 63" and c: "0 < unat count"
    and k: "k \<le> N" and r: "r = (if rs = pf_page_count pf then k else unat rs)"
    and rk: "r \<le> k" "k - r < unat count" "\<forall>j \<in> {r ..< k}. free_bit pf j"
    and before: "\<forall>t < r. \<not> is_run pf (unat count) t"
  shows "run_scan pf count rs (map of_nat [k ..< N]) = first_run pf (unat count)"
  using k r rk before
proof (induction "N - k" arbitrary: k r rs)
  case 0
  then have "\<not> is_run pf (unat count) t" for t
    using N by (cases "t < r") (auto simp: is_run_def)
  with 0 show ?case by (simp add: first_run_def)
next
  case (Suc d)
  then have kN: "k < N" by simp
  have uk: "unat (of_nat k :: u64) = k" using kN N(2) by (intro unat_of_nat_u64) simp
  have cons: "[k ..< N] = k # [Suc k ..< N]" using kN by (rule upt_conv_Cons)
  have is_free_k: "is_free pf (of_nat k) \<longleftrightarrow> free_bit pf k" by (simp only: is_free_iff uk)
  show ?case
  proof (cases "free_bit pf k")
    case False
    then have "\<forall>t < Suc k. \<not> is_run pf (unat count) t"
      using Suc.prems(4,3,6) by (rule no_run_across_busy)
    then have "run_scan pf count (pf_page_count pf) (map of_nat [Suc k ..< N]) =
        first_run pf (unat count)"
      using Suc.hyps(2) kN c by (intro Suc.hyps(1) [where r = "Suc k"]) auto
    with False show ?thesis by (simp add: cons is_free_k del: upt_Suc)
  next
    case True
    define rs' where "rs' = (if rs = pf_page_count pf then of_nat k else rs)"
    have urs: "unat rs' = r" using Suc.prems(2) uk by (simp add: rs'_def)
    have ne: "rs' \<noteq> pf_page_count pf" using urs kN Suc.prems(3) N(1) by auto
    have len: "of_nat k - rs' + 1 = count \<longleftrightarrow> k - r + 1 = unat count"
      using kN N(2) Suc.prems(3) urs by (intro open_run_length) auto
    have free': "\<forall>j \<in> {r ..< Suc k}. free_bit pf j"
      using True Suc.prems(5) by (auto simp: less_Suc_eq)
    show ?thesis
    proof (cases "k - r + 1 = unat count")
      case hit: True
      then have run: "is_run pf (unat count) r"
        using free' kN N(1) Suc.prems(3) by (auto simp: is_run_def)
      then have least: "(LEAST t. is_run pf (unat count) t) = r"
        using Suc.prems(6) by (rule is_run_LeastI)
      have "rs' = of_nat r" "k = r + unat count - 1"
        using hit Suc.prems(3) by (simp_all flip: urs)
      then have "first_run pf (unat count) = Some (rs', of_nat k)"
        using run by (auto simp: first_run_def least simp del: of_nat_add)
      moreover have "run_scan pf count rs (map of_nat [k ..< N]) = Some (rs', of_nat k)"
        using True hit len by (simp add: cons is_free_k Let_def flip: rs'_def del: upt_Suc)
      ultimately show ?thesis by simp
    next
      case miss: False
      then have "run_scan pf count rs' (map of_nat [Suc k ..< N]) = first_run pf (unat count)"
        using Suc.hyps(2) kN urs ne free' Suc.prems
        by (intro Suc.hyps(1) [where r = r]) auto
      with True miss len show ?thesis
        by (simp add: cons is_free_k Let_def flip: rs'_def del: upt_Suc)
    qed
  qed
qed

lemma fold_set_busy_frame [simp]:
  "pf_page_count (fold (\<lambda>j s. set_busy s j) js pf) = pf_page_count pf"
  "pf_bitmap_size (fold (\<lambda>j s. set_busy s j) js pf) = pf_bitmap_size pf"
  "pf_free_page_count (fold (\<lambda>j s. set_busy s j) js pf) = pf_free_page_count pf"
  "pf_initialized (fold (\<lambda>j s. set_busy s j) js pf) = pf_initialized pf"
  "pf_memory_end (fold (\<lambda>j s. set_busy s j) js pf) = pf_memory_end pf"
  by (induction js arbitrary: pf) simp_all

lemma free_bit_fold_set_busy [simp]:
  "free_bit (fold (\<lambda>j s. set_busy s j) js pf) i \<longleftrightarrow> free_bit pf i \<and> i \<notin> unat ` set js"
  by (induction js arbitrary: pf) auto

lemma unat_image_upt:
  assumes "b \<le> 2 ^ 64"
  shows "unat ` set (map (of_nat :: nat \<Rightarrow> u64) [a ..< b]) = {a ..< b}"
proof -
  have "unat (of_nat i :: u64) = i" if "i < b" for i
    using that assms by (intro unat_of_nat_u64) simp
  then show ?thesis by (auto simp: image_iff intro!: bexI)
qed

text \<open>The state after the run \<open>{s ..< s + c}\<close> is taken.\<close>

definition take_run :: "page_frames \<Rightarrow> nat \<Rightarrow> nat \<Rightarrow> page_frames" where
  "take_run pf s c =
     (fold (\<lambda>j s. set_busy s j) (map of_nat [s ..< s + c]) pf)
       \<lparr>pf_free_page_count := pf_free_page_count pf - of_nat c\<rparr>"

lemma take_run_frame [simp]:
  "pf_page_count (take_run pf s c) = pf_page_count pf"
  "pf_memory_end (take_run pf s c) = pf_memory_end pf"
  by (simp_all add: take_run_def)

lemma free_pages_take_run: "s + c \<le> 2 ^ 64 \<Longrightarrow> free_pages (take_run pf s c) = free_pages pf - {s ..< s + c}"
  using unat_image_upt [of "s + c" s] by (auto simp: take_run_def free_pages_def)

lemma is_run_card: "is_run pf c s \<Longrightarrow> c \<le> card (free_pages pf)"
  using card_mono [OF finite_free_pages is_run_subset, of pf c s] by simp

lemma pf_inv_take_run:
  assumes inv: "pf_inv pf" and run: "is_run pf c s"
  shows "pf_inv (take_run pf s c)"
proof -
  have b: "s + c \<le> 2 ^ 52" using inv run by (simp add: pf_inv_def is_run_def)
  have "unat (of_nat c :: u64) = c" using b by (intro unat_of_nat_u64) simp
  then have "unat (pf_free_page_count pf - of_nat c) = card (free_pages pf) - c"
    using inv is_run_card [OF run] by (simp add: pf_inv_def unat_sub_le)
  moreover have "card (free_pages pf - {s ..< s + c}) = card (free_pages pf) - c"
    using is_run_subset [OF run] by (subst card_Diff_subset) auto
  moreover have "free_pages (take_run pf s c) = free_pages pf - {s ..< s + c}"
    using b by (intro free_pages_take_run) simp
  ultimately show ?thesis
    using inv by (simp add: pf_inv_def) (simp add: take_run_def)
qed

lemma pf_allocate_run_eq:
  assumes inv: "pf_inv pf" and c: "count \<noteq> 0"
  shows "pf_allocate_run pf count =
    (if \<exists>t. is_run pf (unat count) t
     then (Some (push_bit 12 (of_nat (LEAST t. is_run pf (unat count) t))),
           take_run pf (LEAST t. is_run pf (unat count) t) (unat count))
     else (None, pf))"
proof -
  have pos: "0 < unat count" using c by (simp add: unat_gt_0)
  have scan: "run_scan pf (ucast count) (pf_page_count pf)
      (map of_nat [0 ..< unat (pf_page_count pf)]) = first_run pf (unat count)"
    using inv pos run_scan_spec [where k = 0 and r = 0 and count = "ucast count" and pf = pf
        and rs = "pf_page_count pf" and N = "unat (pf_page_count pf)"]
    by (simp add: pf_inv_def)
  show ?thesis
  proof (cases "\<exists>t. is_run pf (unat count) t")
    case False
    with inv c scan show ?thesis by (simp add: pf_allocate_run_def pf_inv_def first_run_def)
  next
    case True
    define t where "t = (LEAST t. is_run pf (unat count) t)"
    from True have run: "is_run pf (unat count) t" unfolding t_def by (rule LeastI_ex)
    then have b: "t + unat count \<le> 2 ^ 52" using inv by (simp add: pf_inv_def is_run_def)
    have u1: "unat (of_nat t :: u64) = t" using b by (intro unat_of_nat_u64) simp
    have u2: "unat (of_nat (t + unat count - 1) :: u64) = t + unat count - 1"
      using b by (intro unat_of_nat_u64) simp
    have ge: "ucast count \<le> pf_free_page_count pf"
      using inv is_run_card [OF run] by (simp add: pf_inv_def word_le_nat_alt)
    have idx: "Suc (t + unat count - 1) = t + unat count" using pos by simp
    have uc: "ucast count = (of_nat (unat count) :: u64)" by simp
    show ?thesis
      using inv c scan True ge u1 u2 idx unfolding t_def [symmetric]
      by (simp add: pf_allocate_run_def pf_inv_def first_run_def take_run_def Let_def
            flip: t_def uc del: upt_Suc of_nat_add)
  qed
qed

section \<open>Release and reservation\<close>

text \<open>The state after page \<open>i\<close> is returned.\<close>

definition give_page :: "page_frames \<Rightarrow> u64 \<Rightarrow> page_frames" where
  "give_page pf i = (set_free pf i)\<lparr>pf_free_page_count := pf_free_page_count pf + 1\<rparr>"

lemma give_page_frame [simp]:
  "pf_page_count (give_page pf i) = pf_page_count pf"
  "pf_bitmap_size (give_page pf i) = pf_bitmap_size pf"
  "pf_initialized (give_page pf i) = pf_initialized pf"
  "pf_memory_end (give_page pf i) = pf_memory_end pf"
  by (simp_all add: give_page_def set_free_def Let_def)

lemma free_bit_give_page [simp]: "free_bit (give_page pf i) j \<longleftrightarrow> free_bit pf j \<or> j = unat i"
  by (simp add: give_page_def)

lemma free_pages_give_page:
  "unat i < unat (pf_page_count pf) \<Longrightarrow> free_pages (give_page pf i) = insert (unat i) (free_pages pf)"
  by (auto simp: free_pages_def)

lemma card_free_pages_le: "card (free_pages pf) \<le> unat (pf_page_count pf)"
  using card_mono [of "{..< unat (pf_page_count pf)}" "free_pages pf"]
  by (auto simp: free_pages_def)

lemma pf_inv_give_page:
  assumes inv: "pf_inv pf" and i: "unat i < unat (pf_page_count pf)" "unat i \<notin> free_pages pf"
  shows "pf_inv (give_page pf i)"
proof -
  have "unat (pf_free_page_count pf) < 2 ^ 52"
    using inv card_free_pages_le [of pf] by (simp add: pf_inv_def)
  then have "unat (pf_free_page_count pf + 1) = card (free_pages pf) + 1"
    using inv by (subst unat_add_u64) (auto simp: pf_inv_def)
  then have "unat (pf_free_page_count (give_page pf i)) = card (free_pages (give_page pf i))"
    using i by (simp add: free_pages_give_page) (simp add: give_page_def)
  then show ?thesis using inv i by (auto simp: pf_inv_def)
qed

lemma pf_free_eq:
  assumes "pf_inv pf"
  shows "pf_free pf a =
    (if a AND 0xFFF = 0 \<and> drop_bit 12 a < pf_page_count pf \<and>
        unat (drop_bit 12 a) \<notin> free_pages pf
     then (True, give_page pf (drop_bit 12 a)) else (False, pf))"
proof -
  have "pf_bitmap pf (unat (drop_bit 12 a div 64)) AND push_bit (unat (drop_bit 12 a mod 64)) 1 = 0
      \<longleftrightarrow> \<not> is_free pf (drop_bit 12 a)"
    by (simp add: is_free_def)
  then show ?thesis
    using assms
    by (simp add: pf_free_def pf_inv_def Let_def is_free_iff give_page_def set_free_def
          free_pages_def word_less_nat_alt del: push_bit_of_1)
qed

lemma take_page_if_free:
  assumes "pf_inv pf" and "is_free pf i" and "i < pf_page_count pf"
  shows "unat i \<in> free_pages pf"
    and "(if 0 < pf_free_page_count (set_busy pf i)
          then (set_busy pf i)\<lparr>pf_free_page_count := pf_free_page_count (set_busy pf i) - 1\<rparr>
          else set_busy pf i) = take_page pf i"
proof -
  show mem: "unat i \<in> free_pages pf"
    using assms by (simp add: free_pages_def is_free_iff word_less_nat_alt)
  show "(if 0 < pf_free_page_count (set_busy pf i)
          then (set_busy pf i)\<lparr>pf_free_page_count := pf_free_page_count (set_busy pf i) - 1\<rparr>
          else set_busy pf i) = take_page pf i"
    using pf_inv_count_pos [OF assms(1) mem] by (simp add: take_page_def)
qed

lemma not_free_page: "i < pf_page_count pf \<Longrightarrow> \<not> is_free pf i \<Longrightarrow> unat i \<notin> free_pages pf"
  by (simp add: free_pages_def is_free_iff)

lemma reserve_pages_spec:
  assumes "pf_inv pf"
  shows "fst (reserve_pages js pf) \<longleftrightarrow> (\<forall>j \<in> set js. j < pf_page_count pf)"
    and "pf_inv (snd (reserve_pages js pf))"
    and "free_pages (snd (reserve_pages js pf)) =
           free_pages pf - unat ` set (takeWhile (\<lambda>j. j < pf_page_count pf) js)"
    and "pf_page_count (snd (reserve_pages js pf)) = pf_page_count pf"
    and "pf_memory_end (snd (reserve_pages js pf)) = pf_memory_end pf"
proof (atomize (full), use assms in \<open>induction js arbitrary: pf\<close>)
  case (Cons j js)
  consider "\<not> j < pf_page_count pf" | "j < pf_page_count pf" "is_free pf j"
    | "j < pf_page_count pf" "\<not> is_free pf j" by blast
  then show ?case
  proof cases
    case 1
    with Cons.prems show ?thesis by auto
  next
    case 2
    from take_page_if_free [OF Cons.prems 2(2,1)] have mem: "unat j \<in> free_pages pf"
      and eq: "reserve_pages (j # js) pf = reserve_pages js (take_page pf j)"
      using 2 by (auto simp: Let_def)
    have "pf_inv (take_page pf j)" using Cons.prems mem by (rule pf_inv_take_page)
    from Cons.IH [OF this] show ?thesis unfolding eq using 2 by auto
  next
    case 3
    then have eq: "reserve_pages (j # js) pf = reserve_pages js pf" by auto
    from Cons.IH [OF Cons.prems] not_free_page [OF 3] 3 show ?thesis unfolding eq by auto
  qed
qed simp

lemma mark_busy_counted_spec:
  assumes "pf_inv pf"
  shows "pf_inv (mark_busy_counted i pf)"
    and "free_pages (mark_busy_counted i pf) = free_pages pf - {unat i}"
    and "pf_page_count (mark_busy_counted i pf) = pf_page_count pf"
proof (atomize (full), cases "i < pf_page_count pf \<and> is_free pf i")
  case True
  then have i: "i < pf_page_count pf" and f: "is_free pf i" by auto
  from take_page_if_free [OF assms f i] have mem: "unat i \<in> free_pages pf"
    and eq: "mark_busy_counted i pf = take_page pf i"
    using True by (simp_all add: mark_busy_counted_def Let_def)
  show "pf_inv (mark_busy_counted i pf) \<and>
      free_pages (mark_busy_counted i pf) = free_pages pf - {unat i} \<and>
      pf_page_count (mark_busy_counted i pf) = pf_page_count pf"
    unfolding eq using pf_inv_take_page [OF assms mem] by simp
next
  case False
  then have "unat i \<notin> free_pages pf"
    by (auto simp: free_pages_def is_free_iff word_less_nat_alt)
  moreover have "mark_busy_counted i pf = pf" using False by (auto simp: mark_busy_counted_def)
  ultimately show "pf_inv (mark_busy_counted i pf) \<and>
      free_pages (mark_busy_counted i pf) = free_pages pf - {unat i} \<and>
      pf_page_count (mark_busy_counted i pf) = pf_page_count pf"
    using assms by simp
qed

lemma fold_mark_busy_at_spec:
  "pf_inv pf \<Longrightarrow>
     pf_inv (fold mark_busy_at vps pf) \<and>
     free_pages (fold mark_busy_at vps pf) =
       free_pages pf - (\<lambda>vp. unat (drop_bit 12 vp)) ` set vps \<and>
     pf_page_count (fold mark_busy_at vps pf) = pf_page_count pf"
proof (induction vps arbitrary: pf)
  case (Cons vp vps)
  note step = mark_busy_counted_spec [OF Cons.prems, of "drop_bit 12 vp"]
  from Cons.IH [OF step(1)] step(2,3) show ?case by (auto simp: mark_busy_at_def)
qed simp

end
