(* ===== verification/Page_Frame_Init.thy ===== *)
theory Page_Frame_Init
  imports Page_Frame
begin

text \<open>
  The boot-time correctness of \<^verbatim>\<open>PageFrameContainer::initialize\<close>: what each of its passes does to
  the set of free pages (painting the usable regions into the bitmap, counting the bits, clearing
  the reserved windows), and the theorem that puts the passes together.
\<close>

section \<open>Painting a region\<close>

lemma bit_single_word_mask:
  assumes "first + n \<le> 64"
  shows "bit (if n = 64 then 0xFFFFFFFFFFFFFFFF
              else push_bit first (push_bit n 1 - 1) :: u64) j \<longleftrightarrow> first \<le> j \<and> j < first + n"
proof (cases "n = 64")
  case True
  then show ?thesis using assms unfolding all_ones_u64 by (simp add: bit_mask_iff)
next
  case False
  have "push_bit n 1 - 1 = (mask n :: u64)" by (simp add: mask_eq_exp_minus_1)
  with False assms show ?thesis
    by (auto simp: bit_push_bit_iff bit_mask_iff simp del: push_bit_of_1)
qed

lemma bit_high_mask: "f < 64 \<Longrightarrow> bit (push_bit f (0xFFFFFFFFFFFFFFFF :: u64)) j \<longleftrightarrow> f \<le> j \<and> j < 64"
  unfolding all_ones_u64 by (auto simp: bit_push_bit_iff bit_mask_iff)

lemma bit_low_mask:
  assumes "l < 64"
  shows "bit (if l = 0 then 0xFFFFFFFFFFFFFFFF else drop_bit (64 - l) 0xFFFFFFFFFFFFFFFF :: u64) j
    \<longleftrightarrow> j < (if l = 0 then 64 else l)"
  using assms unfolding all_ones_u64 by (auto simp: bit_drop_bit_eq bit_mask_iff)

lemma le_by_words:
  "(a::nat) \<le> b \<longleftrightarrow> a div 64 < b div 64 \<or> a div 64 = b div 64 \<and> a mod 64 \<le> b mod 64"
proof -
  have "a = 64 * (a div 64) + a mod 64" "b = 64 * (b div 64) + b mod 64"
    "a mod 64 < 64" "b mod 64 < 64" by simp_all
  then show ?thesis by linarith
qed

lemma page_range_one_word:
  assumes "(s::nat) div 64 = (e - 1) div 64" and "s < e"
  shows "(s \<le> i \<and> i < e) \<longleftrightarrow> i div 64 = s div 64 \<and> s mod 64 \<le> i mod 64 \<and> i mod 64 \<le> (e - 1) mod 64"
proof -
  have "i < e \<longleftrightarrow> i \<le> e - 1" using assms(2) by linarith
  then show ?thesis using assms(1) le_by_words [of s i] le_by_words [of i "e - 1"] by auto
qed

lemma page_range_words:
  assumes "(s::nat) div 64 < (e - 1) div 64"
  shows "(s \<le> i \<and> i < e) \<longleftrightarrow> i div 64 = s div 64 \<and> s mod 64 \<le> i mod 64 \<or>
       s div 64 < i div 64 \<and> i div 64 < (e - 1) div 64 \<or>
       i div 64 = (e - 1) div 64 \<and> i mod 64 \<le> (e - 1) mod 64"
proof -
  have eq: "i < e \<longleftrightarrow> i \<le> e - 1" using assms by (cases e) auto
  have lex: "((a < x \<or> a = x \<and> b \<le> y) \<and> (x < c \<or> x = c \<and> y \<le> d)) =
      (x = a \<and> b \<le> y \<or> a < x \<and> x < c \<or> x = c \<and> y \<le> d)" if "a < c" for a b c d x y :: nat
    using that by auto
  show ?thesis
    unfolding eq le_by_words [of s i] le_by_words [of i "e - 1"] by (rule lex [OF assms])
qed

definition bitmap_bit :: "(nat \<Rightarrow> u64) \<Rightarrow> nat \<Rightarrow> bool" where
  "bitmap_bit bm i \<longleftrightarrow> bit (bm (i div 64)) (i mod 64)"

lemma bitmap_bit_upd_or:
  "bitmap_bit (bm(q := bm q OR m)) i \<longleftrightarrow> bitmap_bit bm i \<or> i div 64 = q \<and> bit m (i mod 64)"
  by (auto simp: bitmap_bit_def bit_or_iff)

lemma bitmap_bit_paint_one_word:
  assumes lt: "unat sp < unat ep" and same: "unat sp div 64 = (unat ep - 1) div 64"
  shows "bitmap_bit (paint_one_word bm sp ep) i \<longleftrightarrow> bitmap_bit bm i \<or> unat sp \<le> i \<and> i < unat ep"
proof -
  define n where "n = (unat ep - 1) mod 64 - unat sp mod 64 + 1"
  have ue1: "unat (ep - 1) = unat ep - 1" using lt by (subst unat_sub_le) auto
  have "unat sp \<le> unat ep - 1" using lt by simp
  then have ord: "unat sp mod 64 \<le> (unat ep - 1) mod 64"
    using le_by_words [of "unat sp" "unat ep - 1"] same by simp
  then have d: "unat ((ep - 1) mod 64 - sp mod 64) = (unat ep - 1) mod 64 - unat sp mod 64"
    by (subst unat_sub_le) (simp_all add: ue1)
  have "(unat ep - 1) mod 64 < 64" by simp
  then have n64: "unat sp mod 64 + n \<le> 64" using ord unfolding n_def by linarith
  have un: "unat ((ep - 1) mod 64 - sp mod 64 + 1) = n"
    unfolding n_def d [symmetric] using n64 by (subst unat_add_u64) (auto simp: d n_def)
  then have n_iff: "(ep - 1) mod 64 - sp mod 64 + 1 = 64 \<longleftrightarrow> n = 64"
    by (simp add: word_unat_eq_iff)
  have "bitmap_bit (paint_one_word bm sp ep) i \<longleftrightarrow> bitmap_bit bm i \<or>
      i div 64 = unat sp div 64 \<and> unat sp mod 64 \<le> i mod 64 \<and> i mod 64 < unat sp mod 64 + n"
    unfolding paint_one_word_def Let_def un n_iff bitmap_bit_upd_or unat_div_64 unat_mod_64
    by (simp only: bit_single_word_mask [OF n64])
  moreover have "i mod 64 < unat sp mod 64 + n \<longleftrightarrow> i mod 64 \<le> (unat ep - 1) mod 64"
    using ord unfolding n_def by linarith
  ultimately show ?thesis using page_range_one_word [OF same lt, of i] by blast
qed

lemma bitmap_bit_memsetq:
  "bitmap_bit (memsetq bm q 0xFFFFFFFFFFFFFFFF num) i \<longleftrightarrow>
     bitmap_bit bm i \<or> q \<le> i div 64 \<and> i div 64 < q + unat num div 8"
  unfolding all_ones_u64 by (auto simp: bitmap_bit_def memsetq_def bit_mask_iff)

lemma last_word_mask:
  assumes "0 < (e::nat)"
  shows "j < 64 \<Longrightarrow> j < (if e mod 64 = 0 then 64 else e mod 64) \<longleftrightarrow> j \<le> (e - 1) mod 64"
proof -
  obtain d where d: "e = Suc d" using assms by (cases e) auto
  show "j < 64 \<Longrightarrow> j < (if e mod 64 = 0 then 64 else e mod 64) \<longleftrightarrow> j \<le> (e - 1) mod 64"
    by (auto simp: d mod_Suc)
qed

lemma bitmap_bit_paint_many_words:
  assumes lt: "unat sp < unat ep" and diff: "unat sp div 64 < (unat ep - 1) div 64"
  shows "bitmap_bit (paint_many_words bm sp ep) i \<longleftrightarrow> bitmap_bit bm i \<or> unat sp \<le> i \<and> i < unat ep"
proof -
  let ?q = "unat sp div 64" and ?l = "(unat ep - 1) div 64"
  have ue1: "unat (ep - 1) = unat ep - 1" using lt by (subst unat_sub_le) auto
  have ql: "?l < 2 ^ 58" by (rule less_mult_imp_div_less) (simp add: less_imp_diff_less)
  have dd: "unat ((ep - 1) div 64 - sp div 64) = ?l - ?q"
    using diff by (subst unat_sub_le) (simp_all add: ue1)
  then have d1: "unat ((ep - 1) div 64 - sp div 64 - 1) = ?l - ?q - 1"
    using diff by (subst unat_sub_le) (simp, linarith, simp)
  have num: "unat (8 * ((ep - 1) div 64 - sp div 64 - 1)) = 8 * (?l - ?q - 1)"
    using ql by (subst unat_mult_lem [THEN iffD1]) (simp_all add: d1)
  have q1: "unat (sp div 64 + 1) = ?q + 1"
    using diff ql by (subst unat_add_u64) simp_all
  then have guard: "sp div 64 + 1 < (ep - 1) div 64 \<longleftrightarrow> ?q + 1 < ?l"
    by (simp add: word_less_nat_alt ue1)
  have lb: "unat (64 - ep mod 64) = 64 - unat ep mod 64"
    by (subst unat_sub_le) simp_all
  have lb0: "ep mod 64 = 0 \<longleftrightarrow> unat ep mod 64 = 0"
    by (simp add: word_unat_eq_iff)
  define bm1 where "bm1 = bm(?q := bm ?q OR push_bit (unat sp mod 64) 0xFFFFFFFFFFFFFFFF)"
  define bm2 where "bm2 = (if ?q + 1 < ?l then memsetq bm1 (?q + 1) 0xFFFFFFFFFFFFFFFF
      (8 * ((ep - 1) div 64 - sp div 64 - 1)) else bm1)"
  have b1: "bitmap_bit bm1 i \<longleftrightarrow> bitmap_bit bm i \<or> i div 64 = ?q \<and> unat sp mod 64 \<le> i mod 64"
    unfolding bm1_def bitmap_bit_upd_or by (subst bit_high_mask) auto
  have b2: "bitmap_bit bm2 i \<longleftrightarrow> bitmap_bit bm1 i \<or> ?q < i div 64 \<and> i div 64 < ?l"
  proof (cases "?q + 1 < ?l")
    case True
    then have "bitmap_bit bm2 i \<longleftrightarrow> bitmap_bit bm1 i \<or>
        ?q + 1 \<le> i div 64 \<and> i div 64 < ?q + 1 + 8 * (?l - ?q - 1) div 8"
      unfolding bm2_def by (simp only: if_True bitmap_bit_memsetq num)
    with True show ?thesis by auto
  qed (auto simp: bm2_def)
  have "paint_many_words bm sp ep = bm2(?l := bm2 ?l OR
      (if unat ep mod 64 = 0 then 0xFFFFFFFFFFFFFFFF
       else drop_bit (64 - unat ep mod 64) 0xFFFFFFFFFFFFFFFF))"
    unfolding paint_many_words_def Let_def guard lb lb0 unat_div_64 unat_mod_64 ue1
      bm2_def bm1_def by (rule refl)
  then have "bitmap_bit (paint_many_words bm sp ep) i \<longleftrightarrow>
      bitmap_bit bm2 i \<or> i div 64 = ?l \<and> i mod 64 \<le> (unat ep - 1) mod 64"
    using lt last_word_mask [of "unat ep" "i mod 64"]
    by (simp only: bitmap_bit_upd_or bit_low_mask mod_less_divisor)
  then show ?thesis using page_range_words [OF diff, of i] b1 b2 by blast
qed

lemma bitmap_bit_paint_pages:
  "bitmap_bit (paint_pages bm sp ep) i \<longleftrightarrow> bitmap_bit bm i \<or> unat sp \<le> i \<and> i < unat ep"
proof (cases "ep \<le> sp")
  case True
  then show ?thesis by (auto simp: paint_pages_def word_le_nat_alt)
next
  case False
  then have lt: "unat sp < unat ep" by (simp add: word_le_nat_alt)
  have ue1: "unat (ep - 1) = unat ep - 1" using lt by (subst unat_sub_le) auto
  have same: "sp div 64 = (ep - 1) div 64 \<longleftrightarrow> unat sp div 64 = (unat ep - 1) div 64"
    by (simp add: word_unat_eq_iff ue1)
  have "unat sp div 64 \<le> (unat ep - 1) div 64" using lt by (intro div_le_mono) simp
  then show ?thesis
    using False lt bitmap_bit_paint_one_word [OF lt, of bm i] bitmap_bit_paint_many_words [OF lt, of bm i]
    unfolding paint_pages_def same by auto
qed

section \<open>Counting the free pages\<close>

lemma card_bits_Suc:
  "card {j. j < Suc n \<and> bit w j} = of_bool (bit w 0) + card {j. j < n \<and> bit (drop_bit 1 w) j}"
  for w :: u64
proof -
  have "{j. j < Suc n \<and> bit w j} =
      (if bit w 0 then {0} else {}) \<union> Suc ` {j. j < n \<and> bit (drop_bit 1 w) j}"
    by (auto simp: bit_drop_bit_eq image_iff less_Suc_eq_0_disj)
  then show ?thesis by (auto simp: card_image card_insert_if)
qed

lemma count_bits_spec:
  assumes "unat ip + n < 2 ^ 64" and "unat ip \<le> R"
    and "\<And>j. j < n \<Longrightarrow> bit val j \<Longrightarrow> R + j < unat N"
  shows "fst (count_bits n N val num ip) = num + of_nat (card {j. j < n \<and> bit val j}) \<and>
         unat (snd (count_bits n N val num ip)) \<le> unat ip + n"
  using assms
proof (induction n arbitrary: val num ip R)
  case (Suc n)
  show ?case
  proof (cases "ip < N")
    case False
    then have "{j. j < Suc n \<and> bit val j} = {}"
      using Suc.prems(2,3) by (fastforce simp: word_less_nat_alt)
    with False show ?thesis by (simp only: count_bits.simps) simp
  next
    case True
    have u: "unat (ip + 1) = unat ip + 1" using Suc.prems(1) by (subst unat_add_u64) auto
    have b: "val AND 1 \<noteq> 0 \<longleftrightarrow> bit val 0"
      using and_push_bit_one_iff [of val 0] by simp
    note IH = Suc.IH [of "ip + 1" "Suc R" "drop_bit 1 val"
        "if val AND 1 \<noteq> 0 then num + 1 else num"]
    have "fst (count_bits n N (drop_bit 1 val) (if val AND 1 \<noteq> 0 then num + 1 else num) (ip + 1)) =
        (if val AND 1 \<noteq> 0 then num + 1 else num) +
        of_nat (card {j. j < n \<and> bit (drop_bit 1 val) j}) \<and>
      unat (snd (count_bits n N (drop_bit 1 val) (if val AND 1 \<noteq> 0 then num + 1 else num) (ip + 1)))
        \<le> unat (ip + 1) + n"
      using Suc.prems(1,2) Suc.prems(3) [of "Suc j" for j] u
      by (intro IH) (auto simp: bit_drop_bit_eq)
    then show ?thesis
      using True b u unfolding card_bits_Suc by (auto simp: of_bool_def)
  qed
qed simp

lemma card_word_split:
  "card {i. i < 64 * Suc m \<and> bitmap_bit bm i} =
     card {i. i < 64 * m \<and> bitmap_bit bm i} + card {j. j < 64 \<and> bit (bm m) j}"
proof -
  have "{i. i < 64 * Suc m \<and> bitmap_bit bm i} =
      {i. i < 64 * m \<and> bitmap_bit bm i} \<union> (\<lambda>j. 64 * m + j) ` {j. j < 64 \<and> bit (bm m) j}"
  proof (intro set_eqI iffI)
    fix i
    assume i: "i \<in> {i. i < 64 * Suc m \<and> bitmap_bit bm i}"
    show "i \<in> {i. i < 64 * m \<and> bitmap_bit bm i} \<union> (\<lambda>j. 64 * m + j) ` {j. j < 64 \<and> bit (bm m) j}"
    proof (cases "i < 64 * m")
      case False
      with i have "i = 64 * m + (i - 64 * m)" "i - 64 * m < 64" by auto
      then obtain j where "i = 64 * m + j" "j < 64" by blast
      with i show ?thesis by (auto simp: bitmap_bit_def)
    qed (use i in auto)
  qed (auto simp: bitmap_bit_def)
  moreover have "card ({i. i < 64 * m \<and> bitmap_bit bm i} \<union> (\<lambda>j. 64 * m + j) ` {j. j < 64 \<and> bit (bm m) j}) =
      card {i. i < 64 * m \<and> bitmap_bit bm i} + card {j. j < 64 \<and> bit (bm m) j}"
    by (subst card_Un_disjoint) (auto simp: card_image inj_on_def)
  ultimately show ?thesis by (simp only:)
qed

lemma fold_count_word:
  assumes "64 * m < 2 ^ 60"
    and "\<And>i. i < 64 * m \<Longrightarrow> bitmap_bit (pf_bitmap pf) i \<Longrightarrow> i < unat (pf_page_count pf)"
  shows "fst (fold (count_word pf) [0 ..< m] (0, 0)) =
           of_nat (card {i. i < 64 * m \<and> bitmap_bit (pf_bitmap pf) i}) \<and>
         unat (snd (fold (count_word pf) [0 ..< m] (0, 0))) \<le> 64 * m"
  using assms
proof (induction m)
  case (Suc m)
  define acc where "acc = fold (count_word pf) [0 ..< m] (0, 0)"
  have IH: "fst acc = of_nat (card {i. i < 64 * m \<and> bitmap_bit (pf_bitmap pf) i})"
    "unat (snd acc) \<le> 64 * m"
    using Suc unfolding acc_def by auto
  have unfold_acc: "fold (count_word pf) [0 ..< Suc m] (0, 0) = count_word pf m acc"
    by (simp add: acc_def)
  show ?case
  proof (cases "pf_bitmap pf m = 0")
    case True
    then show ?thesis
      using IH unfolding unfold_acc card_word_split by (simp add: count_word_def)
  next
    case False
    have "fst (count_bits 64 (pf_page_count pf) (pf_bitmap pf m) (fst acc) (snd acc)) =
        fst acc + of_nat (card {j. j < 64 \<and> bit (pf_bitmap pf m) j}) \<and>
      unat (snd (count_bits 64 (pf_page_count pf) (pf_bitmap pf m) (fst acc) (snd acc)))
        \<le> unat (snd acc) + 64"
    proof (rule count_bits_spec [where R = "64 * m"])
      show "64 * m + j < unat (pf_page_count pf)" if "j < 64" "bit (pf_bitmap pf m) j" for j
        using Suc.prems(2) [of "64 * m + j"] that by (simp add: bitmap_bit_def)
    qed (use IH Suc.prems(1) in auto)
    then show ?thesis
      using False IH unfolding unfold_acc card_word_split by (simp add: count_word_def)
  qed
qed simp

section \<open>The memory-map pass\<close>

text \<open>Page \<open>i\<close> lies wholly inside the usable region \<open>b\<close>.\<close>

definition usable_page :: "BootMemoryRegion \<Rightarrow> nat \<Rightarrow> bool" where
  "usable_page b i \<longleftrightarrow> boot_memory_region_is_usable b \<and>
     unat (rg_physical_start b) \<le> 4096 * i \<and>
     4096 * Suc i \<le> unat (rg_physical_start b) + unat (rg_length b)"

definition region_no_wrap :: "BootMemoryRegion \<Rightarrow> bool" where
  "region_no_wrap b \<longleftrightarrow> unat (rg_physical_start b) + unat (rg_length b) + 4096 \<le> 2 ^ 64"

lemma align_up_page_eq: "align_up_page v = align_up v (2 ^ 12)"
  by (simp add: align_up_page_def align_up_def kPageSize_def)

lemma align_down_page_eq: "align_down_page v = align_down v (2 ^ 12)"
  by (simp add: align_down_page_def align_down_def kPageSize_def)

lemma unat_align_down_page: "unat (align_down_page v) = unat v div 4096 * 4096"
  using unat_align_down [of v 12] by (simp add: align_down_page_eq)

lemma unat_align_up_page:
  "unat v + 4095 < 2 ^ 64 \<Longrightarrow> unat (align_up_page v) = (unat v + 4095) div 4096 * 4096"
  using unat_align_up [of v 12] by (simp add: align_up_page_eq)

lemma page_ge_align_up: "(v + 4095) div 4096 * 4096 \<le> 4096 * (i::nat) \<longleftrightarrow> v \<le> 4096 * i"
proof -
  have "(v + 4095) div 4096 * 4096 \<le> 4096 * i \<longleftrightarrow> (v + 4095) div 4096 < Suc i"
    by (simp add: less_Suc_eq_le mult.commute)
  also have "\<dots> \<longleftrightarrow> v + 4095 < Suc i * 4096" by (rule div_less_iff_less_mult) simp
  also have "\<dots> \<longleftrightarrow> v \<le> 4096 * i" by auto
  finally show ?thesis .
qed

lemma page_le_align_down: "4096 * Suc i \<le> v div 4096 * (4096::nat) \<longleftrightarrow> 4096 * Suc i \<le> v"
proof -
  have "4096 * Suc i \<le> v div 4096 * 4096 \<longleftrightarrow> Suc i \<le> v div 4096"
    by (simp add: mult.commute del: mult_Suc_right mult_Suc)
  also have "\<dots> \<longleftrightarrow> Suc i * 4096 \<le> v" by (rule less_eq_div_iff_mult_less_eq) simp
  finally show ?thesis by (simp add: mult.commute)
qed

text \<open>Bounds of the clipped region, as the two passes compute them.\<close>

lemma region_bounds:
  assumes "region_no_wrap b"
  shows "unat (align_up_page (rg_physical_start b)) \<le> 4096 * i \<longleftrightarrow> unat (rg_physical_start b) \<le> 4096 * i"
    and "4096 * Suc i \<le> unat (align_down_page (rg_physical_start b + rg_length b)) \<longleftrightarrow>
           4096 * Suc i \<le> unat (rg_physical_start b) + unat (rg_length b)"
proof -
  have "unat (align_up_page (rg_physical_start b)) = (unat (rg_physical_start b) + 4095) div 4096 * 4096"
    using assms by (intro unat_align_up_page) (simp add: region_no_wrap_def)
  then show "unat (align_up_page (rg_physical_start b)) \<le> 4096 * i \<longleftrightarrow> unat (rg_physical_start b) \<le> 4096 * i"
    by (simp only: page_ge_align_up)
  have "unat (rg_physical_start b + rg_length b) = unat (rg_physical_start b) + unat (rg_length b)"
    using assms by (intro unat_add_u64) (simp add: region_no_wrap_def)
  then show "4096 * Suc i \<le> unat (align_down_page (rg_physical_start b + rg_length b)) \<longleftrightarrow>
      4096 * Suc i \<le> unat (rg_physical_start b) + unat (rg_length b)"
    by (simp only: unat_align_down_page page_le_align_down)
qed

text \<open>
  After the pass the size is positive exactly when some page is usable, and the end bounds every
  usable page below the trackable limit.
\<close>

definition scan_ok :: "u64 \<Rightarrow> BootMemoryRegion list \<Rightarrow> u64 \<times> u64 \<Rightarrow> bool" where
  "scan_ok max_end bs acc \<longleftrightarrow>
     unat (fst acc) \<le> length bs * unat max_end \<and>
     snd acc \<le> max_end \<and>
     (0 < fst acc \<longleftrightarrow> 0 < snd acc) \<and>
     (0 < snd acc \<longleftrightarrow> (\<exists>b \<in> set bs. \<exists>i. usable_page b i \<and> 4096 * Suc i \<le> unat max_end)) \<and>
     (\<forall>b \<in> set bs. \<forall>i. usable_page b i \<longrightarrow> 4096 * Suc i \<le> unat max_end \<longrightarrow>
        4096 * Suc i \<le> unat (snd acc))"

text \<open>The clipped bounds of region \<open>b\<close>, and the pages between them.\<close>

definition clip_start :: "BootMemoryRegion \<Rightarrow> u64" where
  "clip_start b = align_up_page (rg_physical_start b)"

definition clip_end :: "u64 \<Rightarrow> BootMemoryRegion \<Rightarrow> u64" where
  "clip_end max_end b =
     (if align_down_page (rg_physical_start b + rg_length b) > max_end then max_end
      else align_down_page (rg_physical_start b + rg_length b))"

lemma clip_pages:
  assumes "region_no_wrap b" and "boot_memory_region_is_usable b"
  shows "usable_page b i \<and> 4096 * Suc i \<le> unat max_end \<longleftrightarrow>
     unat (clip_start b) \<le> 4096 * i \<and> 4096 * Suc i \<le> unat (clip_end max_end b)"
  using region_bounds [OF assms(1), of i] assms(2)
  by (auto simp: usable_page_def clip_start_def clip_end_def word_less_nat_alt)

lemma clip_aligned:
  assumes "region_no_wrap b" and "unat max_end mod 4096 = 0"
  shows "unat (clip_start b) mod 4096 = 0" and "unat (clip_end max_end b) mod 4096 = 0"
proof -
  have "unat (clip_start b) = (unat (rg_physical_start b) + 4095) div 4096 * 4096"
    unfolding clip_start_def using assms(1)
    by (intro unat_align_up_page) (simp add: region_no_wrap_def)
  then show "unat (clip_start b) mod 4096 = 0" by simp
  show "unat (clip_end max_end b) mod 4096 = 0"
    using assms(2) by (simp add: clip_end_def unat_align_down_page)
qed

lemma clip_nonempty:
  assumes "region_no_wrap b" and "boot_memory_region_is_usable b" and "unat max_end mod 4096 = 0"
  shows "clip_start b < clip_end max_end b \<longleftrightarrow>
     (\<exists>i. usable_page b i \<and> 4096 * Suc i \<le> unat max_end)"
proof
  assume "clip_start b < clip_end max_end b"
  then have lt: "unat (clip_start b) < unat (clip_end max_end b)" by (simp add: word_less_nat_alt)
  obtain s where s: "unat (clip_start b) = 4096 * s"
    using clip_aligned(1) [OF assms(1,3)] by (auto simp: mod_eq_0_iff_dvd)
  obtain e where e: "unat (clip_end max_end b) = 4096 * e"
    using clip_aligned(2) [OF assms(1,3)] by (auto simp: mod_eq_0_iff_dvd)
  have "usable_page b s \<and> 4096 * Suc s \<le> unat max_end"
    unfolding clip_pages [OF assms(1,2)] using lt by (simp add: s e)
  then show "\<exists>i. usable_page b i \<and> 4096 * Suc i \<le> unat max_end" ..
next
  assume "\<exists>i. usable_page b i \<and> 4096 * Suc i \<le> unat max_end"
  then show "clip_start b < clip_end max_end b"
    unfolding clip_pages [OF assms(1,2)] by (auto simp: word_less_nat_alt)
qed

lemma scan_region_eq:
  "scan_region max_end b acc =
     (if boot_memory_region_is_usable b \<and> clip_start b < clip_end max_end b
      then (fst acc + (clip_end max_end b - clip_start b),
            if snd acc < clip_end max_end b then clip_end max_end b else snd acc)
      else acc)"
  by (cases acc) (auto simp: scan_region_def clip_start_def clip_end_def Let_def not_less)

lemma clip_end_le: "clip_end max_end b \<le> max_end"
  by (auto simp: clip_end_def not_less)

lemma scan_region_ok:
  assumes ok: "scan_ok max_end bs acc" and al: "unat max_end mod 4096 = 0"
    and nw: "region_no_wrap b" and sz: "Suc (length bs) * unat max_end < 2 ^ 64"
  shows "scan_ok max_end (bs @ [b]) (scan_region max_end b acc)"
proof (cases "boot_memory_region_is_usable b \<and> clip_start b < clip_end max_end b")
  case False
  then have "\<not> (usable_page b i \<and> 4096 * Suc i \<le> unat max_end)" for i
    using clip_nonempty [OF nw _ al] by (auto simp: usable_page_def)
  with False ok show ?thesis by (auto simp: scan_region_eq scan_ok_def)
next
  case True
  let ?ce = "clip_end max_end b" and ?cs = "clip_start b"
  have lt: "unat ?cs < unat ?ce" using True by (simp add: word_less_nat_alt)
  have ce: "unat ?ce \<le> unat max_end" using clip_end_le [of max_end b] by (simp add: word_le_nat_alt)
  have d: "unat (?ce - ?cs) = unat ?ce - unat ?cs" using lt by (simp add: unat_sub_le)
  have "unat (fst acc) \<le> length bs * unat max_end" using ok by (simp add: scan_ok_def)
  then have sum: "unat (fst acc) + unat (?ce - ?cs) \<le> Suc (length bs) * unat max_end"
    using ce unfolding d mult_Suc by linarith
  then have size: "unat (fst acc + (?ce - ?cs)) = unat (fst acc) + unat (?ce - ?cs)"
    using sz by (intro unat_add_u64) simp
  have fst_pos: "0 < fst acc + (?ce - ?cs)"
    unfolding word_less_nat_alt size d using lt by simp
  have ce_pos: "0 < ?ce" using lt by (simp add: word_less_nat_alt)
  have page: "\<exists>i. usable_page b i \<and> 4096 * Suc i \<le> unat max_end"
    using True clip_nonempty [OF nw _ al] by blast
  have le: "4096 * Suc i \<le> unat ?ce" if "usable_page b i" "4096 * Suc i \<le> unat max_end" for i
    using clip_pages [OF nw, of i max_end] that True by simp
  define m where "m = (if snd acc < ?ce then ?ce else snd acc)"
  have m: "unat (snd acc) \<le> unat m" "unat ?ce \<le> unat m" "m \<le> max_end" "0 < m"
    using ok clip_end_le [of max_end b] ce_pos
    by (auto simp: m_def scan_ok_def word_le_nat_alt word_less_nat_alt)
  have old: "4096 * Suc i \<le> unat (snd acc)"
    if "c \<in> set bs" "usable_page c i" "4096 * Suc i \<le> unat max_end" for c i
    using ok that unfolding scan_ok_def by blast
  have all: "4096 * Suc i \<le> unat m"
    if "c \<in> set (bs @ [b])" "usable_page c i" "4096 * Suc i \<le> unat max_end" for c i
    using that le [of i] old [of c i] m(1,2) by (cases "c = b") auto
  have "scan_ok max_end (bs @ [b]) (fst acc + (?ce - ?cs), m)"
    unfolding scan_ok_def fst_conv snd_conv
  proof (intro conjI)
    show "0 < m \<longleftrightarrow> (\<exists>b \<in> set (bs @ [b]). \<exists>i. usable_page b i \<and> 4096 * Suc i \<le> unat max_end)"
      using m(4) page by auto
    show "\<forall>c \<in> set (bs @ [b]). \<forall>i. usable_page c i \<longrightarrow> 4096 * Suc i \<le> unat max_end \<longrightarrow>
        4096 * Suc i \<le> unat m" using all by blast
  qed (use sum fst_pos m(3,4) in \<open>simp_all add: size\<close>)
  moreover have "scan_region max_end b acc = (fst acc + (?ce - ?cs), m)"
    using True by (simp add: scan_region_eq m_def)
  ultimately show ?thesis by simp
qed

lemma fold_scan_region_ok:
  assumes al: "unat max_end mod 4096 = 0"
  shows "\<forall>b \<in> set bs. region_no_wrap b \<Longrightarrow> length bs * unat max_end < 2 ^ 64 \<Longrightarrow>
    scan_ok max_end bs (fold (scan_region max_end) bs (0, 0))"
proof (induction bs rule: rev_induct)
  case Nil
  then show ?case by (simp add: scan_ok_def)
next
  case (snoc b bs)
  then have "scan_ok max_end bs (fold (scan_region max_end) bs (0, 0))"
    by (simp add: add_lessD1)
  from scan_region_ok [OF this al, of b] snoc.prems show ?case by simp
qed

section \<open>The allocator after initialisation\<close>

lemma free_bit_paint_region:
  assumes "region_no_wrap b"
  shows "free_bit (paint_region b pf) i \<longleftrightarrow>
    free_bit pf i \<or> usable_page b i \<and> 4096 * Suc i \<le> unat (pf_memory_end pf)"
proof (cases "boot_memory_region_is_usable b")
  case True
  have "free_bit (paint_region b pf) i \<longleftrightarrow> free_bit pf i \<or>
      unat (drop_bit 12 (clip_start b)) \<le> i \<and> i < unat (drop_bit 12 (clip_end (pf_memory_end pf) b))"
    using True bitmap_bit_paint_pages [of "pf_bitmap pf" _ _ i]
    by (simp add: paint_region_def free_bit_def bitmap_bit_def clip_start_def clip_end_def Let_def)
  also have "unat (drop_bit 12 (clip_start b)) \<le> i \<longleftrightarrow> unat (clip_start b) \<le> 4096 * i"
    using clip_aligned(1) [OF assms, of 0] by (auto simp: page_of_addr mod_eq_0_iff_dvd)
  also have "i < unat (drop_bit 12 (clip_end (pf_memory_end pf) b)) \<longleftrightarrow>
      4096 * Suc i \<le> unat (clip_end (pf_memory_end pf) b)"
    unfolding page_of_addr
    using less_eq_div_iff_mult_less_eq [of 4096 "Suc i" "unat (clip_end (pf_memory_end pf) b)"]
    by (simp add: Suc_le_eq mult.commute)
  finally show ?thesis by (simp only: clip_pages [OF assms True])
qed (simp add: paint_region_def usable_page_def)

lemma paint_region_frame [simp]:
  "pf_memory_end (paint_region b pf) = pf_memory_end pf"
  "pf_page_count (paint_region b pf) = pf_page_count pf"
  "pf_bitmap_size (paint_region b pf) = pf_bitmap_size pf"
  by (simp_all add: paint_region_def Let_def)

lemma fold_paint_region_frame [simp]:
  "pf_memory_end (fold paint_region bs pf) = pf_memory_end pf"
  "pf_page_count (fold paint_region bs pf) = pf_page_count pf"
  "pf_bitmap_size (fold paint_region bs pf) = pf_bitmap_size pf"
  by (induction bs arbitrary: pf) simp_all

lemma free_bit_fold_paint_region:
  "\<forall>b \<in> set bs. region_no_wrap b \<Longrightarrow>
     free_bit (fold paint_region bs pf) i \<longleftrightarrow>
     free_bit pf i \<or> (\<exists>b \<in> set bs. usable_page b i) \<and> 4096 * Suc i \<le> unat (pf_memory_end pf)"
  by (induction bs arbitrary: pf) (auto simp: free_bit_paint_region)

lemma mark_busy_at_initialized:
  "mark_busy_at vp (pf\<lparr>pf_initialized := v\<rparr>) = (mark_busy_at vp pf)\<lparr>pf_initialized := v\<rparr>"
  by (simp add: mark_busy_at_def mark_busy_counted_def is_free_def set_busy_def Let_def)

lemma fold_mark_busy_at_initialized:
  "fold mark_busy_at vps (pf\<lparr>pf_initialized := v\<rparr>) = (fold mark_busy_at vps pf)\<lparr>pf_initialized := v\<rparr>"
  by (induction vps arbitrary: pf) (simp_all add: mark_busy_at_initialized)

lemma page_step_index: "k < (x + 4095) div 4096 \<longleftrightarrow> 4096 * k < (x::nat)"
proof -
  have "Suc k \<le> (x + 4095) div 4096 \<longleftrightarrow> Suc k * 4096 \<le> x + 4095"
    by (rule less_eq_div_iff_mult_less_eq) simp
  then show ?thesis by auto
qed

lemma page_steps_pages:
  assumes al: "unat vp mod 4096 = 0" and stop: "unat stop + 4096 \<le> 2 ^ 64"
  shows "(\<lambda>vp. unat (drop_bit 12 vp)) ` set (page_steps vp stop) =
    {i. unat vp \<le> 4096 * i \<and> 4096 * i < unat stop}"
proof -
  obtain s where s: "unat vp = 4096 * s" using al by (auto simp: mod_eq_0_iff_dvd)
  then have vp: "vp = of_nat (4096 * s)" by (simp only: s [symmetric]) simp
  have page: "unat (drop_bit 12 (vp + of_nat k * kPageSize)) = s + k"
    if "4096 * s + 4096 * k < unat stop" for k
  proof -
    have eq: "vp + of_nat k * kPageSize = of_nat (4096 * (s + k))"
      by (simp add: vp kPageSize_def distrib_left)
    have "4096 * (s + k) < 2 ^ 64" using that stop by simp
    then have "unat (vp + of_nat k * kPageSize) = 4096 * (s + k)"
      unfolding eq by (rule unat_of_nat_u64)
    then show ?thesis by (simp add: page_of_addr)
  qed
  have "(\<lambda>vp. unat (drop_bit 12 vp)) ` set (page_steps vp stop) =
      (\<lambda>k. unat (drop_bit 12 (vp + of_nat k * kPageSize))) ` {k. 4096 * k < unat stop - 4096 * s}"
    by (simp only: page_steps_def set_map set_upt image_image s page_step_index [symmetric])
       (auto intro!: image_cong)
  also have "\<dots> = (\<lambda>k. s + k) ` {k. 4096 * k < unat stop - 4096 * s}"
    by (intro image_cong refl page) auto
  also have "\<dots> = {i. unat vp \<le> 4096 * i \<and> 4096 * i < unat stop}"
  proof (intro set_eqI iffI)
    fix i
    assume "i \<in> {i. unat vp \<le> 4096 * i \<and> 4096 * i < unat stop}"
    then have "i = s + (i - s)" "4096 * (i - s) < unat stop - 4096 * s" by (auto simp: s)
    then show "i \<in> (\<lambda>k. s + k) ` {k. 4096 * k < unat stop - 4096 * s}" by blast
  qed (auto simp: s)
  finally show ?thesis .
qed

definition boot_free :: "u64 \<Rightarrow> BootMemoryRegion list \<Rightarrow> nat set" where
  "boot_free limit bs = {i. i < 64 * unat limit \<and> (\<exists>b \<in> set bs. usable_page b i)}"

definition reserved_pages :: "u64 \<Rightarrow> u64 \<Rightarrow> nat set" where
  "reserved_pages lo hi = {i. unat lo \<le> 4096 * i \<and> 4096 * i < unat hi}"

definition bitmap_words :: "u64 \<Rightarrow> u64" where
  "bitmap_words page_count = ((page_count + 7) div 8 + 7) div 8"

lemma bitmap_words_bounds:
  assumes "unat pc < 2 ^ 52"
  shows "unat pc \<le> 64 * unat (bitmap_words pc)" and "unat (bitmap_words pc) < 2 ^ 52"
    and "unat pc \<le> 64 * unat l \<Longrightarrow> bitmap_words pc \<le> l"
proof -
  have a: "unat (pc + 7) = unat pc + 7" using assms by (subst unat_add_u64) auto
  have b: "unat ((pc + 7) div 8) = (unat pc + 7) div 8" by (simp add: unat_div a)
  have c: "unat ((pc + 7) div 8 + 7) = (unat pc + 7) div 8 + 7"
    using assms by (subst unat_add_u64) (auto simp: b)
  have d: "unat (bitmap_words pc) = ((unat pc + 7) div 8 + 7) div 8"
    by (simp only: bitmap_words_def unat_div c) simp
  show "unat pc \<le> 64 * unat (bitmap_words pc)" unfolding d by linarith
  show "unat (bitmap_words pc) < 2 ^ 52" unfolding d using assms by linarith
  show "unat pc \<le> 64 * unat l \<Longrightarrow> bitmap_words pc \<le> l"
    unfolding word_le_nat_alt d by linarith
qed

text \<open>The state between painting and reservation.\<close>

lemma painted_inv:
  assumes nw: "\<forall>b \<in> set bs. region_no_wrap b"
    and z: "\<And>i. i < 64 * unat (pf_bitmap_size pf2) \<Longrightarrow> \<not> free_bit pf2 i"
    and pc: "pf_page_count pf2 = drop_bit 12 (pf_memory_end pf2)"
    and bs: "pf_bitmap_size pf2 = bitmap_words (pf_page_count pf2)"
  defines "pf3 \<equiv> fold paint_region bs pf2"
  shows "pf_inv (pf3\<lparr>pf_free_page_count := count_free_pages pf3, pf_initialized := True\<rparr>)"
    and "free_pages (pf3\<lparr>pf_free_page_count := c, pf_initialized := v\<rparr>) =
      {i. (\<exists>b \<in> set bs. usable_page b i) \<and> 4096 * Suc i \<le> unat (pf_memory_end pf2)}"
proof -
  let ?N = "unat (pf_page_count pf2)" and ?m = "unat (pf_bitmap_size pf2)"
  have N52: "?N < 2 ^ 52"
    unfolding pc page_of_addr by (rule less_mult_imp_div_less) simp
  note w = bitmap_words_bounds(1,2) [OF N52, folded bs]
  have lt: "4096 * Suc i \<le> unat (pf_memory_end pf2) \<longleftrightarrow> i < ?N" for i
    unfolding pc page_of_addr
    using less_eq_div_iff_mult_less_eq [of 4096 "Suc i" "unat (pf_memory_end pf2)"]
    by (simp add: Suc_le_eq mult.commute)
  have fb: "free_bit pf3 i \<longleftrightarrow> (\<exists>b \<in> set bs. usable_page b i) \<and> i < ?N" if "i < 64 * ?m" for i
    using z [OF that] unfolding pf3_def free_bit_fold_paint_region [OF nw] lt by blast
  have fp: "free_pages (pf3\<lparr>pf_free_page_count := c, pf_initialized := v\<rparr>) = {i. i < ?N \<and> free_bit pf3 i}"
    for c v by (auto simp: free_pages_def pf3_def free_bit_def)
  then show "free_pages (pf3\<lparr>pf_free_page_count := c, pf_initialized := v\<rparr>) =
      {i. (\<exists>b \<in> set bs. usable_page b i) \<and> 4096 * Suc i \<le> unat (pf_memory_end pf2)}"
    unfolding lt using fb w(1) by auto
  have "count_free_pages pf3 = of_nat (card {i. i < 64 * ?m \<and> free_bit pf3 i})"
    using fold_count_word [of ?m pf3] fb w(2)
    by (simp add: count_free_pages_def pf3_def free_bit_def bitmap_bit_def)
  moreover have "{i. i < 64 * ?m \<and> free_bit pf3 i} = {i. i < ?N \<and> free_bit pf3 i}"
    using fb w(1) by auto
  moreover have "card {i. i < ?N \<and> free_bit pf3 i} \<le> ?N"
    using card_mono [of "{..< ?N}" "{i. i < ?N \<and> free_bit pf3 i}"] by auto
  ultimately have "unat (count_free_pages pf3) = card {i. i < ?N \<and> free_bit pf3 i}"
    using N52 by (simp add: unat_of_nat_u64)
  moreover have "free_bit (pf3\<lparr>pf_free_page_count := c, pf_initialized := v\<rparr>) = free_bit pf3" for c v
    by (rule free_bit_bitmap) simp
  ultimately show "pf_inv (pf3\<lparr>pf_free_page_count := count_free_pages pf3, pf_initialized := True\<rparr>)"
    using N52 w fb unfolding pf_inv_def fp by (simp add: pf3_def)
qed

lemma reserve_after_paint:
  assumes inv: "pf_inv (pf4\<lparr>pf_initialized := True\<rparr>)"
    and lo: "unat lo mod 4096 = 0" and hi: "unat hi + 4096 \<le> 2 ^ 64"
  shows "\<exists>pf5. for_pages mark_busy_at lo hi pf4 = Some pf5 \<and>
    pf_inv (pf5\<lparr>pf_initialized := True\<rparr>) \<and>
    free_pages (pf5\<lparr>pf_initialized := True\<rparr>) =
      free_pages (pf4\<lparr>pf_initialized := True\<rparr>) - reserved_pages lo hi"
  using fold_mark_busy_at_spec [OF inv, of "page_steps lo hi"]
  by (simp add: for_pages_eq [OF hi] fold_mark_busy_at_initialized page_steps_pages [OF lo hi]
        reserved_pages_def)

lemma max_trackable_end:
  assumes "unat limit < 2 ^ 40"
  shows "unat (limit * 64 * kPageSize) = unat limit * 2 ^ 18"
proof -
  have "limit * 64 * kPageSize = of_nat (unat limit * 2 ^ 18)" by (simp add: kPageSize_def)
  moreover have "unat limit * 2 ^ 18 < 2 ^ 64" using assms by simp
  ultimately show ?thesis by (simp only: unat_of_nat_u64)
qed

lemma memory_map_pass:
  assumes nw: "\<forall>b \<in> set bs. region_no_wrap b"
    and limit: "unat limit < 2 ^ 40" "length bs * (unat limit * 2 ^ 18) < 2 ^ 64"
    and acc: "fold (scan_region (limit * 64 * kPageSize)) bs (0, 0) = (msize, mend)"
  shows "0 < msize \<longleftrightarrow> 0 < mend"
    and "0 < mend \<longleftrightarrow> boot_free limit bs \<noteq> {}"
    and "{i. (\<exists>b \<in> set bs. usable_page b i) \<and> 4096 * Suc i \<le> unat mend} = boot_free limit bs"
    and "unat mend div 4096 \<le> 64 * unat limit"
proof -
  define M where "M = limit * 64 * kPageSize"
  have uM: "unat M = unat limit * 2 ^ 18" unfolding M_def using limit(1) by (rule max_trackable_end)
  have "scan_ok M bs (msize, mend)"
    unfolding acc [symmetric, folded M_def] using nw limit(2)
    by (intro fold_scan_region_ok) (simp_all add: uM)
  then show "0 < msize \<longleftrightarrow> 0 < mend" and mend: "unat mend div 4096 \<le> 64 * unat limit"
    by (auto simp: scan_ok_def word_le_nat_alt uM)
  from \<open>scan_ok M bs (msize, mend)\<close> have le: "unat mend \<le> unat M"
    and pos: "0 < mend \<longleftrightarrow> (\<exists>b \<in> set bs. \<exists>i. usable_page b i \<and> 4096 * Suc i \<le> unat M)"
    and cover: "\<And>b i. b \<in> set bs \<Longrightarrow> usable_page b i \<Longrightarrow> 4096 * Suc i \<le> unat M \<Longrightarrow>
      4096 * Suc i \<le> unat mend"
    by (simp_all add: scan_ok_def word_le_nat_alt)
  have below: "4096 * Suc i \<le> unat M \<longleftrightarrow> i < 64 * unat limit" for i
    unfolding uM by (auto simp: Suc_le_eq)
  show "0 < mend \<longleftrightarrow> boot_free limit bs \<noteq> {}"
    unfolding pos boot_free_def below by blast
  show "{i. (\<exists>b \<in> set bs. usable_page b i) \<and> 4096 * Suc i \<le> unat mend} = boot_free limit bs"
    unfolding boot_free_def using cover le below by (blast intro: order_trans)
qed

definition reserve_boot_windows ::
  "u64 \<Rightarrow> u64 \<Rightarrow> u64 \<Rightarrow> u64 \<Rightarrow> page_frames \<Rightarrow> page_frames option" where
  "reserve_boot_windows krs kre addr limit pf4 =
     (case for_pages mark_busy_at addr (addr + limit * 8) pf4 of
        None \<Rightarrow> None
      | Some pf5 \<Rightarrow>
        (case for_pages mark_busy_at 0 kEarlyReservedPhysicalEnd pf5 of
           None \<Rightarrow> None
         | Some pf6 \<Rightarrow> for_pages mark_busy_at krs kre pf6))"

lemma reserve_boot_windows_spec:
  assumes inv: "pf_inv (pf4\<lparr>pf_initialized := True\<rparr>)"
    and limit: "unat limit < 2 ^ 40"
    and bitmap: "unat addr mod 4096 = 0" "unat addr + 8 * unat limit + 4096 \<le> 2 ^ 64"
    and kernel: "unat krs mod 4096 = 0" "unat kre + 4096 \<le> 2 ^ 64"
  shows "\<exists>pf7. reserve_boot_windows krs kre addr limit pf4 = Some pf7 \<and>
    pf_inv (pf7\<lparr>pf_initialized := True\<rparr>) \<and>
    free_pages (pf7\<lparr>pf_initialized := True\<rparr>) =
      free_pages (pf4\<lparr>pf_initialized := True\<rparr>) - reserved_pages addr (addr + limit * 8) -
      reserved_pages 0 kEarlyReservedPhysicalEnd - reserved_pages krs kre"
proof -
  have "unat (limit * 8) = unat limit * 8"
    using limit by (subst unat_mult_lem [THEN iffD1]) auto
  then have "unat (addr + limit * 8) + 4096 \<le> 2 ^ 64"
    using bitmap(2) by (subst unat_add_u64) auto
  from reserve_after_paint [OF inv bitmap(1) this] obtain pf5 where
    5: "for_pages mark_busy_at addr (addr + limit * 8) pf4 = Some pf5"
      "pf_inv (pf5\<lparr>pf_initialized := True\<rparr>)"
      "free_pages (pf5\<lparr>pf_initialized := True\<rparr>) =
         free_pages (pf4\<lparr>pf_initialized := True\<rparr>) - reserved_pages addr (addr + limit * 8)" by blast
  from reserve_after_paint [OF 5(2), of 0 kEarlyReservedPhysicalEnd] obtain pf6 where
    6: "for_pages mark_busy_at 0 kEarlyReservedPhysicalEnd pf5 = Some pf6"
      "pf_inv (pf6\<lparr>pf_initialized := True\<rparr>)"
      "free_pages (pf6\<lparr>pf_initialized := True\<rparr>) =
         free_pages (pf5\<lparr>pf_initialized := True\<rparr>) - reserved_pages 0 kEarlyReservedPhysicalEnd"
    by (auto simp: kEarlyReservedPhysicalEnd_def)
  from reserve_after_paint [OF 6(2) kernel] show ?thesis
    using 5 6 by (simp add: reserve_boot_windows_def)
qed

lemma pf_initialize_usable:
  assumes fresh: "\<not> pf_initialized pf"
    and nw: "\<forall>b \<in> set bs. region_no_wrap b"
    and acc: "fold (scan_region (limit * 64 * kPageSize)) bs (0, 0) = (msize, mend)"
    and pos: "0 < msize" "0 < mend" and le: "unat mend div 4096 \<le> 64 * unat limit"
  shows "\<exists>pf4. pf_inv (pf4\<lparr>pf_initialized := True\<rparr>) \<and>
    free_pages (pf4\<lparr>pf_initialized := True\<rparr>) =
      {i. (\<exists>b \<in> set bs. usable_page b i) \<and> 4096 * Suc i \<le> unat mend} \<and>
    pf_initialize krs kre pf bs addr limit =
      map_option (\<lambda>pf7. (True, pf7\<lparr>pf_initialized := True\<rparr>))
        (reserve_boot_windows krs kre addr limit pf4)"
proof -
  define pf1 where "pf1 = pf\<lparr>pf_memory_size := msize, pf_memory_end := mend,
     pf_bitmap_physical_address := addr, pf_bitmap_limit := limit,
     pf_page_count := drop_bit 12 mend, pf_bitmap_size := bitmap_words (drop_bit 12 mend)\<rparr>"
  define pf2 where
    "pf2 = pf1\<lparr>pf_bitmap := memsetq (pf_bitmap pf1) 0 0 (bitmap_words (drop_bit 12 mend) * 8)\<rparr>"
  define pf3 where "pf3 = fold paint_region bs pf2"
  define pf4 where "pf4 = pf3\<lparr>pf_free_page_count := count_free_pages pf3\<rparr>"
  have N52: "unat (drop_bit 12 mend) < 2 ^ 52"
    unfolding page_of_addr by (rule less_mult_imp_div_less) simp
  note w = bitmap_words_bounds [OF N52]
  have "unat (bitmap_words (drop_bit 12 mend) * 8) = unat (bitmap_words (drop_bit 12 mend)) * 8"
    using w(2) by (subst unat_mult_lem [THEN iffD1]) auto
  then have clear: "\<not> free_bit pf2 i" if "i < 64 * unat (pf_bitmap_size pf2)" for i
    using that by (auto simp: pf2_def pf1_def free_bit_def memsetq_def less_mult_imp_div_less mult.commute)
  have inv4: "pf_inv (pf4\<lparr>pf_initialized := True\<rparr>)"
    and fp4: "free_pages (pf4\<lparr>pf_initialized := True\<rparr>) =
      {i. (\<exists>b \<in> set bs. usable_page b i) \<and> 4096 * Suc i \<le> unat mend}"
    using painted_inv [OF nw clear]
    by (simp_all add: pf4_def pf3_def) (simp_all add: pf2_def pf1_def)
  have "bitmap_words (drop_bit 12 mend) \<le> limit"
    using w(3) [of limit] le by (simp add: page_of_addr)
  then have "pf_initialize krs kre pf bs addr limit =
      map_option (\<lambda>pf7. (True, pf7\<lparr>pf_initialized := True\<rparr>))
        (reserve_boot_windows krs kre addr limit pf4)"
    using fresh acc pos
    by (simp add: pf_initialize_def Let_def reserve_boot_windows_def pf4_def pf3_def pf2_def pf1_def
          flip: bitmap_words_def split: option.split)
  with inv4 fp4 show ?thesis by blast
qed

text \<open>
  C1. \<open>initialize\<close> on a container that is not initialised terminates; it succeeds exactly when
  some whole page of a usable region is covered by the bitmap, and then the invariant holds
  (in particular the free-page counter is exact) and the free pages are precisely the pages that
  lie inside a usable region and below the bitmap's limit, minus the bitmap itself, the early
  reserved window and the kernel image. The hypotheses say that no region, nor the bitmap or the
  kernel window, reaches the end of the 64-bit address space and that the usable bytes do not
  overflow their 64-bit sum.
\<close>

theorem pf_initialize_correct:
  assumes fresh: "\<not> pf_initialized pf"
    and nw: "\<forall>b \<in> set bs. region_no_wrap b"
    and limit: "unat limit < 2 ^ 40" "length bs * (unat limit * 2 ^ 18) < 2 ^ 64"
    and bitmap: "unat addr mod 4096 = 0" "unat addr + 8 * unat limit + 4096 \<le> 2 ^ 64"
    and kernel: "unat krs mod 4096 = 0" "unat kre + 4096 \<le> 2 ^ 64"
  shows "\<exists>ok pf'. pf_initialize krs kre pf bs addr limit = Some (ok, pf') \<and>
    (ok \<longleftrightarrow> boot_free limit bs \<noteq> {}) \<and>
    (ok \<longrightarrow> pf_inv pf' \<and>
       free_pages pf' = boot_free limit bs - reserved_pages addr (addr + limit * 8)
         - reserved_pages 0 kEarlyReservedPhysicalEnd - reserved_pages krs kre)"
proof -
  obtain msize mend where acc: "fold (scan_region (limit * 64 * kPageSize)) bs (0, 0) = (msize, mend)"
    by force
  note map_pass = memory_map_pass [OF nw limit acc]
  show ?thesis
  proof (cases "0 < mend")
    case False
    then show ?thesis
      using fresh map_pass(1,2) acc
      by (intro exI [of _ False] exI) (auto simp: pf_initialize_def Let_def)
  next
    case True
    with map_pass(1) have "0 < msize" by simp
    from pf_initialize_usable [OF fresh nw acc this True map_pass(4), of krs kre addr] obtain pf4 where
      inv4: "pf_inv (pf4\<lparr>pf_initialized := True\<rparr>)"
      and fp4: "free_pages (pf4\<lparr>pf_initialized := True\<rparr>) = boot_free limit bs"
      and eq: "pf_initialize krs kre pf bs addr limit =
        map_option (\<lambda>pf7. (True, pf7\<lparr>pf_initialized := True\<rparr>))
          (reserve_boot_windows krs kre addr limit pf4)" unfolding map_pass(3) by blast
    from reserve_boot_windows_spec [OF inv4 limit(1) bitmap kernel] show ?thesis
      unfolding eq fp4 using True map_pass(2) by auto
  qed
qed

definition boot_demo_frames :: page_frames where
  "boot_demo_frames = \<lparr>pf_memory_size = 0, pf_memory_end = 0, pf_page_count = 0,
     pf_free_page_count = 0, pf_bitmap = (\<lambda>_. 0), pf_bitmap_physical_address = 0,
     pf_bitmap_size = 0, pf_bitmap_limit = 0, pf_initialized = False\<rparr>"

definition boot_demo_regions :: "BootMemoryRegion list" where
  "boot_demo_regions =
     [\<lparr>rg_physical_start = 0x800, rg_length = 0x30000, rg_type = 1, rg_attributes = 0\<rparr>,
      \<lparr>rg_physical_start = 0x100000, rg_length = 0x100000, rg_type = 1, rg_attributes = 0\<rparr>]"

theorem pf_initialize_correct_witness:
  "\<exists>pf'. pf_initialize 0x100000 0x192000 boot_demo_frames boot_demo_regions 0x20000 8 = Some (True, pf') \<and>
     pf_inv pf' \<and> 0x22 \<in> free_pages pf' \<and> 0x20 \<notin> free_pages pf' \<and> 0x191 \<notin> free_pages pf' \<and>
     0x192 \<in> free_pages pf'"
proof -
  have "0x192 \<in> boot_free 8 boot_demo_regions" "0x22 \<in> boot_free 8 boot_demo_regions"
    by (simp_all add: boot_free_def boot_demo_regions_def usable_page_def
          boot_memory_region_is_usable_def BootMemoryType_Usable_def)
  moreover have "0x20 \<in> reserved_pages 0x20000 (0x20000 + 8 * 8)" "0x191 \<in> reserved_pages 0x100000 0x192000"
    "0x192 \<notin> reserved_pages 0x20000 (0x20000 + 8 * 8)" "0x192 \<notin> reserved_pages 0x100000 0x192000"
    "0x192 \<notin> reserved_pages 0 kEarlyReservedPhysicalEnd"
    "0x22 \<notin> reserved_pages 0x20000 (0x20000 + 8 * 8)" "0x22 \<notin> reserved_pages 0x100000 0x192000"
    "0x22 \<notin> reserved_pages 0 kEarlyReservedPhysicalEnd"
    by (simp_all add: reserved_pages_def kEarlyReservedPhysicalEnd_def)
  ultimately show ?thesis
    using pf_initialize_correct [where pf = boot_demo_frames and bs = boot_demo_regions and limit = 8 and
      addr = "0x20000" and krs = "0x100000" and kre = "0x192000"]
    by (auto simp: boot_demo_frames_def boot_demo_regions_def region_no_wrap_def)
qed

end
