(* ===== verification/Frame_Allocator.thy ===== *)
theory Frame_Allocator
  imports Os1_Prelude
begin

text \<open>
  The contract every client of the page-frame container relies on (page tables, kernel stacks,
  slabs, DMA buffers): a set of available frame addresses that allocation shrinks by exactly what
  it hands out and release grows by exactly what it takes back. The contract is a locale; the
  client-side lemmas about histories of calls are proved once inside it.
\<close>

definition run_addrs :: "u64 \<Rightarrow> u32 \<Rightarrow> u64 set" where
  "run_addrs a n = {a + of_nat k * kPageSize | k. k < unat n}"

datatype frame_op = AllocOp | RunOp u32 | FreeOp u64

text \<open>
  One call by a disciplined client that remembers what it holds and releases nothing else.
\<close>

fun frame_step ::
  "('s \<Rightarrow> u64 option \<times> 's) \<Rightarrow> ('s \<Rightarrow> u32 \<Rightarrow> u64 option \<times> 's) \<Rightarrow> ('s \<Rightarrow> u64 \<Rightarrow> bool \<times> 's) \<Rightarrow>
   frame_op \<Rightarrow> 's \<times> u64 set \<Rightarrow> 's \<times> u64 set" where
  "frame_step alloc alloc_run release AllocOp (s, held) =
     (case alloc s of (Some a, s') \<Rightarrow> (s', insert a held) | (None, s') \<Rightarrow> (s', held))"
| "frame_step alloc alloc_run release (RunOp n) (s, held) =
     (case alloc_run s n of (Some a, s') \<Rightarrow> (s', run_addrs a n \<union> held) | (None, s') \<Rightarrow> (s', held))"
| "frame_step alloc alloc_run release (FreeOp a) (s, held) =
     (if a \<in> held
      then (case release s a of (True, s') \<Rightarrow> (s', held - {a}) | (False, s') \<Rightarrow> (s', held))
      else (s, held))"

locale frame_allocator =
  fixes inv :: "'s \<Rightarrow> bool"
    and avail :: "'s \<Rightarrow> u64 set"
    and alloc :: "'s \<Rightarrow> u64 option \<times> 's"
    and alloc_run :: "'s \<Rightarrow> u32 \<Rightarrow> u64 option \<times> 's"
    and release :: "'s \<Rightarrow> u64 \<Rightarrow> bool \<times> 's"
  assumes alloc_Some: "inv s \<Longrightarrow> alloc s = (Some a, s') \<Longrightarrow>
      a \<in> avail s \<and> avail s' = avail s - {a} \<and> inv s'"
    and alloc_None: "inv s \<Longrightarrow> alloc s = (None, s') \<Longrightarrow> s' = s \<and> avail s = {}"
    and run_Some: "inv s \<Longrightarrow> alloc_run s n = (Some a, s') \<Longrightarrow>
      run_addrs a n \<subseteq> avail s \<and> avail s' = avail s - run_addrs a n \<and> inv s'"
    and run_None: "inv s \<Longrightarrow> alloc_run s n = (None, s') \<Longrightarrow> s' = s"
    and release_True: "inv s \<Longrightarrow> release s a = (True, s') \<Longrightarrow>
      a \<notin> avail s \<and> avail s' = insert a (avail s) \<and> inv s'"
    and release_False: "inv s \<Longrightarrow> release s a = (False, s') \<Longrightarrow> s' = s"
    and avail_aligned: "inv s \<Longrightarrow> a \<in> avail s \<Longrightarrow> a AND 0xFFF = 0"
begin

definition accounted :: "u64 set \<Rightarrow> 's \<times> u64 set \<Rightarrow> bool" where
  "accounted pool c \<longleftrightarrow> inv (fst c) \<and> snd c \<inter> avail (fst c) = {} \<and> snd c \<union> avail (fst c) = pool"

lemma step_accounted:
  "accounted pool c \<Longrightarrow> accounted pool (frame_step alloc alloc_run release oper c)"
proof (cases c)
  case (Pair s held)
  assume acc: "accounted pool c"
  then have i: "inv s" and d: "held \<inter> avail s = {}" and t: "held \<union> avail s = pool"
    by (simp_all add: accounted_def Pair)
  show ?thesis
  proof (cases oper)
    case AllocOp
    show ?thesis
    proof (cases "alloc s")
      case (Pair r s')
      then show ?thesis
        using i d t acc AllocOp \<open>c = (s, held)\<close> alloc_Some [OF i] alloc_None [OF i]
        by (cases r) (auto simp: accounted_def)
    qed
  next
    case (RunOp n)
    show ?thesis
    proof (cases "alloc_run s n")
      case (Pair r s')
      then show ?thesis
        using i d t acc RunOp \<open>c = (s, held)\<close> run_Some [OF i] run_None [OF i]
        by (cases r) (fastforce simp: accounted_def)+
    qed
  next
    case (FreeOp a)
    show ?thesis
    proof (cases "release s a")
      case (Pair r s')
      then show ?thesis
        using i d t acc FreeOp \<open>c = (s, held)\<close>
        by (cases r) (auto simp: accounted_def dest: release_True [OF i] release_False [OF i])
    qed
  qed
qed

lemma history_accounted:
  "accounted pool c \<Longrightarrow> accounted pool (fold (frame_step alloc alloc_run release) opers c)"
proof (induction opers arbitrary: c)
  case (Cons oper opers)
  from Cons.IH [OF step_accounted [OF Cons.prems]] show ?case by simp
qed simp

lemma alloc_fresh: "accounted pool (s, held) \<Longrightarrow> alloc s = (Some a, s') \<Longrightarrow> a \<notin> held \<and> a \<in> pool"
  using alloc_Some [of s a s'] by (auto simp: accounted_def)

end

end
