(* ===== verification/Page_Frame_Spec.thy ===== *)
theory Page_Frame_Spec
  imports Page_Frame Frame_Allocator
begin

text \<open>
  The page-frame container implements the allocator contract \<open>frame_allocator\<close>, with the
  addresses of the free pages as the available frames; and the properties of each operation.
\<close>

definition free_addrs :: "page_frames \<Rightarrow> u64 set" where
  "free_addrs pf = page_addr ` free_pages pf"

lemma page_addr_inj:
  "i < 2 ^ 52 \<Longrightarrow> j < 2 ^ 52 \<Longrightarrow> page_addr i = page_addr j \<longleftrightarrow> i = j"
  by (metis page_of_page_addr)

lemma free_addrs_diff:
  assumes "pf_inv pf" and "J \<subseteq> free_pages pf" and "free_pages pf' = free_pages pf - J"
  shows "free_addrs pf' = free_addrs pf - page_addr ` J"
proof -
  have "inj_on page_addr (free_pages pf)"
    using pf_inv_bound [OF assms(1)] by (intro inj_onI) (simp add: page_addr_inj)
  then show ?thesis
    unfolding free_addrs_def assms(3) using assms(2) by (intro inj_on_image_set_diff) auto
qed

lemma run_addrs_eq: "run_addrs (page_addr s) n = page_addr ` {s ..< s + unat n}"
proof -
  have "page_addr s + of_nat k * kPageSize = page_addr (s + k)" for k
    by (simp add: page_addr_def push_bit_eq_mult kPageSize_def distrib_right)
  then have "run_addrs (page_addr s) n = page_addr ` (+) s ` {0 ..< unat n}"
    unfolding run_addrs_def image_image by auto
  then show ?thesis by (simp only: image_add_atLeastLessThan) (simp add: add.commute)
qed

lemma pf_allocate_run_zero: "pf_allocate_run pf 0 = (None, pf)"
  by (simp add: pf_allocate_run_def)

lemma pf_allocate_run_Some:
  assumes "pf_inv pf" and "n \<noteq> 0" and "pf_allocate_run pf n = (Some a, pf')"
  shows "\<exists>t. is_run pf (unat n) t \<and> (\<forall>u < t. \<not> is_run pf (unat n) u) \<and>
    a = page_addr t \<and> pf' = take_run pf t (unat n)"
proof (cases "\<exists>t. is_run pf (unat n) t")
  case True
  define t where "t = (LEAST t. is_run pf (unat n) t)"
  have "is_run pf (unat n) t" unfolding t_def using True by (rule LeastI_ex)
  moreover have "\<forall>u < t. \<not> is_run pf (unat n) u" unfolding t_def by (blast dest: not_less_Least)
  moreover have "a = page_addr t \<and> pf' = take_run pf t (unat n)"
    using True assms(3) unfolding pf_allocate_run_eq [OF assms(1,2)] t_def [symmetric] page_addr_def
    by simp
  ultimately show ?thesis by blast
next
  case False
  then show ?thesis using assms(3) unfolding pf_allocate_run_eq [OF assms(1,2)] by (auto split: if_splits)
qed

lemma pf_allocate_run_None:
  assumes "pf_inv pf" and "pf_allocate_run pf n = (None, pf')"
  shows "pf' = pf"
proof (cases "n = 0 \<or> \<not> (\<exists>t. is_run pf (unat n) t)")
  case True
  then show ?thesis
    using assms(2) pf_allocate_run_zero pf_allocate_run_eq [OF assms(1), of n] by (cases "n = 0") auto
next
  case False
  then show ?thesis using assms(2) pf_allocate_run_eq [OF assms(1), of n] by simp
qed

lemma pf_free_release:
  assumes "pf_inv pf" and "pf_free pf a = (True, pf')"
  shows "a \<notin> free_addrs pf" and "free_addrs pf' = insert a (free_addrs pf)" and "pf_inv pf'"
proof -
  let ?i = "unat (drop_bit 12 a)"
  from assms have al: "a AND 0xFFF = 0" and lt: "?i < unat (pf_page_count pf)"
    and nf: "?i \<notin> free_pages pf" and pf': "pf' = give_page pf (drop_bit 12 a)"
    by (auto simp: pf_free_eq word_less_nat_alt split: if_splits)
  note a = page_addr_of_aligned [OF al]
  have "i = ?i" if "i \<in> free_pages pf" "page_addr i = a" for i
    using page_of_page_addr [OF pf_inv_bound [OF assms(1) that(1)]] that(2) by simp
  with nf show "a \<notin> free_addrs pf" by (auto simp: free_addrs_def)
  show "free_addrs pf' = insert a (free_addrs pf)"
    using a by (simp add: free_addrs_def pf' free_pages_give_page [OF lt])
  show "pf_inv pf'" unfolding pf' using assms(1) lt nf by (rule pf_inv_give_page)
qed

interpretation pf: frame_allocator pf_inv free_addrs pf_allocate pf_allocate_run pf_free
proof
  fix s s' :: page_frames and a :: u64 and n :: u32
  assume inv: "pf_inv s"
  let ?m = "Min (free_pages s)"
  show "a \<in> free_addrs s \<and> free_addrs s' = free_addrs s - {a} \<and> pf_inv s'"
    if "pf_allocate s = (Some a, s')"
  proof -
    from that have ne: "free_pages s \<noteq> {}" using pf_allocate_None [OF inv] by auto
    then have m: "?m \<in> free_pages s" by simp
    then have u: "unat (of_nat ?m :: u64) = ?m"
      using pf_inv_bound [OF inv m] by (intro unat_of_nat_u64) simp
    from that pf_allocate_Some [OF inv ne] have a: "a = page_addr ?m" and s': "s' = take_page s (of_nat ?m)"
      by (auto simp: page_addr_def)
    have "free_addrs s' = free_addrs s - page_addr ` {?m}"
      using inv m by (intro free_addrs_diff) (auto simp: s' u)
    with m a pf_inv_take_page [OF inv, of "of_nat ?m"] u show ?thesis
      by (auto simp: free_addrs_def s')
  qed
  show "s' = s \<and> free_addrs s = {}" if "pf_allocate s = (None, s')"
    using that pf_allocate_None [OF inv] pf_allocate_Some [OF inv]
    by (cases "free_pages s = {}") (auto simp: free_addrs_def)
  show "run_addrs a n \<subseteq> free_addrs s \<and> free_addrs s' = free_addrs s - run_addrs a n \<and> pf_inv s'"
    if "pf_allocate_run s n = (Some a, s')"
  proof -
    have n0: "n \<noteq> 0" using that pf_allocate_run_zero [of s] by auto
    from pf_allocate_run_Some [OF inv n0 that] obtain t where
      run: "is_run s (unat n) t" and a: "a = page_addr t" and s': "s' = take_run s t (unat n)"
      by blast
    have "t + unat n \<le> 2 ^ 64" using run inv by (simp add: pf_inv_def is_run_def)
    then have "free_pages s' = free_pages s - {t ..< t + unat n}"
      unfolding s' by (rule free_pages_take_run)
    with inv is_run_subset [OF run] have "free_addrs s' = free_addrs s - run_addrs a n"
      unfolding a run_addrs_eq by (rule free_addrs_diff)
    moreover have "run_addrs a n \<subseteq> free_addrs s"
      unfolding a run_addrs_eq free_addrs_def using is_run_subset [OF run] by (rule image_mono)
    ultimately show ?thesis using pf_inv_take_run [OF inv run] by (simp add: s')
  qed
  show "s' = s" if "pf_allocate_run s n = (None, s')"
    using that pf_allocate_run_None [OF inv] by blast
  show "a \<notin> free_addrs s \<and> free_addrs s' = insert a (free_addrs s) \<and> pf_inv s'"
    if "pf_free s a = (True, s')"
    using pf_free_release [OF inv that] by simp
  show "s' = s" if "pf_free s a = (False, s')"
    using that by (auto simp: pf_free_eq [OF inv] split: if_splits)
  show "a AND 0xFFF = 0" if "a \<in> free_addrs s"
    using that pf_inv_bound [OF inv] by (auto simp: free_addrs_def page_addr_aligned)
qed

section \<open>Properties of the operations\<close>

lemma reserve_range_pages:
  assumes no_wrap: "unat address + unat len + 4095 < 2 ^ 64" and "0 < len"
  defines "e \<equiv> (unat address + unat len + 4095) div 4096"
  shows "unat (drop_bit 12 (address + len + kPageSize - 1)) = e" and "unat (drop_bit 12 address) < e"
    and "unat ` set (map (of_nat :: nat \<Rightarrow> u64) [unat address div 4096 ..< e]) =
      {unat address div 4096 ..< e}"
proof -
  have "address + len + kPageSize - 1 = address + (len + 4095)"
    by (simp add: kPageSize_def algebra_simps)
  moreover have "unat (len + 4095) = unat len + 4095"
    using no_wrap by (subst unat_add_u64) auto
  ultimately have "unat (address + len + kPageSize - 1) = unat address + unat len + 4095"
    using no_wrap by (simp only:) (subst unat_add_u64, auto)
  then show "unat (drop_bit 12 (address + len + kPageSize - 1)) = e"
    by (simp add: page_of_addr e_def)
  have "0 < unat len" using \<open>0 < len\<close> by (simp add: word_less_nat_alt)
  then show "unat (drop_bit 12 address) < e" unfolding page_of_addr e_def by linarith
  have "e < 2 ^ 64" using no_wrap unfolding e_def by linarith
  then show "unat ` set (map (of_nat :: nat \<Rightarrow> u64) [unat address div 4096 ..< e]) =
      {unat address div 4096 ..< e}"
    by (auto simp: image_image unat_of_nat_u64 intro!: image_eqI [where x = "of_nat _"])
qed

definition demo_frames :: page_frames where
  "demo_frames = \<lparr>pf_memory_size = 0x8000, pf_memory_end = 0x8000, pf_page_count = 8,
     pf_free_page_count = 3, pf_bitmap = (\<lambda>_. 0)(0 := 0x34), pf_bitmap_physical_address = 0,
     pf_bitmap_size = 1, pf_bitmap_limit = 1, pf_initialized = True\<rparr>"

lemma free_pages_demo: "free_pages demo_frames = {2, 4, 5}"
proof -
  have "free_pages demo_frames = set (filter (\<lambda>i. bit (0x34 :: u64) i) [0 ..< 8])"
    by (auto simp: free_pages_def demo_frames_def free_bit_def)
  also have "\<dots> = {2, 4, 5}" by code_simp
  finally show ?thesis .
qed

lemma pf_inv_demo: "pf_inv demo_frames"
proof -
  have "i < 8" if "i < 64" "bit (0x34 :: u64) i" for i
  proof -
    have "(0x34 :: u64) = take_bit 8 0x34" by simp
    then show ?thesis using that(2) by (metis bit_take_bit_iff)
  qed
  moreover have "pf_bitmap_size demo_frames = 1" "pf_page_count demo_frames = 8" "pf_free_page_count demo_frames = 3"
     "pf_bitmap demo_frames 0 = 0x34" "pf_initialized demo_frames"
    by (simp_all add: demo_frames_def)
  ultimately show ?thesis by (simp add: pf_inv_def free_pages_demo free_bit_def)
qed

text \<open>
  C2. Single-page allocation: on a container that satisfies its invariant, \<open>allocate\<close> returns the
  address of the lowest free page, marks exactly that page busy, keeps the counter exact, and fails,
  changing nothing, exactly when no page is free.
\<close>

theorem pf_allocate_correct:
  assumes "pf_inv pf"
  shows "if free_pages pf = {} then pf_allocate pf = (None, pf)
    else \<exists>pf'. pf_allocate pf = (Some (page_addr (Min (free_pages pf))), pf') \<and>
      free_pages pf' = free_pages pf - {Min (free_pages pf)} \<and> pf_inv pf'"
proof (cases "free_pages pf = {}")
  case True
  then show ?thesis using pf_allocate_None [OF assms] by simp
next
  case False
  then have m: "Min (free_pages pf) \<in> free_pages pf" by simp
  then have "unat (of_nat (Min (free_pages pf)) :: u64) = Min (free_pages pf)"
    using pf_inv_bound [OF assms m] by (intro unat_of_nat_u64) simp
  with m pf_allocate_Some [OF assms False] pf_inv_take_page [OF assms] False show ?thesis
    by (simp add: page_addr_def)
qed

theorem pf_allocate_correct_witness:
  "\<exists>pf'. pf_allocate demo_frames = (Some 0x2000, pf') \<and> free_pages pf' = {4, 5} \<and> pf_inv pf'"
proof -
  have "{2, 4, 5} - {2 :: nat} = {4, 5}" by auto
  then show ?thesis
    using pf_allocate_correct [OF pf_inv_demo] by (simp add: free_pages_demo page_addr_def)
qed

text \<open>
  C3. Contiguous allocation is first fit: \<open>allocate(address, count)\<close> with a count above zero
  returns the start of the lowest run of \<open>count\<close> free pages, marks exactly those pages busy, and
  fails, changing nothing, exactly when no such run exists. No run is missed or overlaps a busy page.
\<close>

theorem pf_allocate_run_first_fit:
  assumes inv: "pf_inv pf" and n: "n \<noteq> 0"
  shows "case pf_allocate_run pf n of
      (None, pf') \<Rightarrow> pf' = pf \<and> (\<nexists>t. is_run pf (unat n) t)
    | (Some a, pf') \<Rightarrow> \<exists>t. a = page_addr t \<and> is_run pf (unat n) t \<and> (\<forall>u < t. \<not> is_run pf (unat n) u) \<and>
        free_pages pf' = free_pages pf - {t ..< t + unat n} \<and> pf_inv pf'"
proof (cases "pf_allocate_run pf n")
  case (Pair r pf')
  show ?thesis
  proof (cases r)
    case None
    with Pair show ?thesis
      using pf_allocate_run_None [OF inv, of n pf'] pf_allocate_run_eq [OF inv n] by (auto split: if_splits)
  next
    case (Some a)
    with Pair have "pf_allocate_run pf n = (Some a, pf')" by simp
    from pf_allocate_run_Some [OF inv n this] obtain t where
      run: "is_run pf (unat n) t" "\<forall>u < t. \<not> is_run pf (unat n) u" "a = page_addr t"
      and pf': "pf' = take_run pf t (unat n)" by blast
    have "t + unat n \<le> 2 ^ 64" using run(1) inv by (simp add: pf_inv_def is_run_def)
    with run pf' Pair Some show ?thesis
      using free_pages_take_run pf_inv_take_run [OF inv run(1)] by auto
  qed
qed

lemma is_run_iff: "is_run pf c s \<longleftrightarrow> s + c \<le> unat (pf_page_count pf) \<and> {s ..< s + c} \<subseteq> free_pages pf"
  by (auto simp: is_run_def free_pages_def)

theorem pf_allocate_run_first_fit_witness:
  "\<exists>pf'. pf_allocate_run demo_frames 2 = (Some 0x4000, pf') \<and> free_pages pf' = {2} \<and> pf_inv pf'"
proof -
  have run: "is_run demo_frames 2 t \<longleftrightarrow> t = 4" for t
  proof -
    have range: "{t ..< t + 2} = {t, Suc t}" by auto
    have "unat (pf_page_count demo_frames) = 8" by (simp add: demo_frames_def)
    then show ?thesis unfolding is_run_iff range free_pages_demo by auto
  qed
  have "{2, 4, 5} - {4 ..< 6} = {2 :: nat}" by auto
  with run show ?thesis
    using pf_allocate_run_first_fit [OF pf_inv_demo, of 2]
    by (cases "pf_allocate_run demo_frames 2"; cases "fst (pf_allocate_run demo_frames 2)")
      (auto simp: free_pages_demo page_addr_def)
qed

text \<open>
  C4. \<open>free\<close> accepts an address exactly when it is page aligned, tracked and currently allocated;
  it then frees exactly that page. A misaligned or untracked address and a double free are
  rejected and leave the container as it was.
\<close>

theorem pf_free_correct:
  assumes inv: "pf_inv pf"
  shows "if a AND 0xFFF = 0 \<and> unat a div 4096 < unat (pf_page_count pf) \<and> unat a div 4096 \<notin> free_pages pf
    then \<exists>pf'. pf_free pf a = (True, pf') \<and> free_pages pf' = insert (unat a div 4096) (free_pages pf) \<and> pf_inv pf'
    else pf_free pf a = (False, pf)"
  using pf_inv_give_page [OF inv, of "drop_bit 12 a"] free_pages_give_page [of "drop_bit 12 a" pf]
  by (simp add: pf_free_eq [OF inv] page_of_addr word_less_nat_alt)

theorem pf_free_correct_witness:
  "(\<exists>pf'. pf_free demo_frames 0x3000 = (True, pf') \<and> free_pages pf' = {2, 3, 4, 5} \<and> pf_inv pf') \<and>
   pf_free demo_frames 0x4000 = (False, demo_frames) \<and> pf_free demo_frames 0x3008 = (False, demo_frames)"
proof -
  have "pf_page_count demo_frames = 8" by (simp add: demo_frames_def)
  moreover have "insert 3 {2, 4, 5 :: nat} = {2, 3, 4, 5}" by auto
  ultimately show ?thesis
    using pf_free_correct [OF pf_inv_demo, of "0x3000"] pf_free_correct [OF pf_inv_demo, of "0x4000"]
      pf_free_correct [OF pf_inv_demo, of "0x3008"]
    by (simp add: free_pages_demo)
qed

text \<open>
  C5. Reserving a byte range whose rounded end does not wrap succeeds exactly when every page it
  touches is tracked, and marks precisely the touched tracked pages busy; on failure the tracked
  prefix stays reserved.
\<close>

theorem pf_reserve_range_correct:
  assumes inv: "pf_inv pf" and len: "0 < len" and no_wrap: "unat address + unat len + 4095 < 2 ^ 64"
  defines "first \<equiv> unat address div 4096" and "stop \<equiv> (unat address + unat len + 4095) div 4096"
  shows "case pf_reserve_range pf address len of (ok, pf') \<Rightarrow>
    (ok \<longleftrightarrow> stop \<le> unat (pf_page_count pf)) \<and> pf_inv pf' \<and>
    free_pages pf' = free_pages pf - {first ..< stop}"
proof -
  let ?js = "map (of_nat :: nat \<Rightarrow> u64) [first ..< stop]"
  note pages = reserve_range_pages [OF no_wrap len, folded first_def stop_def]
  have eq: "pf_reserve_range pf address len = reserve_pages ?js pf"
    using inv len pages(1,2)
    by (simp add: pf_reserve_range_def pf_inv_def Let_def word_le_nat_alt page_of_addr first_def)
  have lt: "first < stop" using pages(2) by (simp add: page_of_addr first_def)
  have small: "stop < 2 ^ 64" unfolding stop_def using no_wrap by linarith
  have u: "unat (of_nat j :: u64) = j" if "j < stop" for j
    using that small by (intro unat_of_nat_u64) simp
  have "(\<forall>j \<in> set ?js. j < pf_page_count pf) \<longleftrightarrow> stop \<le> unat (pf_page_count pf)"
    using all_less_upt [OF lt] u by (simp add: word_less_nat_alt)
  moreover have "free_pages pf - unat ` set (takeWhile (\<lambda>j. j < pf_page_count pf) ?js) =
      free_pages pf - {first ..< stop}" unfolding takeWhile_less_words [OF small]
    by (auto simp: free_pages_def)
  ultimately show ?thesis using reserve_pages_spec [OF inv, of ?js] by (simp add: eq case_prod_unfold)
qed

theorem pf_reserve_range_correct_witness:
  "\<exists>pf'. pf_reserve_range demo_frames 0x4800 0x900 = (True, pf') \<and> free_pages pf' = {2} \<and> pf_inv pf'"
proof -
  have "pf_page_count demo_frames = 8" by (simp add: demo_frames_def)
  moreover have "{2, 4, 5} - {4 ..< 6} = {2 :: nat}" by auto
  ultimately show ?thesis
    using pf_reserve_range_correct [OF pf_inv_demo, of "0x900" "0x4800"]
    by (cases "pf_reserve_range demo_frames 0x4800 0x900") (simp add: free_pages_demo)
qed

text \<open>
  C6. Conservation over every history of calls: starting from a container with an exact counter and
  a client that holds nothing, after any sequence of single allocations, run allocations and
  releases of held frames the frames held and the frames available partition the original pool.
  So no frame is handed out twice, none is lost, and the invariant still holds.
\<close>

theorem frames_conserved:
  assumes inv: "pf_inv pf"
  shows "case fold (frame_step pf_allocate pf_allocate_run pf_free) calls (pf, {}) of (pf', held) \<Rightarrow>
    pf_inv pf' \<and> held \<inter> free_addrs pf' = {} \<and> held \<union> free_addrs pf' = free_addrs pf"
proof -
  have "pf.accounted (free_addrs pf) (pf, {})" using inv by (simp add: pf.accounted_def)
  from pf.history_accounted [OF this, of calls] show ?thesis
    by (simp add: pf.accounted_def case_prod_unfold)
qed

theorem frames_conserved_witness:
  "case fold (frame_step pf_allocate pf_allocate_run pf_free) [AllocOp, RunOp 2, FreeOp 0x2000, FreeOp 0x2000]
      (demo_frames, {}) of (pf', held) \<Rightarrow>
    pf_inv pf' \<and> held \<inter> free_addrs pf' = {} \<and> held \<union> free_addrs pf' = {0x2000, 0x4000, 0x5000}"
proof -
  have "free_addrs demo_frames = {0x2000, 0x4000, 0x5000}"
    by (simp add: free_addrs_def free_pages_demo page_addr_def)
  then show ?thesis using frames_conserved [OF pf_inv_demo] by (simp del: fold.simps)
qed

lemma reserve_range_wrap:
  assumes "pf_inv pf" and "0 < len" and "unat address + unat len \<le> 2 ^ 64"
    and "2 ^ 64 \<le> unat address + unat len + 4095"
  shows "pf_reserve_range pf address len = (True, pf)"
proof -
  have "address + len + kPageSize - 1 = of_nat (unat address + unat len + 4095)"
    by (simp add: kPageSize_def)
  also have "\<dots> = of_nat (unat address + unat len + 4095 - 2 ^ 64)"
    using assms(4) by (subst of_nat_diff) auto
  finally have "unat (address + len + kPageSize - 1) = unat address + unat len + 4095 - 2 ^ 64"
    using assms(3) by (simp only:) (rule unat_of_nat_u64, simp)
  then have "unat (drop_bit 12 (address + len + kPageSize - 1)) = 0"
    using assms(3) by (simp add: page_of_addr)
  then show ?thesis
    using assms(1,2) by (simp add: pf_reserve_range_def pf_inv_def Let_def word_le_nat_alt)
qed

end
