(* ===== verification/Virtual_Memory.thy ===== *)
theory Virtual_Memory
  imports Page_Frame_Spec
begin

text \<open>
  The long-mode page-table manager of \<^verbatim>\<open>src/src/kernel/mm/virtual_memory.cpp\<close>. Physical memory is
  a function from the address of an 8-byte word to the word (\<open>vm_mem\<close>); a C++ reference to a table
  entry is the address of its word, so an entry is read and written where the code reads and writes
  it. \<open>vm_shootdowns\<close> counts the calls of \<^verbatim>\<open>ipi_send_tlb_shootdown\<close>, the only effect the manager has
  on other processors. The page-frame container of theory \<open>Page_Frame\<close> is the field
  \<open>vm_frames\<close>.
\<close>

section \<open>Data and helpers\<close>

type_synonym phys_mem = "u64 \<Rightarrow> u64"
type_synonym page_flags = u64

definition PageFlags_Present :: page_flags where
  "PageFlags_Present = 1"

definition PageFlags_Write :: page_flags where
  "PageFlags_Write = 2"

definition PageFlags_User :: page_flags where
  "PageFlags_User = 4"

definition PageFlags_NoExecute :: page_flags where
  "PageFlags_NoExecute = push_bit 63 1"

definition kLargePageSize2MiB :: u64 where
  "kLargePageSize2MiB = 0x200000"

definition kLargePageOffsetMask2MiB :: u64 where
  "kLargePageOffsetMask2MiB = kLargePageSize2MiB - 1"

definition kEntryLargePage :: u64 where
  "kEntryLargePage = 0x80"

definition kEntryAddressMask :: u64 where
  "kEntryAddressMask = 0x000FFFFFFFFFF000"

definition kLargePageAddressMask2MiB :: u64 where
  "kLargePageAddressMask2MiB = 0x000FFFFFFFE00000"

definition kUserPml4Index :: u64 where
  "kUserPml4Index = 1"

record vm =
  vm_frames :: page_frames
  vm_mem :: phys_mem
  vm_shootdowns :: nat
  vm_initialized :: bool
  vm_root :: u64

definition page_index :: "u64 \<Rightarrow> nat \<Rightarrow> u64" where
  "page_index virtual_address shift = drop_bit shift virtual_address AND 0x1FF"

definition address_is_in_user_slot :: "u64 \<Rightarrow> bool" where
  "address_is_in_user_slot virtual_address \<longleftrightarrow> page_index virtual_address 39 = kUserPml4Index"

definition maybe_shootdown_user_mappings :: "u64 \<Rightarrow> vm \<Rightarrow> vm" where
  "maybe_shootdown_user_mappings virtual_address vm =
     (if vm_root vm = 0 \<or> vm_root vm = NOT 0 \<or> \<not> address_is_in_user_slot virtual_address then vm
      else vm\<lparr>vm_shootdowns := Suc (vm_shootdowns vm)\<rparr>)"

definition maybe_shootdown_user_slot :: "u64 \<Rightarrow> vm \<Rightarrow> vm" where
  "maybe_shootdown_user_slot slot vm =
     (if vm_root vm = 0 \<or> vm_root vm = NOT 0 \<or> slot \<noteq> kUserPml4Index then vm
      else vm\<lparr>vm_shootdowns := Suc (vm_shootdowns vm)\<rparr>)"

definition vm_construct :: "page_frames \<Rightarrow> phys_mem \<Rightarrow> nat \<Rightarrow> u64 \<Rightarrow> vm" where
  "vm_construct frames mem shootdowns existing_root =
     \<lparr>vm_frames = frames, vm_mem = mem, vm_shootdowns = shootdowns,
      vm_initialized = (existing_root \<noteq> NOT 0), vm_root = existing_root\<rparr>"

definition vm_attach :: "vm \<Rightarrow> u64 \<Rightarrow> vm" where
  "vm_attach vm root = vm\<lparr>vm_root := root, vm_initialized := (root \<noteq> NOT 0)\<rparr>"

text \<open>\<^verbatim>\<open>memsetq\<close> on physical memory, the fill covering whole words from \<open>addr\<close>.\<close>

definition phys_memsetq :: "phys_mem \<Rightarrow> u64 \<Rightarrow> u64 \<Rightarrow> u64 \<Rightarrow> phys_mem" where
  "phys_memsetq mem addr v num = (\<lambda>x. if unat (x - addr) < unat num div 8 * 8 then v else mem x)"

section \<open>Walks and mappings\<close>

definition ensure_root :: "vm \<Rightarrow> bool \<times> vm" where
  "ensure_root vm =
     (if vm_initialized vm then (True, vm)
      else case pf_allocate (vm_frames vm) of
             (None, frames) \<Rightarrow> (False, vm\<lparr>vm_frames := frames\<rparr>)
           | (Some root, frames) \<Rightarrow>
               (True, vm\<lparr>vm_frames := frames, vm_root := root,
                         vm_mem := phys_memsetq (vm_mem vm) root 0 kPageSize,
                         vm_initialized := True\<rparr>))"

definition table_entry_flags :: "bool \<Rightarrow> u64" where
  "table_entry_flags user_visible =
     (let entry = PageFlags_Present OR PageFlags_Write
      in if user_visible then entry OR PageFlags_User else entry)"

definition ensure_table_entry :: "vm \<Rightarrow> u64 \<Rightarrow> bool \<Rightarrow> bool \<times> vm" where
  "ensure_table_entry vm slot user_visible =
     (if vm_mem vm slot = 0 then
        (case pf_allocate (vm_frames vm) of
           (None, frames) \<Rightarrow> (False, vm\<lparr>vm_frames := frames\<rparr>)
         | (Some new_page, frames) \<Rightarrow>
             let mem = phys_memsetq (vm_mem vm) new_page 0 kPageSize
             in (True, vm\<lparr>vm_frames := frames,
                  vm_mem := mem(slot := (new_page AND kEntryAddressMask) OR
                                        table_entry_flags user_visible)\<rparr>))
      else if user_visible
      then (True, vm\<lparr>vm_mem := (vm_mem vm)(slot := vm_mem vm slot OR PageFlags_User)\<rparr>)
      else (True, vm))"

text \<open>One level of \<open>walk_to_leaf\<close>: from a table and an index to the next table.\<close>

definition walk_level :: "vm \<Rightarrow> u64 \<Rightarrow> u64 \<Rightarrow> bool \<Rightarrow> bool \<Rightarrow> u64 option \<times> vm" where
  "walk_level vm table index create user_visible =
     (let slot = table + 8 * index
      in if create then
           (case ensure_table_entry vm slot user_visible of
              (False, vm1) \<Rightarrow> (None, vm1)
            | (True, vm1) \<Rightarrow> (Some (vm_mem vm1 slot AND kEntryAddressMask), vm1))
         else if vm_mem vm slot = 0 then (None, vm)
         else (Some (vm_mem vm slot AND kEntryAddressMask), vm))"

definition walk_to_leaf :: "vm \<Rightarrow> u64 \<Rightarrow> bool \<Rightarrow> bool \<Rightarrow> u64 option \<times> vm" where
  "walk_to_leaf vm virtual_address create user_visible =
     (case ensure_root vm of
        (False, vm1) \<Rightarrow> (None, vm1)
      | (True, vm1) \<Rightarrow>
        (case walk_level vm1 (vm_root vm1) (page_index virtual_address 39) create user_visible of
           (None, vm2) \<Rightarrow> (None, vm2)
         | (Some pml3, vm2) \<Rightarrow>
           (case walk_level vm2 pml3 (page_index virtual_address 30) create user_visible of
              (None, vm3) \<Rightarrow> (None, vm3)
            | (Some pml2, vm3) \<Rightarrow>
              (case walk_level vm3 pml2 (page_index virtual_address 21) create user_visible of
                 (None, vm4) \<Rightarrow> (None, vm4)
               | (Some pml1, vm4) \<Rightarrow>
                   (Some (pml1 + 8 * page_index virtual_address 12), vm4)))))"

text \<open>
  The page loops return early on the first failure; \<open>for_index\<close> is the loop
  \<open>for (i = first; i < stop; ++i) if (!body(i)) return false;\<close> on a 64-bit counter.
\<close>

fun for_index :: "(u64 \<Rightarrow> 's \<Rightarrow> bool \<times> 's) \<Rightarrow> nat list \<Rightarrow> 's \<Rightarrow> bool \<times> 's" where
  "for_index body [] s = (True, s)"
| "for_index body (i # is) s =
     (case body (of_nat i) s of (False, s1) \<Rightarrow> (False, s1) | (True, s1) \<Rightarrow> for_index body is s1)"

definition map_physical_page :: "u64 \<Rightarrow> u64 \<Rightarrow> page_flags \<Rightarrow> u64 \<Rightarrow> vm \<Rightarrow> bool \<times> vm" where
  "map_physical_page virtual_address physical_address flags i vm =
     (let user_visible = (flags AND PageFlags_User = PageFlags_User)
      in case walk_to_leaf vm (virtual_address + i * kPageSize) True user_visible of
           (None, vm1) \<Rightarrow> (False, vm1)
         | (Some leaf, vm1) \<Rightarrow>
             (True, vm1\<lparr>vm_mem := (vm_mem vm1)(leaf :=
                ((physical_address + i * kPageSize) AND kEntryAddressMask) OR
                (flags OR PageFlags_Present))\<rparr>))"

definition map_physical :: "vm \<Rightarrow> u64 \<Rightarrow> u64 \<Rightarrow> u64 \<Rightarrow> page_flags \<Rightarrow> bool \<times> vm" where
  "map_physical vm virtual_address physical_address num_pages flags =
     (if num_pages = 0 \<or> virtual_address AND (kPageSize - 1) \<noteq> 0 \<or>
         physical_address AND (kPageSize - 1) \<noteq> 0 then (False, vm)
      else for_index (map_physical_page virtual_address physical_address flags)
             [0 ..< unat num_pages] vm)"

definition map_physical_2m_page :: "u64 \<Rightarrow> u64 \<Rightarrow> page_flags \<Rightarrow> u64 \<Rightarrow> vm \<Rightarrow> bool \<times> vm" where
  "map_physical_2m_page virtual_address physical_address flags i vm =
     (let current_virtual = virtual_address + i * kLargePageSize2MiB;
          current_physical = physical_address + i * kLargePageSize2MiB;
          user_visible = (flags AND PageFlags_User = PageFlags_User)
      in case ensure_root vm of
           (False, vm1) \<Rightarrow> (False, vm1)
         | (True, vm1) \<Rightarrow>
           (case walk_level vm1 (vm_root vm1) (page_index current_virtual 39) True user_visible of
              (None, vm2) \<Rightarrow> (False, vm2)
            | (Some pml3, vm2) \<Rightarrow>
              (case walk_level vm2 pml3 (page_index current_virtual 30) True user_visible of
                 (None, vm3) \<Rightarrow> (False, vm3)
               | (Some pml2, vm3) \<Rightarrow>
                   (True, vm3\<lparr>vm_mem := (vm_mem vm3)
                      (pml2 + 8 * page_index current_virtual 21 :=
                         (current_physical AND kLargePageAddressMask2MiB) OR
                         (flags OR PageFlags_Present) OR kEntryLargePage)\<rparr>))))"

definition map_physical_2m :: "vm \<Rightarrow> u64 \<Rightarrow> u64 \<Rightarrow> u64 \<Rightarrow> page_flags \<Rightarrow> bool \<times> vm" where
  "map_physical_2m vm virtual_address physical_address num_pages flags =
     (if num_pages = 0 \<or> virtual_address AND kLargePageOffsetMask2MiB \<noteq> 0 \<or>
         physical_address AND kLargePageOffsetMask2MiB \<noteq> 0 then (False, vm)
      else for_index (map_physical_2m_page virtual_address physical_address flags)
             [0 ..< unat num_pages] vm)"

text \<open>
  \<open>allocate_and_map\<close> threads \<open>first_page\<close>, which the caller receives on success (the output
  pointer is optional in the source; ignoring the result is passing none).
\<close>

definition allocate_and_map_page ::
  "u64 \<Rightarrow> page_flags \<Rightarrow> u64 \<Rightarrow> u64 \<times> vm \<Rightarrow> bool \<times> u64 \<times> vm" where
  "allocate_and_map_page virtual_address flags i s =
     (case s of (first_page, vm) \<Rightarrow>
       (case pf_allocate (vm_frames vm) of
          (None, frames) \<Rightarrow> (False, first_page, vm\<lparr>vm_frames := frames\<rparr>)
        | (Some physical_page, frames) \<Rightarrow>
            let first_page' = (if i = 0 then physical_page else first_page);
                vm1 = vm\<lparr>vm_frames := frames,
                         vm_mem := phys_memsetq (vm_mem vm) physical_page 0 kPageSize\<rparr>
            in case map_physical vm1 (virtual_address + i * kPageSize) physical_page 1
                      (flags OR PageFlags_Present) of
                 (ok, vm2) \<Rightarrow> (ok, first_page', vm2)))"

definition allocate_and_map ::
  "vm \<Rightarrow> u64 \<Rightarrow> u64 \<Rightarrow> page_flags \<Rightarrow> u64 option \<times> vm" where
  "allocate_and_map vm virtual_address num_pages flags =
     (if num_pages = 0 \<or> virtual_address AND (kPageSize - 1) \<noteq> 0 then (None, vm)
      else case for_index (allocate_and_map_page virtual_address flags) [0 ..< unat num_pages] (0, vm) of
             (False, _, vm1) \<Rightarrow> (None, vm1)
           | (True, first_page, vm1) \<Rightarrow> (Some first_page, vm1))"

definition protect_page :: "u64 \<Rightarrow> page_flags \<Rightarrow> u64 \<Rightarrow> vm \<Rightarrow> bool \<times> vm" where
  "protect_page virtual_address flags i vm =
     (case walk_to_leaf vm (virtual_address + i * kPageSize) False False of
        (None, vm1) \<Rightarrow> (False, vm1)
      | (Some leaf, vm1) \<Rightarrow>
          if vm_mem vm1 leaf = 0 then (False, vm1)
          else
            let physical_page = vm_mem vm1 leaf AND kEntryAddressMask
            in (True, vm1\<lparr>vm_mem := (vm_mem vm1)(leaf := physical_page OR (flags OR PageFlags_Present))\<rparr>))"

definition vm_protect :: "vm \<Rightarrow> u64 \<Rightarrow> u64 \<Rightarrow> page_flags \<Rightarrow> bool \<times> vm" where
  "vm_protect vm virtual_address num_pages flags =
     (if num_pages = 0 \<or> virtual_address AND (kPageSize - 1) \<noteq> 0 then (False, vm)
      else case for_index (protect_page virtual_address flags) [0 ..< unat num_pages] vm of
             (False, vm1) \<Rightarrow> (False, vm1)
           | (True, vm1) \<Rightarrow> (True, maybe_shootdown_user_mappings virtual_address vm1))"

text \<open>
  \<open>translate\<close> reads the tables only; the pair is the physical address and the leaf flags.
\<close>

definition translate :: "phys_mem \<Rightarrow> bool \<Rightarrow> u64 \<Rightarrow> u64 \<Rightarrow> (u64 \<times> u64) option" where
  "translate mem initialized root virtual_address =
     (if \<not> initialized then None
      else
        let pml4e = mem (root + 8 * page_index virtual_address 39)
        in if pml4e = 0 then None
           else
             let pml3 = pml4e AND kEntryAddressMask;
                 pml3e = mem (pml3 + 8 * page_index virtual_address 30)
             in if pml3e = 0 then None
                else
                  let pml2 = pml3e AND kEntryAddressMask;
                      pml2e = mem (pml2 + 8 * page_index virtual_address 21)
                  in if pml2e = 0 then None
                     else if pml2e AND kEntryLargePage \<noteq> 0
                     then Some ((pml2e AND kLargePageAddressMask2MiB) OR
                                  (virtual_address AND kLargePageOffsetMask2MiB),
                                pml2e AND NOT kLargePageAddressMask2MiB)
                     else
                       let pml1 = pml2e AND kEntryAddressMask;
                           pml1e = mem (pml1 + 8 * page_index virtual_address 12)
                       in if pml1e = 0 then None
                          else Some ((pml1e AND kEntryAddressMask) OR
                                       (virtual_address AND (kPageSize - 1)),
                                     pml1e AND NOT kEntryAddressMask))"

definition vm_translate :: "vm \<Rightarrow> u64 \<Rightarrow> (u64 \<times> u64) option" where
  "vm_translate vm virtual_address = translate (vm_mem vm) (vm_initialized vm) (vm_root vm) virtual_address"

text \<open>The indices of the kernel and direct-map slots come from the generated layout header.\<close>

definition clone_kernel_mappings :: "u64 \<Rightarrow> u64 \<Rightarrow> vm \<Rightarrow> u64 \<Rightarrow> bool \<times> vm" where
  "clone_kernel_mappings kKernelPml4Index kDirectMapPml4Index vm source_root =
     (case ensure_root vm of
        (False, vm1) \<Rightarrow> (False, vm1)
      | (True, vm1) \<Rightarrow>
          let target = vm_root vm1;
              mem1 = (vm_mem vm1)(target + 8 * kKernelPml4Index :=
                        vm_mem vm1 (source_root + 8 * kKernelPml4Index));
              mem2 = mem1(target + 8 * kDirectMapPml4Index :=
                        mem1 (source_root + 8 * kDirectMapPml4Index))
          in (True, vm1\<lparr>vm_mem := mem2\<rparr>))"

section \<open>Teardown\<close>

definition free_entry :: "u64 \<Rightarrow> vm \<Rightarrow> vm" where
  "free_entry slot vm =
     vm\<lparr>vm_frames := snd (pf_free (vm_frames vm) (vm_mem vm slot AND kEntryAddressMask)),
        vm_mem := (vm_mem vm)(slot := 0)\<rparr>"

definition for_entries :: "(u64 \<Rightarrow> vm \<Rightarrow> vm) \<Rightarrow> u64 \<Rightarrow> vm \<Rightarrow> vm" where
  "for_entries body table vm =
     fold (\<lambda>i s. let slot = table + 8 * of_nat i in if vm_mem s slot \<noteq> 0 then body slot s else s)
       [0 ..< 512] vm"

text \<open>
  \<open>destroy_table(entry, level, free_leaf_pages)\<close>: \<open>entry\<close> is a reference, so it is read again
  after the loop.
\<close>

fun destroy_table :: "nat \<Rightarrow> bool \<Rightarrow> u64 \<Rightarrow> vm \<Rightarrow> vm" where
  "destroy_table level free_leaf_pages slot vm =
     (if vm_mem vm slot = 0 then vm
      else
        let table = vm_mem vm slot AND kEntryAddressMask;
            vm1 = (if level > 1
                   then for_entries (destroy_table (level - 1) free_leaf_pages) table vm
                   else if free_leaf_pages then for_entries free_entry table vm
                   else vm)
        in free_entry slot vm1)"

declare destroy_table.simps [simp del]

definition destroy_user_slot :: "vm \<Rightarrow> u64 \<Rightarrow> bool \<times> vm" where
  "destroy_user_slot vm slot =
     (if \<not> vm_initialized vm \<or> slot \<ge> 512 then (False, vm)
      else (True, maybe_shootdown_user_slot slot (destroy_table 4 True (vm_root vm + 8 * slot) vm)))"

definition vm_free_page :: "u64 \<Rightarrow> u64 \<Rightarrow> vm \<Rightarrow> bool \<times> vm" where
  "vm_free_page start_address i vm =
     (case walk_to_leaf vm (start_address + i * kPageSize) False False of
        (None, vm1) \<Rightarrow> (False, vm1)
      | (Some leaf, vm1) \<Rightarrow> if vm_mem vm1 leaf = 0 then (False, vm1) else (True, free_entry leaf vm1))"

definition vm_free_range :: "vm \<Rightarrow> u64 \<Rightarrow> u64 \<Rightarrow> bool \<times> vm" where
  "vm_free_range vm start_address num_pages =
     (if num_pages = 0 \<or> start_address AND (kPageSize - 1) \<noteq> 0 then (False, vm)
      else case for_index (vm_free_page start_address) [0 ..< unat num_pages] vm of
             (False, vm1) \<Rightarrow> (False, vm1)
           | (True, vm1) \<Rightarrow> (True, maybe_shootdown_user_mappings start_address vm1))"

definition vm_free_all :: "vm \<Rightarrow> bool \<times> vm" where
  "vm_free_all vm =
     (if vm_initialized vm then
        let vm1 = for_entries (destroy_table 4 True) (vm_root vm) vm
        in (True, vm1\<lparr>vm_frames := snd (pf_free (vm_frames vm1) (vm_root vm1)),
                      vm_root := NOT 0, vm_initialized := False\<rparr>)
      else (True, vm))"

end
