(* ===== verification/Page_Table_Tree.thy ===== *)
theory Page_Table_Tree
  imports Virtual_Memory
begin

text \<open>
  The tree a four-level page table spells in physical memory: which tables are reachable from the
  root, the invariant that they are distinct frames that the allocator does not own, and what the
  three kinds of entry update (a permission widened, a table added, a leaf written) do to the tree
  and to the leaves it carries.
\<close>

section \<open>Slots\<close>

definition slot_of :: "u64 \<Rightarrow> nat \<Rightarrow> u64" where
  "slot_of t i = t + 8 * of_nat i"

definition table_base :: "u64 \<Rightarrow> bool" where
  "table_base t \<longleftrightarrow> t AND kEntryAddressMask = t"

lemma kEntryAddressMask_eq: "kEntryAddressMask = mask 52 AND NOT (mask 12)"
  by (simp add: kEntryAddressMask_def mask_eq_exp_minus_1)

lemma table_base_iff: "table_base t \<longleftrightarrow> unat t mod 4096 = 0 \<and> unat t < 2 ^ 52"
proof -
  have "t AND kEntryAddressMask = t \<longleftrightarrow> t AND mask 52 = t \<and> t AND mask 12 = 0"
    unfolding kEntryAddressMask_eq by (auto simp: bit_eq_iff bit_simps)
  moreover have "t AND mask 52 = t \<longleftrightarrow> unat t < 2 ^ 52"
    by (simp add: take_bit_eq_mask [symmetric] word_unat_eq_iff unsigned_take_bit_eq take_bit_nat_eq_self_iff)
  moreover have "t AND mask 12 = 0 \<longleftrightarrow> unat t mod 4096 = 0"
    by (simp add: page_aligned_iff [symmetric] mask_eq_exp_minus_1)
  ultimately show ?thesis by (auto simp: table_base_def)
qed

lemma table_base_mask [simp]: "table_base (e AND kEntryAddressMask)"
  by (simp add: table_base_def and.assoc)

lemma unat_slot_of:
  assumes "table_base t" and "i < 512"
  shows "unat (slot_of t i) = unat t + 8 * i"
proof -
  have "unat (8 * of_nat i :: u64) = 8 * i"
    using assms(2) by (simp add: unat_word_ariths unat_of_nat_u64)
  then show ?thesis
    using assms unfolding slot_of_def by (subst unat_add_u64) (auto simp: table_base_iff)
qed

lemma div_by_page: "(i::nat) < 512 \<Longrightarrow> t mod 4096 = 0 \<Longrightarrow> (t + 8 * i) div 4096 = t div 4096"
  by (simp add: div_add1_eq)

lemma same_page:
  assumes "(n::nat) mod 4096 = 0" and "n \<le> x" and "x - n < 4096"
  shows "x div 4096 = n div 4096"
proof -
  from assms(1) obtain q where n: "n = 4096 * q" by auto
  with assms(2) have "x = (x - n) + 4096 * q" by simp
  then have "x div 4096 = (x - n) div 4096 + q" by (metis div_mult_self2 zero_neq_numeral add.commute)
  then show ?thesis using assms(3) n by simp
qed

lemma slot_of_eq_iff:
  assumes "table_base t" "table_base t'" "i < 512" "i' < 512"
  shows "slot_of t i = slot_of t' i' \<longleftrightarrow> t = t' \<and> i = i'"
proof
  assume eq: "slot_of t i = slot_of t' i'"
  then have u: "unat t + 8 * i = unat t' + 8 * i'"
    using assms by (simp add: unat_slot_of [symmetric])
  from assms have a: "unat t mod 4096 = 0" "unat t' mod 4096 = 0" by (simp_all add: table_base_iff)
  have "unat t div 4096 = unat t' div 4096"
    using u div_by_page [OF assms(3) a(1)] div_by_page [OF assms(4) a(2)] by simp
  then have "unat t = unat t'" using a by (metis div_mult_mod_eq)
  with u show "t = t' \<and> i = i'" by (simp add: word_unat_eq_iff)
qed simp

lemma slot_of_in_page:
  assumes "table_base t" "table_base n" "i < 512"
  shows "unat (slot_of t i - n) < 4096 \<longleftrightarrow> t = n"
proof (cases "unat n \<le> unat (slot_of t i)")
  case True
  from assms have a: "unat t mod 4096 = 0" "unat n mod 4096 = 0" by (simp_all add: table_base_iff)
  have eq: "unat (slot_of t i - n) = unat t + 8 * i - unat n"
    using True assms by (simp add: unat_sub_le unat_slot_of)
  show ?thesis
  proof
    assume lt: "unat (slot_of t i - n) < 4096"
    have "unat n \<le> unat t + 8 * i" using True assms by (simp add: unat_slot_of)
    with lt eq have "(unat t + 8 * i) div 4096 = unat n div 4096"
      using a(2) by (intro same_page) simp_all
    then have "unat t = unat n" using a div_by_page [OF assms(3) a(1)] by (metis div_mult_mod_eq)
    then show "t = n" by (simp add: word_unat_eq_iff)
  next
    assume "t = n"
    then show "unat (slot_of t i - n) < 4096" using eq assms(3) by simp
  qed
next
  case False
  have b: "unat n < 2 ^ 52" using assms(2) by (simp add: table_base_iff)
  have "unat (slot_of t i - n) = unat (slot_of t i) + 2 ^ 64 - unat n"
    using False by (simp add: unat_sub_if_size word_size)
  moreover have "t \<noteq> n" using False assms(3) unat_slot_of [OF assms(1,3)] by auto
  ultimately show ?thesis using b by simp
qed

section \<open>The tree\<close>

definition large_entry :: "u64 \<Rightarrow> bool" where
  "large_entry e \<longleftrightarrow> e AND kEntryLargePage \<noteq> 0"

text \<open>
  The table at the end of a path of indices, the innermost index first. Paths have at most three
  indices; an entry of a third-level table with the large-page bit is a leaf, not a table.
\<close>

fun table_at :: "phys_mem \<Rightarrow> u64 \<Rightarrow> nat list \<Rightarrow> u64 option" where
  "table_at mem root [] = Some root"
| "table_at mem root (i # p) =
     (case table_at mem root p of
        None \<Rightarrow> None
      | Some t \<Rightarrow>
          let e = mem (slot_of t i)
          in if e = 0 \<or> length p = 2 \<and> large_entry e then None else Some (e AND kEntryAddressMask))"

definition path_ok :: "nat list \<Rightarrow> bool" where
  "path_ok p \<longleftrightarrow> length p \<le> 3 \<and> (\<forall>i \<in> set p. i < 512)"

lemma path_ok_simps [simp]:
  "path_ok []" "path_ok (i # p) \<longleftrightarrow> i < 512 \<and> length p \<le> 2 \<and> path_ok p"
  by (auto simp: path_ok_def)

text \<open>
  The tree invariant: reachable tables are distinct, none of them is a frame the allocator could
  hand out, and every such frame fits the address field of an entry.
\<close>

definition tree_ok :: "phys_mem \<Rightarrow> u64 \<Rightarrow> u64 set \<Rightarrow> bool" where
  "tree_ok mem root F \<longleftrightarrow>
     table_base root \<and>
     (\<forall>p q t. path_ok p \<longrightarrow> path_ok q \<longrightarrow> table_at mem root p = Some t \<longrightarrow>
        table_at mem root q = Some t \<longrightarrow> p = q) \<and>
     (\<forall>p t. path_ok p \<longrightarrow> table_at mem root p = Some t \<longrightarrow> t \<notin> F) \<and>
     (\<forall>a \<in> F. table_base a)"

lemma table_at_base: "table_base root \<Longrightarrow> table_at mem root p = Some t \<Longrightarrow> table_base t"
  by (cases p) (auto simp: Let_def split: option.splits if_splits)

lemma tree_ok_base: "tree_ok mem root F \<Longrightarrow> table_at mem root p = Some t \<Longrightarrow> table_base t"
  using table_at_base by (auto simp: tree_ok_def)

lemma tree_ok_inj:
  "tree_ok mem root F \<Longrightarrow> path_ok p \<Longrightarrow> path_ok q \<Longrightarrow> table_at mem root p = Some t \<Longrightarrow>
   table_at mem root q = Some t \<Longrightarrow> p = q"
  unfolding tree_ok_def by blast

lemma tree_ok_slot_inj:
  assumes "tree_ok mem root F" and "path_ok p" "path_ok q" "i < 512" "j < 512"
    and "table_at mem root p = Some t" "table_at mem root q = Some t'"
  shows "slot_of t i = slot_of t' j \<longleftrightarrow> p = q \<and> i = j"
proof -
  have "slot_of t i = slot_of t' j \<longleftrightarrow> t = t' \<and> i = j"
    using assms tree_ok_base by (intro slot_of_eq_iff) auto
  moreover have "t = t' \<longleftrightarrow> p = q" using assms tree_ok_inj by fastforce
  ultimately show ?thesis by simp
qed

lemma tree_ok_mono: "tree_ok mem root F \<Longrightarrow> F' \<subseteq> F \<Longrightarrow> tree_ok mem root F'"
  unfolding tree_ok_def by blast

lemma tree_ok_fresh:
  "tree_ok mem root F \<Longrightarrow> n \<in> F \<Longrightarrow> path_ok p \<Longrightarrow> table_at mem root p = Some t \<Longrightarrow> t \<noteq> n"
  unfolding tree_ok_def by blast

section \<open>Leaves\<close>

definition idx :: "u64 \<Rightarrow> nat \<Rightarrow> nat" where
  "idx va shift = unat (page_index va shift)"

lemma idx_less [simp]: "idx va shift < 512"
proof -
  have "page_index va shift = take_bit 9 (drop_bit shift va)"
    by (simp add: page_index_def take_bit_eq_mask mask_eq_exp_minus_1)
  then show ?thesis using take_bit_nat_less_exp [of 9 "unat (drop_bit shift va)"]
    by (simp add: idx_def unsigned_take_bit_eq)
qed

lemma slot_of_page_index: "t + 8 * page_index va shift = slot_of t (idx va shift)"
  by (simp add: slot_of_def idx_def)

text \<open>The entry that maps an address, and whether it is a 2 MiB leaf.\<close>

definition leaf_at :: "phys_mem \<Rightarrow> u64 \<Rightarrow> u64 \<Rightarrow> (bool \<times> u64) option" where
  "leaf_at mem root va =
     (case table_at mem root [idx va 30, idx va 39] of
        None \<Rightarrow> None
      | Some t2 \<Rightarrow>
          let e2 = mem (slot_of t2 (idx va 21))
          in if e2 = 0 then None
             else if large_entry e2 then Some (True, e2)
             else
               let e1 = mem (slot_of (e2 AND kEntryAddressMask) (idx va 12))
               in if e1 = 0 then None else Some (False, e1))"

definition decode_leaf :: "u64 \<Rightarrow> bool \<times> u64 \<Rightarrow> u64 \<times> u64" where
  "decode_leaf va l =
     (if fst l
      then ((snd l AND kLargePageAddressMask2MiB) OR (va AND kLargePageOffsetMask2MiB),
            snd l AND NOT kLargePageAddressMask2MiB)
      else ((snd l AND kEntryAddressMask) OR (va AND (kPageSize - 1)), snd l AND NOT kEntryAddressMask))"

lemma translate_leaf_at: "translate mem True root va = map_option (decode_leaf va) (leaf_at mem root va)"
  by (simp add: translate_def leaf_at_def decode_leaf_def slot_of_page_index large_entry_def Let_def)

section \<open>Entry updates\<close>

lemma table_at_widen:
  assumes "e' \<noteq> 0 \<longleftrightarrow> mem s \<noteq> 0" and "large_entry e' = large_entry (mem s)"
    and "e' AND kEntryAddressMask = mem s AND kEntryAddressMask"
  shows "table_at (mem(s := e')) root q = table_at mem root q"
  using assms by (induction q) (auto simp: Let_def split: option.split)

lemma leaf_at_widen:
  assumes ok: "tree_ok mem root F" and p: "path_ok p" "length p \<le> 2" "i < 512" "table_at mem root p = Some t"
    and e: "e' \<noteq> 0 \<longleftrightarrow> mem (slot_of t i) \<noteq> 0" "large_entry e' = large_entry (mem (slot_of t i))"
      "e' AND kEntryAddressMask = mem (slot_of t i) AND kEntryAddressMask"
    and small: "length p = 2 \<Longrightarrow> \<not> large_entry (mem (slot_of t i))"
  shows "leaf_at (mem(slot_of t i := e')) root va = leaf_at mem root va"
proof (cases "table_at mem root [idx va 30, idx va 39]")
  case None
  then show ?thesis by (simp only: leaf_at_def table_at_widen [of e' mem, OF e]) simp
next
  case (Some t2)
  let ?e2 = "mem (slot_of t2 (idx va 21))" and ?m = "mem(slot_of t i := e')"
  have s: "slot_of t2 (idx va 21) = slot_of t i \<longleftrightarrow> [idx va 30, idx va 39] = p \<and> idx va 21 = i"
    using Some p by (intro tree_ok_slot_inj [OF ok]) auto
  have "slot_of (?e2 AND kEntryAddressMask) (idx va 12) \<noteq> slot_of t i" if "?e2 \<noteq> 0" "\<not> large_entry ?e2"
  proof -
    have "table_at mem root [idx va 21, idx va 30, idx va 39] = Some (?e2 AND kEntryAddressMask)"
      using Some that by (simp add: Let_def)
    then have "slot_of (?e2 AND kEntryAddressMask) (idx va 12) = slot_of t i \<longleftrightarrow>
        [idx va 21, idx va 30, idx va 39] = p \<and> idx va 12 = i"
      using p by (intro tree_ok_slot_inj [OF ok]) auto
    then show ?thesis using p(2) by auto
  qed
  with Some s e small show ?thesis
    unfolding leaf_at_def table_at_widen [of e' mem, OF e] Let_def
    by (cases "slot_of t2 (idx va 21) = slot_of t i") auto
qed

text \<open>A leaf write: the tables stay, and only the addresses of that page change their leaf.\<close>

lemma table_at_leaf_write:
  assumes ok: "tree_ok mem root F" and p: "path_ok p" "length p = 3" "i < 512" "table_at mem root p = Some t"
  shows "path_ok q \<Longrightarrow> table_at (mem(slot_of t i := e)) root q = table_at mem root q"
proof (induction q)
  case (Cons j q)
  then have IH: "table_at (mem(slot_of t i := e)) root q = table_at mem root q"
    by (simp del: fun_upd_apply)
  show ?case
  proof (cases "table_at mem root q")
    case (Some t')
    then have "slot_of t' j = slot_of t i \<longleftrightarrow> q = p \<and> j = i"
      using Cons.prems p by (intro tree_ok_slot_inj [OF ok]) auto
    then have "(mem(slot_of t i := e)) (slot_of t' j) = mem (slot_of t' j)" using Cons.prems p(2) by auto
    then show ?thesis using Some IH by (simp add: Let_def del: fun_upd_apply)
  qed (simp add: IH del: fun_upd_apply)
qed simp

definition page_path :: "u64 \<Rightarrow> nat list" where
  "page_path va = [idx va 12, idx va 21, idx va 30, idx va 39]"

lemma leaf_at_leaf_write:
  assumes ok: "tree_ok mem root F" and p: "path_ok p" "length p = 3" "i < 512" "table_at mem root p = Some t"
  shows "leaf_at (mem(slot_of t i := e)) root va =
    (if page_path va = i # p then (if e = 0 then None else Some (False, e)) else leaf_at mem root va)"
proof -
  let ?m = "mem(slot_of t i := e)"
  let ?p2 = "[idx va 30, idx va 39]" and ?p1 = "[idx va 21, idx va 30, idx va 39]"
  have eq: "table_at ?m root ?p2 = table_at mem root ?p2"
    by (rule table_at_leaf_write [OF assms]) simp
  show ?thesis
  proof (cases "table_at mem root ?p2")
    case None
    then have "page_path va \<noteq> i # p" using p by (auto simp: page_path_def split: option.splits)
    then show ?thesis using None eq by (simp add: leaf_at_def del: table_at.simps fun_upd_apply)
  next
    case (Some t2)
    let ?e2 = "mem (slot_of t2 (idx va 21))"
    have "slot_of t2 (idx va 21) = slot_of t i \<longleftrightarrow> ?p2 = p \<and> idx va 21 = i"
      using Some p by (intro tree_ok_slot_inj [OF ok]) auto
    then have s2: "?m (slot_of t2 (idx va 21)) = ?e2" using p(2) by auto
    show ?thesis
    proof (cases "?e2 = 0 \<or> large_entry ?e2")
      case True
      with Some p have "page_path va \<noteq> i # p" by (auto simp: page_path_def Let_def split: if_splits)
      with True Some s2 eq show ?thesis
        by (auto simp add: leaf_at_def Let_def simp del: table_at.simps fun_upd_apply)
    next
      case False
      with Some have t1: "table_at mem root ?p1 = Some (?e2 AND kEntryAddressMask)" by (simp add: Let_def)
      have "slot_of (?e2 AND kEntryAddressMask) (idx va 12) = slot_of t i \<longleftrightarrow> ?p1 = p \<and> idx va 12 = i"
        using t1 p by (intro tree_ok_slot_inj [OF ok]) auto
      then have "?m (slot_of (?e2 AND kEntryAddressMask) (idx va 12)) =
          (if page_path va = i # p then e else mem (slot_of (?e2 AND kEntryAddressMask) (idx va 12)))"
        by (auto simp: page_path_def)
      with False Some s2 eq show ?thesis
        by (simp add: leaf_at_def Let_def del: table_at.simps fun_upd_apply)
    qed
  qed
qed

text \<open>A new table: it appears at its path, empty, and no address changes its leaf.\<close>

lemma phys_memsetq_slot:
  assumes "table_base n" "table_base t" "i < 512"
  shows "phys_memsetq mem n 0 kPageSize (slot_of t i) = (if t = n then 0 else mem (slot_of t i))"
  using slot_of_in_page [OF assms(2,1,3)] by (simp add: phys_memsetq_def)

definition new_table ::
  "phys_mem \<Rightarrow> u64 \<Rightarrow> u64 set \<Rightarrow> nat list \<Rightarrow> nat \<Rightarrow> u64 \<Rightarrow> u64 \<Rightarrow> u64 \<Rightarrow> phys_mem \<Rightarrow> bool" where
  "new_table mem root F p i t n e' mem' \<longleftrightarrow>
     tree_ok mem root F \<and> path_ok p \<and> length p \<le> 2 \<and> i < 512 \<and> table_at mem root p = Some t \<and>
     mem (slot_of t i) = 0 \<and> n \<in> F \<and>
     e' \<noteq> 0 \<and> \<not> large_entry e' \<and> e' AND kEntryAddressMask = n \<and>
     mem' = (phys_memsetq mem n 0 kPageSize)(slot_of t i := e')"

lemma new_tableD:
  assumes "new_table mem root F p i t n e' mem'"
  shows "tree_ok mem root F" "path_ok p" "length p \<le> 2" "i < 512" "table_at mem root p = Some t"
    "mem (slot_of t i) = 0" "n \<in> F" "e' \<noteq> 0" "\<not> large_entry e'" "e' AND kEntryAddressMask = n"
    "mem' = (phys_memsetq mem n 0 kPageSize)(slot_of t i := e')"
    "table_base n" "table_base t" "n \<noteq> t"
proof -
  note a = assms [unfolded new_table_def]
  from a show ok: "tree_ok mem root F" and p: "path_ok p" and "length p \<le> 2" "i < 512"
    and t: "table_at mem root p = Some t" and "mem (slot_of t i) = 0" and n: "n \<in> F"
    and "e' \<noteq> 0" "\<not> large_entry e'" "e' AND kEntryAddressMask = n"
      "mem' = (phys_memsetq mem n 0 kPageSize)(slot_of t i := e')"
    by blast+
  show "table_base n" using ok n by (simp add: tree_ok_def)
  show "table_base t" using ok t by (rule tree_ok_base)
  show "n \<noteq> t" using tree_ok_fresh [OF ok n p t] by simp
qed

lemma read_new:
  assumes new: "new_table mem root F p i t n e' mem'"
  shows "j < 512 \<Longrightarrow> mem' (slot_of n j) = 0"
  using slot_of_eq_iff [OF new_tableD(12,13) [OF new], where i = j and i' = i] new_tableD(4,11,14) [OF new]
    phys_memsetq_slot [OF new_tableD(12) [OF new] new_tableD(12) [OF new]]
  by simp

lemma read_old:
  assumes new: "new_table mem root F p i t n e' mem'" and q: "path_ok q" "j < 512" "table_at mem root q = Some t'"
  shows "mem' (slot_of t' j) = (if q = p \<and> j = i then e' else mem (slot_of t' j))"
proof -
  note new_tableD [OF new]
  then have "t' \<noteq> n" using tree_ok_fresh q(1,3) by blast
  moreover have "slot_of t' j = slot_of t i \<longleftrightarrow> q = p \<and> j = i"
    using q new_tableD [OF new] by (intro tree_ok_slot_inj [of mem root F]) auto
  moreover have "table_base t'" using tree_ok_base [OF new_tableD(1) [OF new] q(3)] .
  ultimately show ?thesis
    using phys_memsetq_slot [OF new_tableD(12) [OF new] _ q(2), of t' mem] new_tableD(11) [OF new] by simp
qed

lemma table_at_new:
  assumes new: "new_table mem root F p i t n e' mem'"
  shows "path_ok q \<Longrightarrow> table_at mem' root q = (if q = i # p then Some n else table_at mem root q)"
proof (induction q)
  case (Cons j q)
  then have IH: "table_at mem' root q = (if q = i # p then Some n else table_at mem root q)"
    and q: "path_ok q" "j < 512" by simp_all
  show ?case
  proof (cases "q = i # p")
    case True
    with IH q(2) new_tableD(5,6) [OF new] show ?thesis by (simp add: read_new [OF new] Let_def)
  next
    case False
    show ?thesis
    proof (cases "table_at mem root q")
      case None
      then show ?thesis using IH False new_tableD(5) [OF new] by auto
    next
      case (Some t')
      then show ?thesis
        using IH False read_old [OF new q Some] new_tableD(5,8,9,10) [OF new] by (auto simp: Let_def)
    qed
  qed
qed simp

lemma tree_ok_new:
  assumes new: "new_table mem root F p i t n e' mem'"
  shows "tree_ok mem' root (F - {n})"
proof -
  note ok = new_tableD(1) [OF new] and n = new_tableD(7) [OF new]
  have cases: "q = i # p \<and> t' = n \<or> q \<noteq> i # p \<and> t' \<noteq> n \<and> table_at mem root q = Some t'"
    if "path_ok q" "table_at mem' root q = Some t'" for q t'
    using that(2) tree_ok_fresh [OF ok n that(1)] unfolding table_at_new [OF new that(1)]
    by (auto split: if_splits simp del: table_at.simps)
  have "table_base root" "\<forall>a \<in> F - {n}. table_base a" using ok unfolding tree_ok_def by blast+
  moreover have "q = r"
    if "path_ok q" "path_ok r" "table_at mem' root q = Some t'" "table_at mem' root r = Some t'" for q r t'
    using cases [OF that(1,3)] cases [OF that(2,4)] tree_ok_inj [OF ok that(1,2)] by blast
  moreover have "t' \<notin> F - {n}" if "path_ok q" "table_at mem' root q = Some t'" for q t'
    using cases [OF that] ok that(1) unfolding tree_ok_def by blast
  ultimately show ?thesis unfolding tree_ok_def by blast
qed

lemma leaf_at_new:
  assumes new: "new_table mem root F p i t n e' mem'"
  shows "leaf_at mem' root va = leaf_at mem root va"
proof -
  let ?p2 = "[idx va 30, idx va 39]" and ?p1 = "[idx va 21, idx va 30, idx va 39]"
  have t2: "table_at mem' root ?p2 = (if ?p2 = i # p then Some n else table_at mem root ?p2)"
    by (rule table_at_new [OF new]) simp
  show ?thesis
  proof (cases "table_at mem root ?p2")
    case None
    then show ?thesis using t2 by (auto simp: leaf_at_def read_new [OF new] Let_def simp del: table_at.simps)
  next
    case (Some t2')
    have ne: "?p2 \<noteq> i # p" using Some new_tableD(5,6) [OF new] by auto
    then have t2s: "table_at mem' root ?p2 = Some t2'" using t2 Some by (simp only: if_False)
    let ?e2 = "mem (slot_of t2' (idx va 21))"
    have r2: "mem' (slot_of t2' (idx va 21)) = (if ?p2 = p \<and> idx va 21 = i then e' else ?e2)"
      using Some by (intro read_old [OF new]) auto
    show ?thesis
    proof (cases "?p2 = p \<and> idx va 21 = i")
      case True
      then have "?e2 = 0" "mem' (slot_of t2' (idx va 21)) = e'"
        using r2 Some new_tableD(5,6) [OF new] by auto
      then show ?thesis using Some t2s new_tableD(8,9,10) [OF new]
        by (simp add: leaf_at_def read_new [OF new] Let_def del: table_at.simps)
    next
      case False
      have "mem' (slot_of (?e2 AND kEntryAddressMask) (idx va 12)) = mem (slot_of (?e2 AND kEntryAddressMask) (idx va 12))"
        if "?e2 \<noteq> 0" "\<not> large_entry ?e2"
      proof -
        have "table_at mem root ?p1 = Some (?e2 AND kEntryAddressMask)"
          using Some that by (simp add: Let_def)
        then have "mem' (slot_of (?e2 AND kEntryAddressMask) (idx va 12)) =
            (if ?p1 = p \<and> idx va 12 = i then e' else mem (slot_of (?e2 AND kEntryAddressMask) (idx va 12)))"
          by (intro read_old [OF new]) auto
        then show ?thesis using new_tableD(3) [OF new] by auto
      qed
      moreover have "mem' (slot_of t2' (idx va 21)) = ?e2" using r2 False by (simp only: if_False)
      ultimately show ?thesis using Some t2s
        by (cases "?e2 = 0 \<or> large_entry ?e2") (auto simp add: leaf_at_def Let_def simp del: table_at.simps)
    qed
  qed
qed

lemma tree_ok_cong:
  assumes "tree_ok mem root F" and "\<And>q. path_ok q \<Longrightarrow> table_at mem' root q = table_at mem root q"
  shows "tree_ok mem' root F"
  using assms unfolding tree_ok_def by metis

lemma tree_ok_root:
  assumes "n \<in> F" and "\<forall>a \<in> F. table_base a"
  shows "tree_ok (phys_memsetq mem n 0 kPageSize) n (F - {n})"
proof -
  have n: "table_base n" using assms by blast
  have "table_at (phys_memsetq mem n 0 kPageSize) n q = (if q = [] then Some n else None)" if "path_ok q" for q
    using that by (induction q) (auto simp: phys_memsetq_slot n Let_def split: option.splits)
  then show ?thesis using assms n unfolding tree_ok_def by (auto split: if_splits)
qed

lemma leaf_at_root: "table_base n \<Longrightarrow> leaf_at (phys_memsetq mem n 0 kPageSize) n va = None"
  by (simp add: leaf_at_def phys_memsetq_slot Let_def)

section \<open>Virtual page numbers\<close>

definition vpn :: "u64 \<Rightarrow> nat" where
  "vpn va = (unat va div 4096) mod 2 ^ 36"

lemma idx_eq: "idx va shift = unat va div 2 ^ shift mod 512"
proof -
  have "page_index va shift = take_bit 9 (drop_bit shift va)"
    by (simp add: page_index_def take_bit_eq_mask mask_eq_exp_minus_1)
  then show ?thesis
    by (simp add: idx_def unsigned_take_bit_eq unat_drop_bit take_bit_eq_mod [where 'a = nat])
qed

lemma digit_eq:
  assumes "b < 512" "d < 512"
  shows "512 * (a::nat) + b = 512 * c + d \<longleftrightarrow> a = c \<and> b = d"
proof
  assume eq: "512 * a + b = 512 * c + d"
  then have "(512 * a + b) mod 512 = (512 * c + d) mod 512" by simp
  with assms have "b = d" by simp
  with eq show "a = c \<and> b = d" by simp
qed simp

lemma vpn_digits:
  "vpn va = 512 * (512 * (512 * idx va 39 + idx va 30) + idx va 21) + idx va 12"
proof -
  define x where "x = unat va div 4096"
  have "x mod 2 ^ 36 = x mod (512 * (512 * (512 * 512)))" by simp
  also have "\<dots> = 512 * (512 * (512 * (x div 512 div 512 div 512 mod 512) + x div 512 div 512 mod 512)
      + x div 512 mod 512) + x mod 512"
    by (simp only: mod_mult2_eq)
  finally show ?thesis by (simp add: vpn_def x_def idx_eq div_mult2_eq [symmetric])
qed

lemma page_path_eq_iff: "page_path va = page_path va' \<longleftrightarrow> vpn va = vpn va'"
  unfolding page_path_def vpn_digits digit_eq [OF idx_less idx_less] by auto

lemma unat_page_step:
  "unat (va + of_nat k * kPageSize) div 4096 mod 2 ^ 36 = (unat va div 4096 + k) mod 2 ^ 36"
proof -
  have "unat (va + of_nat k * kPageSize) = (unat va + k * 4096) mod 2 ^ 64"
    by (simp add: unat_word_ariths unsigned_of_nat take_bit_eq_mod mod_simps)
  moreover have "x mod 2 ^ 64 div 4096 mod 2 ^ 36 = x div 4096 mod 2 ^ 36" for x :: nat
  proof -
    have "x mod (4096 * 2 ^ 52) div 4096 = x div 4096 mod 2 ^ 52" by (rule mod_mult2_eq [THEN arg_cong, of "\<lambda>y. y div 4096", THEN trans]) simp
    then show ?thesis by (simp add: mod_mod_cancel)
  qed
  ultimately show ?thesis by (simp add: add.commute)
qed

end
