(* ===== verification/Virtual_Memory_Spec.thy ===== *)
theory Virtual_Memory_Spec
  imports Page_Table_Tree
begin

text \<open>
  What the page-table operations do to the address space a root describes. The invariant of the
  manager is the tree invariant of theory \<open>Page_Table_Tree\<close> together with the allocator's; an
  operation is described by the leaves it changes, and \<open>translate\<close> is a function of the leaf.
\<close>

definition vm_inv :: "vm \<Rightarrow> bool" where
  "vm_inv vm \<longleftrightarrow> pf_inv (vm_frames vm) \<and> (\<forall>a \<in> free_addrs (vm_frames vm). table_base a) \<and>
     (vm_initialized vm \<longrightarrow> tree_ok (vm_mem vm) (vm_root vm) (free_addrs (vm_frames vm)))"

definition vm_leaf :: "vm \<Rightarrow> u64 \<Rightarrow> (bool \<times> u64) option" where
  "vm_leaf vm va = (if vm_initialized vm then leaf_at (vm_mem vm) (vm_root vm) va else None)"

definition large_mapped :: "vm \<Rightarrow> u64 \<Rightarrow> bool" where
  "large_mapped vm va \<longleftrightarrow> (case vm_leaf vm va of Some (l, _) \<Rightarrow> l | None \<Rightarrow> False)"

lemma vm_translate_leaf: "vm_translate vm va = map_option (decode_leaf va) (vm_leaf vm va)"
proof (cases "vm_initialized vm")
  case True
  then show ?thesis by (simp add: vm_translate_def vm_leaf_def translate_leaf_at)
qed (simp add: vm_translate_def vm_leaf_def translate_def)

text \<open>A step that only grows the tree: no leaf changes, and every table stays where it was.\<close>

definition vm_grows :: "vm \<Rightarrow> vm \<Rightarrow> bool" where
  "vm_grows vm vm' \<longleftrightarrow> vm_inv vm' \<and> vm_leaf vm' = vm_leaf vm \<and>
     free_addrs (vm_frames vm') \<subseteq> free_addrs (vm_frames vm) \<and>
     vm_shootdowns vm' = vm_shootdowns vm \<and>
     (vm_initialized vm \<longrightarrow> vm_initialized vm' \<and> vm_root vm' = vm_root vm \<and>
       (\<forall>q t. path_ok q \<longrightarrow> table_at (vm_mem vm) (vm_root vm) q = Some t \<longrightarrow>
          table_at (vm_mem vm') (vm_root vm) q = Some t))"

lemma vm_grows_refl: "vm_inv vm \<Longrightarrow> vm_grows vm vm"
  by (simp add: vm_grows_def)

lemma vm_grows_trans: "vm_grows a b \<Longrightarrow> vm_grows b c \<Longrightarrow> vm_grows a c"
  unfolding vm_grows_def by (auto dest: order_trans)

lemma vm_alloc_Some:
  assumes "vm_inv vm" and "pf_allocate (vm_frames vm) = (Some n, frames)"
  shows "n \<in> free_addrs (vm_frames vm)" "pf_inv frames"
    "free_addrs frames = free_addrs (vm_frames vm) - {n}" "table_base n"
  using assms pf.alloc_Some [of "vm_frames vm" n frames] by (auto simp: vm_inv_def)

lemma vm_alloc_None:
  assumes "vm_inv vm" and "pf_allocate (vm_frames vm) = (None, frames)"
  shows "frames = vm_frames vm" "free_addrs frames = {}"
  using assms pf.alloc_None [of "vm_frames vm" frames] by (auto simp: vm_inv_def)

lemma ensure_root_spec:
  assumes inv: "vm_inv vm" and eq: "ensure_root vm = (ok, vm')"
  shows "vm_grows vm vm' \<and> (if ok then vm_initialized vm' else free_addrs (vm_frames vm') = {})"
proof (cases "vm_initialized vm")
  case True
  then show ?thesis using eq inv by (auto simp: ensure_root_def vm_grows_refl)
next
  case False
  show ?thesis
  proof (cases "pf_allocate (vm_frames vm)")
    case (Pair r frames)
    show ?thesis
    proof (cases r)
      case None
      with Pair have a: "pf_allocate (vm_frames vm) = (None, frames)" by simp
      have "vm' = vm" "\<not> ok" using eq False vm_alloc_None [OF inv a] by (auto simp: ensure_root_def a)
      then show ?thesis using vm_alloc_None [OF inv a] inv by (simp add: vm_grows_refl)
    next
      case (Some n)
      with Pair have a: "pf_allocate (vm_frames vm) = (Some n, frames)" by simp
      note n = vm_alloc_Some [OF inv a]
      have "\<forall>a \<in> free_addrs (vm_frames vm). table_base a" using inv by (simp add: vm_inv_def)
      from tree_ok_root [OF n(1) this] show ?thesis
        using eq False n inv
        by (auto simp: ensure_root_def a vm_grows_def vm_inv_def vm_leaf_def leaf_at_root fun_eq_iff)
    qed
  qed
qed

section \<open>One level of the walk\<close>

lemma user_flag_entry:
  "large_entry (e OR PageFlags_User) = large_entry e"
  "(e OR PageFlags_User) AND kEntryAddressMask = e AND kEntryAddressMask"
  "e OR PageFlags_User \<noteq> 0"
proof -
  have "(e OR PageFlags_User) AND kEntryLargePage = e AND kEntryLargePage"
    "(e OR PageFlags_User) AND kEntryAddressMask = e AND kEntryAddressMask"
    by (simp_all add: PageFlags_User_def kEntryLargePage_def kEntryAddressMask_def bit.conj_disj_distrib2)
  then show "large_entry (e OR PageFlags_User) = large_entry e"
    "(e OR PageFlags_User) AND kEntryAddressMask = e AND kEntryAddressMask"
    by (simp_all add: large_entry_def)
  show "e OR PageFlags_User \<noteq> 0" by (simp add: PageFlags_User_def or_eq_0_iff)
qed

lemma table_entry:
  assumes "table_base n"
  shows "(n AND kEntryAddressMask) OR table_entry_flags u \<noteq> 0"
    "\<not> large_entry ((n AND kEntryAddressMask) OR table_entry_flags u)"
    "((n AND kEntryAddressMask) OR table_entry_flags u) AND kEntryAddressMask = n"
proof -
  have f: "table_entry_flags u = (if u then 7 else 3)"
    by (simp add: table_entry_flags_def PageFlags_Present_def PageFlags_Write_def PageFlags_User_def)
  have "(n AND kEntryAddressMask) AND kEntryLargePage = 0"
    by (simp add: and.assoc kEntryLargePage_def kEntryAddressMask_def)
  then have "((n AND kEntryAddressMask) OR table_entry_flags u) AND kEntryLargePage = 0"
    by (simp add: f bit.conj_disj_distrib2 kEntryLargePage_def)
  then show "\<not> large_entry ((n AND kEntryAddressMask) OR table_entry_flags u)"
    by (simp add: large_entry_def)
  have "n AND kEntryAddressMask = n" using assms by (simp add: table_base_def)
  moreover have "table_entry_flags u AND kEntryAddressMask = 0"
    by (simp add: f kEntryAddressMask_def)
  ultimately show "((n AND kEntryAddressMask) OR table_entry_flags u) AND kEntryAddressMask = n"
    by (simp add: bit.conj_disj_distrib2)
  show "(n AND kEntryAddressMask) OR table_entry_flags u \<noteq> 0" by (simp add: f or_eq_0_iff)
qed

text \<open>
  A level of the creating walk from a table of the tree grows the tree and ends at the table of the
  longer path, or fails because the allocator is empty.
\<close>

lemma walk_level_create:
  assumes inv: "vm_inv vm" and init: "vm_initialized vm"
    and p: "path_ok p" "length p \<le> 2" "table_at (vm_mem vm) (vm_root vm) p = Some t" and i: "i < 512"
    and small: "length p = 2 \<Longrightarrow> \<not> large_entry (vm_mem vm (slot_of t i))"
    and eq: "walk_level vm t (of_nat i) True u = (r, vm')"
  shows "vm_grows vm vm' \<and>
    (case r of None \<Rightarrow> free_addrs (vm_frames vm') = {}
     | Some t' \<Rightarrow> table_at (vm_mem vm') (vm_root vm') (i # p) = Some t')"
proof -
  let ?e = "vm_mem vm (slot_of t i)" and ?F = "free_addrs (vm_frames vm)"
  have s: "t + 8 * of_nat i = slot_of t i" by (simp add: slot_of_def)
  have ok: "tree_ok (vm_mem vm) (vm_root vm) ?F" using inv init by (simp add: vm_inv_def)
  consider (widen) "?e \<noteq> 0" "u" | (same) "?e \<noteq> 0" "\<not> u" | (new) "?e = 0" by blast
  then show ?thesis
  proof cases
    case widen
    note e = user_flag_entry [of ?e]
    let ?m = "(vm_mem vm)(slot_of t i := ?e OR PageFlags_User)"
    have vm': "vm' = vm\<lparr>vm_mem := ?m\<rparr>" and r: "r = Some (?e AND kEntryAddressMask)"
      using eq widen e by (auto simp: walk_level_def Let_def s ensure_table_entry_def)
    have t: "table_at ?m (vm_root vm) q = table_at (vm_mem vm) (vm_root vm) q" for q
      using widen(1) e by (intro table_at_widen) auto
    have "leaf_at ?m (vm_root vm) va = leaf_at (vm_mem vm) (vm_root vm) va" for va
      using widen(1) e small by (intro leaf_at_widen [OF ok p(1,2) i p(3)]) auto
    moreover have "tree_ok ?m (vm_root vm) ?F" using ok by (rule tree_ok_cong) (rule t)
    moreover have "table_at (vm_mem vm) (vm_root vm) (i # p) = Some (?e AND kEntryAddressMask)"
      using p(3) widen(1) small by (simp add: Let_def)
    ultimately show ?thesis
      using inv init unfolding vm' r
      by (simp add: vm_grows_def vm_inv_def vm_leaf_def fun_eq_iff t del: table_at.simps fun_upd_apply)
  next
    case same
    then have "vm' = vm" "r = Some (?e AND kEntryAddressMask)"
      using eq by (auto simp: walk_level_def Let_def s ensure_table_entry_def)
    then show ?thesis using p(3) same small inv by (auto simp: vm_grows_refl Let_def)
  next
    case new
    show ?thesis
    proof (cases "pf_allocate (vm_frames vm)")
      case (Pair a frames)
      show ?thesis
      proof (cases a)
        case None
        with Pair have a: "pf_allocate (vm_frames vm) = (None, frames)" by simp
        have "vm' = vm" "r = None"
          using eq new vm_alloc_None [OF inv a]
          by (auto simp: walk_level_def Let_def s ensure_table_entry_def a)
        then show ?thesis using inv vm_alloc_None [OF inv a] by (simp add: vm_grows_refl)
      next
        case (Some n)
        with Pair have a: "pf_allocate (vm_frames vm) = (Some n, frames)" by simp
        note n = vm_alloc_Some [OF inv a] and e = table_entry [OF vm_alloc_Some(4) [OF inv a], of u]
        let ?e' = "(n AND kEntryAddressMask) OR table_entry_flags u"
        let ?m = "(phys_memsetq (vm_mem vm) n 0 kPageSize)(slot_of t i := ?e')"
        have new_t: "new_table (vm_mem vm) (vm_root vm) ?F p i t n ?e' ?m"
          using ok p i new n e by (simp add: new_table_def)
        have vm': "vm' = vm\<lparr>vm_frames := frames, vm_mem := ?m\<rparr>" and r: "r = Some n"
          using eq new e by (auto simp: walk_level_def Let_def s ensure_table_entry_def a)
        have "table_at (vm_mem vm) (vm_root vm) (i # p) = None" using p(3) new by simp
        then show ?thesis
          using inv init n(2,3) tree_ok_new [OF new_t] leaf_at_new [OF new_t] table_at_new [OF new_t] p i
          unfolding vm' r
          by (auto simp: vm_grows_def vm_inv_def vm_leaf_def fun_eq_iff simp del: table_at.simps fun_upd_apply)
      qed
    qed
  qed
qed

lemma walk_level_lookup:
  "walk_level vm t (of_nat i) False u =
     (if vm_mem vm (slot_of t i) = 0 then None else Some (vm_mem vm (slot_of t i) AND kEntryAddressMask), vm)"
  by (simp add: walk_level_def Let_def slot_of_def)

section \<open>The walk\<close>

abbreviation table_path :: "u64 \<Rightarrow> nat list" where
  "table_path va \<equiv> [idx va 21, idx va 30, idx va 39]"

lemma page_index_nat: "page_index va shift = of_nat (idx va shift)"
  by (simp add: idx_def)

lemma vm_grows_initialized:
  "vm_grows vm vm' \<Longrightarrow> vm_initialized vm \<Longrightarrow> vm_initialized vm' \<and> vm_root vm' = vm_root vm"
  by (simp add: vm_grows_def)

lemma vm_growsD: "vm_grows vm vm' \<Longrightarrow> vm_inv vm' \<and> vm_leaf vm' = vm_leaf vm"
  by (simp add: vm_grows_def)

lemma large_third_level:
  assumes "vm_initialized vm" "table_at (vm_mem vm) (vm_root vm) [idx va 30, idx va 39] = Some t"
    and "\<not> large_mapped vm va"
  shows "\<not> large_entry (vm_mem vm (slot_of t (idx va 21)))"
proof
  assume "large_entry (vm_mem vm (slot_of t (idx va 21)))"
  moreover from this have "vm_mem vm (slot_of t (idx va 21)) \<noteq> 0" by (auto simp: large_entry_def)
  ultimately have "vm_leaf vm va = Some (True, vm_mem vm (slot_of t (idx va 21)))"
    using assms(1,2) by (simp add: vm_leaf_def leaf_at_def del: table_at.simps)
  with assms(3) show False by (simp add: large_mapped_def)
qed

text \<open>The three levels in sequence, each grows the tree and either reaches its table or fails.\<close>

lemma walk_levels_create:
  assumes inv: "vm_inv vm" and init: "vm_initialized vm" and small: "\<not> large_mapped vm va"
    and eq: "(case walk_level vm (vm_root vm) (page_index va 39) True u of
         (None, vm2) \<Rightarrow> (None, vm2)
       | (Some pml3, vm2) \<Rightarrow>
         (case walk_level vm2 pml3 (page_index va 30) True u of
            (None, vm3) \<Rightarrow> (None, vm3)
          | (Some pml2, vm3) \<Rightarrow>
            (case walk_level vm3 pml2 (page_index va 21) True u of
               (None, vm4) \<Rightarrow> (None, vm4)
             | (Some pml1, vm4) \<Rightarrow> (Some (pml1 + 8 * page_index va 12), vm4)))) = (r, vm')"
  shows "vm_grows vm vm' \<and>
    (case r of None \<Rightarrow> free_addrs (vm_frames vm') = {}
     | Some s \<Rightarrow> vm_initialized vm' \<and>
         (\<exists>t. table_at (vm_mem vm') (vm_root vm') (table_path va) = Some t \<and> s = slot_of t (idx va 12)))"
proof -
  obtain r2 vm2 where 2: "walk_level vm (vm_root vm) (of_nat (idx va 39)) True u = (r2, vm2)" by force
  have w2: "vm_grows vm vm2 \<and> (case r2 of None \<Rightarrow> free_addrs (vm_frames vm2) = {}
     | Some t' \<Rightarrow> table_at (vm_mem vm2) (vm_root vm2) [idx va 39] = Some t')"
    using walk_level_create [OF inv init _ _ _ _ _ 2, of "[]"] by simp
  show ?thesis
  proof (cases r2)
    case None
    then show ?thesis using eq w2 by (simp add: page_index_nat 2)
  next
    case (Some t3)
    from w2 Some have g2: "vm_grows vm vm2" and t3: "table_at (vm_mem vm2) (vm_root vm2) [idx va 39] = Some t3"
      by simp_all
    then have i2: "vm_inv vm2" "vm_initialized vm2" using init by (simp_all add: vm_grows_def)
    obtain r3 vm3 where 3: "walk_level vm2 t3 (of_nat (idx va 30)) True u = (r3, vm3)" by force
    have w3: "vm_grows vm2 vm3 \<and> (case r3 of None \<Rightarrow> free_addrs (vm_frames vm3) = {}
       | Some t' \<Rightarrow> table_at (vm_mem vm3) (vm_root vm3) [idx va 30, idx va 39] = Some t')"
      by (rule walk_level_create [OF i2 _ _ t3 _ _ 3]) simp_all
    then have g3: "vm_grows vm vm3" using g2 vm_grows_trans by blast
    show ?thesis
    proof (cases r3)
      case None
      then show ?thesis using eq w3 g3 Some by (simp add: page_index_nat 2 3)
    next
      case (Some t2)
      with w3 have t2: "table_at (vm_mem vm3) (vm_root vm3) [idx va 30, idx va 39] = Some t2" by simp
      from g3 have i3: "vm_inv vm3" "vm_initialized vm3" "\<not> large_mapped vm3 va"
        using init small by (simp_all add: vm_grows_def large_mapped_def)
      obtain r4 vm4 where 4: "walk_level vm3 t2 (of_nat (idx va 21)) True u = (r4, vm4)" by force
      have w4: "vm_grows vm3 vm4 \<and> (case r4 of None \<Rightarrow> free_addrs (vm_frames vm4) = {}
         | Some t' \<Rightarrow> table_at (vm_mem vm4) (vm_root vm4) (table_path va) = Some t')"
        by (rule walk_level_create [OF i3(1,2) _ _ t2 _ _ 4])
          (simp_all add: large_third_level [OF i3(2) t2 i3(3)])
      then have g4: "vm_grows vm vm4" using g3 vm_grows_trans by blast
      have "r = map_option (\<lambda>t. slot_of t (idx va 12)) r4" "vm' = vm4"
        using eq \<open>r2 = Some t3\<close> Some
        by (auto simp: page_index_nat 2 3 4 slot_of_def split: option.splits)
      with w4 g4 init show ?thesis
        by (cases r4) (auto simp: vm_grows_def simp del: table_at.simps)
    qed
  qed
qed

lemma walk_to_leaf_create:
  assumes inv: "vm_inv vm" and small: "\<not> large_mapped vm va" and eq: "walk_to_leaf vm va True u = (r, vm')"
  shows "vm_grows vm vm' \<and>
    (case r of None \<Rightarrow> free_addrs (vm_frames vm') = {}
     | Some s \<Rightarrow> vm_initialized vm' \<and>
         (\<exists>t. table_at (vm_mem vm') (vm_root vm') (table_path va) = Some t \<and> s = slot_of t (idx va 12)))"
proof -
  obtain ok vm1 where 1: "ensure_root vm = (ok, vm1)" by force
  note root = ensure_root_spec [OF inv 1]
  show ?thesis
  proof (cases ok)
    case True
    with root have g: "vm_grows vm vm1" and init: "vm_initialized vm1" by simp_all
    have "vm_inv vm1" "\<not> large_mapped vm1 va" using g small by (simp_all add: vm_grows_def large_mapped_def)
    from walk_levels_create [OF this(1) init this(2), of u r vm'] eq g show ?thesis
      unfolding walk_to_leaf_def 1 using True vm_grows_trans by auto
  next
    case False
    then show ?thesis using eq root by (auto simp: walk_to_leaf_def 1)
  qed
qed

section \<open>Leaf writes and page loops\<close>

lemma vm_leaf_write:
  fixes e :: u64
  assumes inv: "vm_inv vm" and init: "vm_initialized vm"
    and t: "table_at (vm_mem vm) (vm_root vm) (table_path va) = Some t"
  defines "vm' \<equiv> vm\<lparr>vm_mem := (vm_mem vm)(slot_of t (idx va 12) := e)\<rparr>"
  shows "vm_inv vm'"
    and "vm_leaf vm' va' = (if vpn va' = vpn va then (if e = 0 then None else Some (False, e)) else vm_leaf vm va')"
    and "path_ok q \<Longrightarrow> table_at (vm_mem vm') (vm_root vm') q = table_at (vm_mem vm) (vm_root vm) q"
proof -
  have ok: "tree_ok (vm_mem vm) (vm_root vm) (free_addrs (vm_frames vm))"
    using inv init by (simp add: vm_inv_def)
  have p: "path_ok (table_path va)" "length (table_path va) = 3" by simp_all
  note tab = table_at_leaf_write [OF ok p idx_less t]
  show "path_ok q \<Longrightarrow> table_at (vm_mem vm') (vm_root vm') q = table_at (vm_mem vm) (vm_root vm) q"
    using tab by (simp add: vm'_def del: fun_upd_apply)
  from ok tab have "tree_ok ((vm_mem vm)(slot_of t (idx va 12) := e)) (vm_root vm) (free_addrs (vm_frames vm))"
    by (rule tree_ok_cong)
  then show "vm_inv vm'" using inv by (simp add: vm'_def vm_inv_def del: fun_upd_apply)
  have "idx va 12 # table_path va = page_path va" by (simp add: page_path_def)
  then show "vm_leaf vm' va' =
      (if vpn va' = vpn va then (if e = 0 then None else Some (False, e)) else vm_leaf vm va')"
    using leaf_at_leaf_write [OF ok p idx_less t, where e = e and va = va'] init
    by (simp add: vm'_def vm_leaf_def page_path_eq_iff del: fun_upd_apply)
qed

lemma for_index_rule:
  assumes "for_index body [a ..< b] s = (ok, s')" and "a \<le> b" and "P a s"
    and "\<And>i s s'. a \<le> i \<Longrightarrow> i < b \<Longrightarrow> P i s \<Longrightarrow> body (of_nat i) s = (True, s') \<Longrightarrow> P (Suc i) s'"
    and "\<And>i s s'. a \<le> i \<Longrightarrow> i < b \<Longrightarrow> P i s \<Longrightarrow> body (of_nat i) s = (False, s') \<Longrightarrow> Q s'"
  shows "if ok then P b s' else Q s'"
  using assms
proof (induction "b - a" arbitrary: a s)
  case (Suc n)
  then have ab: "a < b" by simp
  obtain r s1 where body: "body (of_nat a) s = (r, s1)" by force
  show ?case
  proof (cases r)
    case True
    with body have "P (Suc a) s1" using Suc.prems(3) Suc.prems(4) [of a s s1] ab by simp
    moreover have "for_index body [Suc a ..< b] s1 = (ok, s')"
      using Suc.prems(1) ab body True by (simp add: upt_conv_Cons)
    moreover have "n = b - Suc a" "Suc a \<le> b" using Suc.hyps(2) ab by simp_all
    ultimately show ?thesis
      by (intro Suc.hyps(1) [of "Suc a" s1]) (blast intro: Suc.prems(4,5) dest: Suc_leD)+
  next
    case False
    then show ?thesis using Suc.prems(1,3) Suc.prems(5) [of a s s1] ab body by (simp add: upt_conv_Cons)
  qed
qed simp

abbreviation page_at :: "u64 \<Rightarrow> nat \<Rightarrow> u64" where
  "page_at va k \<equiv> va + of_nat k * kPageSize"

lemma vpn_page_at: "vpn (page_at va k) = (unat va div 4096 + k) mod 2 ^ 36"
  unfolding vpn_def by (rule unat_page_step)

lemma vpn_page_at_inj:
  assumes "j < k" "k < 2 ^ 36"
  shows "vpn (page_at va j) \<noteq> vpn (page_at va k)"
proof
  assume "vpn (page_at va j) = vpn (page_at va k)"
  then have "(unat va div 4096 + k) mod 2 ^ 36 = (unat va div 4096 + j) mod 2 ^ 36"
    unfolding vpn_page_at by (rule sym)
  then have "2 ^ 36 dvd k - j" using assms(1) by (subst (asm) mod_eq_dvd_iff_nat) auto
  then show False using assms by (auto dest: dvd_imp_le)
qed

text \<open>
  After \<open>k\<close> pages: those pages carry their new leaves and every other page its old one.
\<close>

definition leaves_set :: "vm \<Rightarrow> vm \<Rightarrow> u64 \<Rightarrow> nat \<Rightarrow> (nat \<Rightarrow> (bool \<times> u64) option) \<Rightarrow> bool" where
  "leaves_set vm vm' va k l \<longleftrightarrow>
     (\<forall>j < k. \<forall>a. vpn a = vpn (page_at va j) \<longrightarrow> vm_leaf vm' a = l j) \<and>
     (\<forall>a. (\<forall>j < k. vpn a \<noteq> vpn (page_at va j)) \<longrightarrow> vm_leaf vm' a = vm_leaf vm a)"

lemma leaves_set_0: "leaves_set vm vm va 0 l"
  by (simp add: leaves_set_def)

lemma leaves_set_Suc:
  assumes "leaves_set vm vm1 va k l" and "k < 2 ^ 36"
    and "\<And>a. vm_leaf vm2 a = (if vpn a = vpn (page_at va k) then l k else vm_leaf vm1 a)"
  shows "leaves_set vm vm2 va (Suc k) l"
  using assms vpn_page_at_inj [OF _ assms(2)] unfolding leaves_set_def
  by (auto simp: less_Suc_eq)

lemma leaves_set_next:
  "leaves_set vm vm1 va k l \<Longrightarrow> k < 2 ^ 36 \<Longrightarrow> vm_leaf vm1 (page_at va k) = vm_leaf vm (page_at va k)"
  using vpn_page_at_inj unfolding leaves_set_def by metis

lemma leaves_set_outside:
  assumes "leaves_set vm vm1 va k l" and "k \<le> n" and "\<forall>j < n. vpn a \<noteq> vpn (page_at va j)"
  shows "vm_leaf vm1 a = vm_leaf vm a"
  using assms unfolding leaves_set_def by simp

section \<open>Mapping\<close>

definition page_leaf :: "u64 \<Rightarrow> page_flags \<Rightarrow> u64" where
  "page_leaf pa flags = (pa AND kEntryAddressMask) OR (flags OR PageFlags_Present)"

lemma page_leaf_nonzero: "page_leaf pa flags \<noteq> 0"
  by (simp add: page_leaf_def PageFlags_Present_def or_eq_0_iff)

lemma and_not_disjoint: "w AND m = 0 \<Longrightarrow> w AND NOT m = w" for w m :: u64
proof (rule bit_word_eqI)
  fix n
  assume "w AND m = 0"
  then have "\<not> bit (w AND m) n" by simp
  then show "n < LENGTH(64) \<Longrightarrow> bit (w AND NOT m) n = bit w n" by (auto simp: bit_simps)
qed

lemma decode_page_leaf:
  assumes "flags AND kEntryAddressMask = 0"
  shows "decode_leaf a (False, page_leaf pa flags) =
    ((pa AND kEntryAddressMask) OR (a AND 0xFFF), flags OR PageFlags_Present)"
proof -
  have z: "(flags OR PageFlags_Present) AND kEntryAddressMask = 0"
    using assms by (simp add: bit.conj_disj_distrib2 PageFlags_Present_def kEntryAddressMask_def)
  then have "page_leaf pa flags AND kEntryAddressMask = pa AND kEntryAddressMask"
    unfolding page_leaf_def bit.conj_disj_distrib2 by (simp add: and.assoc)
  moreover have "(flags OR PageFlags_Present) AND NOT kEntryAddressMask = flags OR PageFlags_Present"
    using z by (rule and_not_disjoint)
  then have "page_leaf pa flags AND NOT kEntryAddressMask = flags OR PageFlags_Present"
    unfolding page_leaf_def bit.conj_disj_distrib2 by (simp add: and.assoc)
  ultimately show ?thesis by (simp add: decode_leaf_def kPageSize_def)
qed

lemma map_physical_page_spec:
  assumes inv: "vm_inv vm" and small: "\<not> large_mapped vm (page_at va k)"
    and eq: "map_physical_page va pa flags (of_nat k) vm = (ok, vm')"
  shows "vm_inv vm' \<and>
    (if ok then \<forall>a. vm_leaf vm' a = (if vpn a = vpn (page_at va k) then Some (False, page_leaf (page_at pa k) flags) else vm_leaf vm a)
     else vm_leaf vm' = vm_leaf vm \<and> free_addrs (vm_frames vm') = {})"
proof -
  let ?u = "flags AND PageFlags_User = PageFlags_User"
  obtain r vm1 where w: "walk_to_leaf vm (page_at va k) True ?u = (r, vm1)" by force
  note walk = walk_to_leaf_create [OF inv small w]
  show ?thesis
  proof (cases r)
    case None
    then show ?thesis using eq walk by (auto simp: map_physical_page_def Let_def w vm_grows_def)
  next
    case (Some s)
    with walk obtain t where g: "vm_grows vm vm1" and init: "vm_initialized vm1"
      and t: "table_at (vm_mem vm1) (vm_root vm1) (table_path (page_at va k)) = Some t"
      and s: "s = slot_of t (idx (page_at va k) 12)" by auto
    have "ok" and vm': "vm' = vm1\<lparr>vm_mem := (vm_mem vm1)(slot_of t (idx (page_at va k) 12) := page_leaf (page_at pa k) flags)\<rparr>"
      using eq Some by (auto simp: map_physical_page_def Let_def w s page_leaf_def)
    with g init t page_leaf_nonzero show ?thesis
      using vm_leaf_write [OF _ init t] unfolding vm' by (simp add: vm_grows_def del: fun_upd_apply)
  qed
qed

lemma translate_page_leaf:
  "flags AND kEntryAddressMask = 0 \<Longrightarrow> vm_leaf vm a = Some (False, page_leaf pa flags) \<Longrightarrow>
   vm_translate vm a = Some ((pa AND kEntryAddressMask) OR (a AND 0xFFF), flags OR PageFlags_Present)"
  by (simp add: vm_translate_leaf decode_page_leaf)

lemma translate_cong: "vm_leaf vm' a = vm_leaf vm a \<Longrightarrow> vm_translate vm' a = vm_translate vm a"
  by (simp add: vm_translate_leaf)

lemma page_loop:
  assumes eq: "for_index body [0 ..< N] vm = (ok, vm')" and N: "N \<le> 2 ^ 36" and I: "I vm"
    and step: "\<And>i vm1 ok vm2. i < N \<Longrightarrow> I vm1 \<Longrightarrow> vm_leaf vm1 (page_at va i) = vm_leaf vm (page_at va i) \<Longrightarrow>
      body (of_nat i) vm1 = (ok, vm2) \<Longrightarrow>
      I vm2 \<and> (if ok then G i vm2 \<and> (\<forall>k. G k vm1 \<longrightarrow> G k vm2) \<and> (\<forall>a. vm_leaf vm2 a = (if vpn a = vpn (page_at va i) then l i else vm_leaf vm1 a))
        else vm_leaf vm2 = vm_leaf vm1 \<and> F i vm2)"
  shows "I vm' \<and> (if ok then (\<forall>k < N. G k vm') \<and> leaves_set vm vm' va N l
    else (\<exists>k < N. F k vm') \<and>
      (\<forall>a. (\<forall>k < N. vpn a \<noteq> vpn (page_at va k)) \<longrightarrow> vm_leaf vm' a = vm_leaf vm a))"
proof -
  let ?P = "\<lambda>i vm1. I vm1 \<and> (\<forall>k < i. G k vm1) \<and> leaves_set vm vm1 va i l"
  let ?Q = "\<lambda>vm1. I vm1 \<and> (\<exists>k < N. F k vm1) \<and>
    (\<forall>a. (\<forall>k < N. vpn a \<noteq> vpn (page_at va k)) \<longrightarrow> vm_leaf vm1 a = vm_leaf vm a)"
  have "if ok then ?P N vm' else ?Q vm'"
  proof (rule for_index_rule [OF eq])
    show "?P 0 vm" using I by (simp add: leaves_set_0)
  next
    fix i vm1 vm2
    assume i: "i < N" and P: "?P i vm1" and b: "body (of_nat i) vm1 = (True, vm2)"
    have i36: "i < 2 ^ 36" using i N by simp
    from P have L: "leaves_set vm vm1 va i l" by simp
    from step [OF i _ _ b] P leaves_set_next [OF L i36]
    show "?P (Suc i) vm2" using leaves_set_Suc [OF L i36, of vm2] by (simp add: less_Suc_eq)
  next
    fix i vm1 vm2
    assume i: "i < N" and P: "?P i vm1" and b: "body (of_nat i) vm1 = (False, vm2)"
    have i36: "i < 2 ^ 36" using i N by simp
    from P have L: "leaves_set vm vm1 va i l" by simp
    from step [OF i _ _ b] P leaves_set_next [OF L i36]
    show "?Q vm2" using leaves_set_outside [OF L, of N] i by auto
  qed simp
  then show ?thesis by (simp split: if_splits)
qed

section \<open>How many frames an operation takes\<close>

definition frames_left :: "vm \<Rightarrow> nat" where
  "frames_left vm = card (free_pages (vm_frames vm))"

definition takes :: "nat \<Rightarrow> vm \<Rightarrow> vm \<Rightarrow> bool" where
  "takes k vm vm' \<longleftrightarrow> pf_inv (vm_frames vm') \<and> frames_left vm \<le> frames_left vm' + k"

lemma takes_trans: "takes k a b \<Longrightarrow> takes l b c \<Longrightarrow> takes (k + l) a c"
  by (auto simp: takes_def)

lemma takes_refl: "pf_inv (vm_frames vm) \<Longrightarrow> takes k vm vm"
  by (simp add: takes_def)

lemma takes_inv: "takes k vm vm' \<Longrightarrow> pf_inv (vm_frames vm')"
  by (simp add: takes_def)

lemma pf_allocate_takes:
  assumes "pf_inv frames" and "pf_allocate frames = (r, frames')"
  shows "pf_inv frames' \<and> card (free_pages frames) \<le> card (free_pages frames') + 1"
proof (cases "free_pages frames = {}")
  case True
  then show ?thesis using assms pf_allocate_None [OF assms(1)] by simp
next
  case False
  then have m: "Min (free_pages frames) \<in> free_pages frames" by simp
  then have u: "unat (of_nat (Min (free_pages frames)) :: u64) = Min (free_pages frames)"
    using pf_inv_bound [OF assms(1) m] by (intro unat_of_nat_u64) simp
  with m pf_inv_take_page [OF assms(1)] pf_allocate_Some [OF assms(1) False] assms(2) show ?thesis
    by (auto simp: card_Diff_singleton)
qed

lemma ensure_root_takes:
  assumes "pf_inv (vm_frames vm)" and "ensure_root vm = (ok, vm')"
  shows "takes 1 vm vm'"
  using assms pf_allocate_takes [OF assms(1)]
  by (auto simp: ensure_root_def takes_def frames_left_def split: if_splits prod.splits option.splits)

lemma walk_level_takes:
  assumes "pf_inv (vm_frames vm)" and "walk_level vm t i create u = (r, vm')"
  shows "takes 1 vm vm'"
proof -
  have "takes 1 vm vm1" if "ensure_table_entry vm s u = (ok, vm1)" for s ok vm1
    using that pf_allocate_takes [OF assms(1)] assms(1)
    by (auto simp: ensure_table_entry_def Let_def takes_def frames_left_def
        split: if_splits prod.splits option.splits)
  then show ?thesis
    using assms by (auto simp: walk_level_def Let_def takes_refl split: if_splits prod.splits bool.splits)
qed

lemma walk_to_leaf_takes:
  assumes inv: "pf_inv (vm_frames vm)" and eq: "walk_to_leaf vm va create u = (r, vm')"
  shows "takes 4 vm vm'"
proof -
  obtain ok vm1 where 1: "ensure_root vm = (ok, vm1)" by force
  note t1 = ensure_root_takes [OF inv 1]
  obtain r2 vm2 where 2: "walk_level vm1 (vm_root vm1) (page_index va 39) create u = (r2, vm2)" by force
  note t2 = takes_trans [OF t1 walk_level_takes [OF takes_inv [OF t1] 2]]
  obtain r3 vm3 where 3: "walk_level vm2 (the r2) (page_index va 30) create u = (r3, vm3)" by force
  note t3 = takes_trans [OF t2 walk_level_takes [OF takes_inv [OF t2] 3]]
  obtain r4 vm4 where 4: "walk_level vm3 (the r3) (page_index va 21) create u = (r4, vm4)" by force
  note t4 = takes_trans [OF t3 walk_level_takes [OF takes_inv [OF t3] 4]]
  have "vm' \<in> {vm1, vm2, vm3, vm4}"
    using eq 1 2 3 4 by (auto simp: walk_to_leaf_def split: bool.splits option.splits)
  then show ?thesis using t1 t2 t3 t4 by (auto simp: takes_def)
qed

lemma map_physical_page_takes:
  assumes "pf_inv (vm_frames vm)" and "map_physical_page va pa flags i vm = (ok, vm')"
  shows "takes 4 vm vm'"
proof -
  let ?u = "flags AND PageFlags_User = PageFlags_User"
  obtain r vm1 where w: "walk_to_leaf vm (va + i * kPageSize) True ?u = (r, vm1)" by force
  from walk_to_leaf_takes [OF assms(1) w] assms(2) w show ?thesis
    by (auto simp: map_physical_page_def Let_def takes_def frames_left_def split: option.splits)
qed

lemma for_index_takes:
  assumes eq: "for_index body [0 ..< n] vm = (ok, vm')" and inv: "pf_inv (vm_frames vm)"
    and step: "\<And>i vm1 ok vm2. pf_inv (vm_frames vm1) \<Longrightarrow> body i vm1 = (ok, vm2) \<Longrightarrow> takes k vm1 vm2"
  shows "takes (k * n) vm vm'"
proof -
  have "if ok then takes (k * n) vm vm' else takes (k * n) vm vm'"
  proof (rule for_index_rule [where P = "\<lambda>i. takes (k * i) vm", OF eq])
    fix i vm1 vm2
    assume i: "i < n" and t: "takes (k * i) vm vm1" and b: "body (of_nat i) vm1 = (False, vm2)"
    from takes_trans [OF t step [OF takes_inv [OF t] b]] have "takes (k * Suc i) vm vm2"
      by (simp add: add.commute)
    moreover have "k * Suc i \<le> k * n" using i by (intro mult_le_mono2) simp
    ultimately show "takes (k * n) vm vm2" by (simp add: takes_def)
  next
    fix i vm1 vm2
    assume t: "takes (k * i) vm vm1" and b: "body (of_nat i) vm1 = (True, vm2)"
    from takes_trans [OF t step [OF takes_inv [OF t] b]] show "takes (k * Suc i) vm vm2"
      by (simp add: add.commute)
  qed (simp_all add: takes_refl inv)
  then show ?thesis by simp
qed

section \<open>Walks that only look up\<close>

lemma walk_to_leaf_lookup:
  assumes init: "vm_initialized vm" and small: "\<not> large_mapped vm va"
  shows "walk_to_leaf vm va False u =
    (map_option (\<lambda>t. slot_of t (idx va 12)) (table_at (vm_mem vm) (vm_root vm) (table_path va)), vm)"
proof -
  have "ensure_root vm = (True, vm)" using init by (simp add: ensure_root_def)
  moreover have "\<not> large_entry (vm_mem vm (slot_of t (idx va 21)))"
    if "table_at (vm_mem vm) (vm_root vm) [idx va 30, idx va 39] = Some t" for t
    using large_third_level [OF init that small] .
  ultimately show ?thesis
    by (auto simp: walk_to_leaf_def page_index_nat walk_level_lookup Let_def slot_of_def)
qed

lemma vm_leaf_table:
  assumes init: "vm_initialized vm" and small: "\<not> large_mapped vm va"
  shows "vm_leaf vm va =
    (case table_at (vm_mem vm) (vm_root vm) (table_path va) of
       None \<Rightarrow> None
     | Some t \<Rightarrow> let e = vm_mem vm (slot_of t (idx va 12)) in if e = 0 then None else Some (False, e))"
proof (cases "table_at (vm_mem vm) (vm_root vm) [idx va 30, idx va 39]")
  case None
  then show ?thesis using init
    by (simp add: vm_leaf_def leaf_at_def table_at.simps(2) [of _ _ "idx va 21"] del: table_at.simps)
next
  case (Some t)
  then show ?thesis using init large_third_level [OF init Some small]
    by (simp add: vm_leaf_def leaf_at_def table_at.simps(2) [of _ _ "idx va 21"] Let_def del: table_at.simps)
qed

end
