(* ===== verification/Virtual_Memory_Props.thy ===== *)
theory Virtual_Memory_Props
  imports Virtual_Memory_Spec
begin

text \<open>
  The properties of the page-table manager: mapping against translation, permission changes,
  unmapping, and the teardown of a user slot.
\<close>

section \<open>Mapping\<close>

text \<open>
  C7. Mapping a range and translating it agree. On page-aligned arguments over pages not covered by
  a 2 MiB leaf, \<open>map_physical\<close> keeps the page-table invariant; it succeeds whenever
  four frames per page are available; on success every address of page
  \<open>k\<close> translates to the frame \<open>k\<close> pages after \<open>physical_address\<close> with the given flags, on
  failure the frame allocator is exhausted, and in both cases the translation of every address
  outside the range is what it was.
\<close>

theorem map_physical_correct:
  assumes inv: "vm_inv vm" and al: "va AND 0xFFF = 0" "pa AND 0xFFF = 0"
    and n: "0 < n" "unat n \<le> 2 ^ 36" and flags: "flags AND kEntryAddressMask = 0"
    and small: "\<forall>k < unat n. \<not> large_mapped vm (page_at va k)"
  shows "case map_physical vm va pa n flags of (ok, vm') \<Rightarrow>
    vm_inv vm' \<and> (4 * unat n < frames_left vm \<longrightarrow> ok) \<and>
    (if ok then \<forall>k < unat n. \<forall>a. vpn a = vpn (page_at va k) \<longrightarrow>
         vm_translate vm' a = Some ((page_at pa k AND kEntryAddressMask) OR (a AND 0xFFF), flags OR PageFlags_Present)
     else free_addrs (vm_frames vm') = {}) \<and>
    (\<forall>a. (\<forall>k < unat n. vpn a \<noteq> vpn (page_at va k)) \<longrightarrow> vm_translate vm' a = vm_translate vm a)"
proof -
  let ?l = "\<lambda>k. Some (False, page_leaf (page_at pa k) flags)"
  obtain ok vm' where eq: "for_index (map_physical_page va pa flags) [0 ..< unat n] vm = (ok, vm')" by force
  have m: "map_physical vm va pa n flags = (ok, vm')"
    using al n(1) eq by (auto simp: map_physical_def kPageSize_def)
  have "vm_inv vm' \<and> (if ok then (\<forall>k < unat n. True) \<and> leaves_set vm vm' va (unat n) ?l
    else (\<exists>k < unat n. free_addrs (vm_frames vm') = {}) \<and>
      (\<forall>a. (\<forall>k < unat n. vpn a \<noteq> vpn (page_at va k)) \<longrightarrow> vm_leaf vm' a = vm_leaf vm a))"
  proof (rule page_loop [where I = vm_inv and G = "\<lambda>_ _. True", OF eq n(2) inv])
    fix i vm1 ok vm2
    assume i: "i < unat n" "vm_inv vm1" "vm_leaf vm1 (page_at va i) = vm_leaf vm (page_at va i)"
      "map_physical_page va pa flags (of_nat i) vm1 = (ok, vm2)"
    then have "\<not> large_mapped vm1 (page_at va i)" using small by (simp add: large_mapped_def)
    from map_physical_page_spec [OF i(2) this i(4)]
    show "vm_inv vm2 \<and> (if ok then True \<and> (\<forall>k. True \<longrightarrow> True) \<and>
          (\<forall>a. vm_leaf vm2 a = (if vpn a = vpn (page_at va i) then ?l i else vm_leaf vm1 a))
        else vm_leaf vm2 = vm_leaf vm1 \<and> free_addrs (vm_frames vm2) = {})" by simp
  qed
  moreover have "takes (4 * unat n) vm vm'"
    using inv by (intro for_index_takes [OF eq] map_physical_page_takes) (auto simp: vm_inv_def)
  then have "ok" if "4 * unat n < frames_left vm" "ok \<or> free_addrs (vm_frames vm') = {}"
    using that by (auto simp: takes_def frames_left_def free_addrs_def)
  ultimately show ?thesis
    unfolding m leaves_set_def
    by (cases ok) (auto intro: translate_page_leaf [OF flags] translate_cong)
qed

definition vm_demo_frames :: page_frames where
  "vm_demo_frames = \<lparr>pf_memory_size = 0x10000, pf_memory_end = 0x10000, pf_page_count = 16,
     pf_free_page_count = 6, pf_bitmap = (\<lambda>_. 0)(0 := 0x7E), pf_bitmap_physical_address = 0,
     pf_bitmap_size = 1, pf_bitmap_limit = 1, pf_initialized = True\<rparr>"

lemma free_pages_vm_demo: "free_pages vm_demo_frames = {1, 2, 3, 4, 5, 6}"
proof -
  have "free_pages vm_demo_frames = set (filter (\<lambda>i. bit (0x7E :: u64) i) [0 ..< 16])"
    by (auto simp: free_pages_def vm_demo_frames_def free_bit_def)
  also have "\<dots> = {1, 2, 3, 4, 5, 6}" by code_simp
  finally show ?thesis .
qed

lemma pf_inv_vm_demo: "pf_inv vm_demo_frames"
proof -
  have "i < 16" if "i < 64" "bit (0x7E :: u64) i" for i
  proof -
    have "(0x7E :: u64) = take_bit 16 0x7E" by simp
    then show ?thesis using that(2) by (metis bit_take_bit_iff)
  qed
  moreover have "pf_bitmap_size vm_demo_frames = 1" "pf_page_count vm_demo_frames = 16"
    "pf_free_page_count vm_demo_frames = 6" "pf_bitmap vm_demo_frames 0 = 0x7E" "pf_initialized vm_demo_frames"
    by (simp_all add: vm_demo_frames_def)
  ultimately show ?thesis by (simp add: pf_inv_def free_pages_vm_demo free_bit_def)
qed

definition vm_demo :: vm where
  "vm_demo = vm_construct vm_demo_frames (\<lambda>_. 0) 0 (NOT 0)"

lemma vm_inv_demo: "vm_inv vm_demo"
  by (auto simp: vm_inv_def vm_demo_def vm_construct_def pf_inv_vm_demo free_addrs_def free_pages_vm_demo
      page_addr_def table_base_def kEntryAddressMask_def)

lemma vm_demo_no_leaf: "\<not> large_mapped vm_demo a"
  by (simp add: large_mapped_def vm_leaf_def vm_demo_def vm_construct_def)

theorem map_physical_correct_witness:
  "case map_physical vm_demo 0x8000401000 0xB000 1 6 of (ok, vm') \<Rightarrow>
     vm_inv vm' \<and> ok \<and> vm_translate vm' 0x8000401234 = Some (0xB234, 7)"
proof -
  obtain ok vm' where m: "map_physical vm_demo 0x8000401000 0xB000 1 6 = (ok, vm')" by force
  have "frames_left vm_demo = 6"
    by (simp add: frames_left_def vm_demo_def vm_construct_def free_pages_vm_demo)
  moreover have "vpn 0x8000401234 = vpn 0x8000401000" by (simp add: vpn_def)
  ultimately show ?thesis
    using map_physical_correct [OF vm_inv_demo, of "0x8000401000" "0xB000" 1 6] vm_demo_no_leaf
    by (simp add: m kEntryAddressMask_def PageFlags_Present_def)
qed

section \<open>Permissions and unmapping\<close>

lemma maybe_shootdown_simps [simp]:
  "vm_mem (maybe_shootdown_user_mappings va vm) = vm_mem vm"
  "vm_root (maybe_shootdown_user_mappings va vm) = vm_root vm"
  "vm_initialized (maybe_shootdown_user_mappings va vm) = vm_initialized vm"
  "vm_frames (maybe_shootdown_user_mappings va vm) = vm_frames vm"
  "vm_leaf (maybe_shootdown_user_mappings va vm) = vm_leaf vm"
  "vm_inv (maybe_shootdown_user_mappings va vm) = vm_inv vm"
  "vm_translate (maybe_shootdown_user_mappings va vm) = vm_translate vm"
  by (auto simp: maybe_shootdown_user_mappings_def vm_leaf_def vm_inv_def vm_translate_def fun_eq_iff)

lemma vm_shootdowns_user_mappings:
  "vm_shootdowns (maybe_shootdown_user_mappings va vm) = vm_shootdowns vm +
     (if vm_root vm \<noteq> 0 \<and> vm_root vm \<noteq> NOT 0 \<and> address_is_in_user_slot va then 1 else 0)"
  by (auto simp: maybe_shootdown_user_mappings_def)

lemma vm_translate_None_iff: "vm_translate vm a = None \<longleftrightarrow> vm_leaf vm a = None"
  by (simp add: vm_translate_leaf)

lemma vm_leaf_vpn: "vpn a = vpn b \<Longrightarrow> vm_leaf vm a = vm_leaf vm b"
proof -
  assume "vpn a = vpn b"
  then have i: "idx a 12 = idx b 12" "idx a 21 = idx b 21" "idx a 30 = idx b 30" "idx a 39 = idx b 39"
    unfolding page_path_eq_iff [symmetric] page_path_def by simp_all
  show ?thesis unfolding vm_leaf_def leaf_at_def i by (rule refl)
qed

lemma protect_page_spec:
  assumes inv: "vm_inv vm" and init: "vm_initialized vm" and small: "\<not> large_mapped vm (page_at va k)"
    and eq: "protect_page va flags (of_nat k) vm = (ok, vm')"
  shows "case vm_leaf vm (page_at va k) of
      None \<Rightarrow> \<not> ok \<and> vm' = vm
    | Some (_, e) \<Rightarrow> ok \<and> vm_inv vm' \<and> vm_initialized vm' \<and> vm_root vm' = vm_root vm \<and>
        vm_frames vm' = vm_frames vm \<and> vm_shootdowns vm' = vm_shootdowns vm \<and>
        (\<forall>a. vm_leaf vm' a = (if vpn a = vpn (page_at va k) then Some (False, page_leaf e flags) else vm_leaf vm a))"
proof -
  note leaf = vm_leaf_table [OF init small] and walk = walk_to_leaf_lookup [OF init small]
  show ?thesis
  proof (cases "vm_leaf vm (page_at va k)")
    case None
    then have "\<not> ok \<and> vm' = vm"
      using eq leaf by (auto simp: protect_page_def walk Let_def split: option.splits if_splits)
    then show ?thesis using None by simp
  next
    case (Some x)
    then obtain t where t: "table_at (vm_mem vm) (vm_root vm) (table_path (page_at va k)) = Some t"
      and x: "x = (False, vm_mem vm (slot_of t (idx (page_at va k) 12)))"
      and nz: "vm_mem vm (slot_of t (idx (page_at va k) 12)) \<noteq> 0"
      using leaf by (auto simp: Let_def simp del: table_at.simps split: option.splits if_splits)
    let ?e = "vm_mem vm (slot_of t (idx (page_at va k) 12))"
    have "vm' = vm\<lparr>vm_mem := (vm_mem vm)(slot_of t (idx (page_at va k) 12) := page_leaf ?e flags)\<rparr>" "ok"
      using eq t nz by (auto simp: protect_page_def walk page_leaf_def Let_def simp del: table_at.simps)
    then show ?thesis
      using vm_leaf_write [OF inv init t, where e = "page_leaf ?e flags"] Some x init page_leaf_nonzero
      by (simp del: fun_upd_apply table_at.simps)
  qed
qed

text \<open>
  C8. Changing permissions: over a range of 4 KiB pages, \<open>protect\<close> succeeds exactly when every
  page is mapped; then every address keeps its frame and gets the new flags, addresses outside keep
  their translation, and the other processors are told to flush exactly when the range starts in
  the user slot. When a page is missing no flush is sent, although the pages before it have changed.
\<close>

theorem vm_protect_correct:
  assumes inv: "vm_inv vm" and init: "vm_initialized vm" and al: "va AND 0xFFF = 0"
    and n: "0 < n" "unat n \<le> 2 ^ 36" and flags: "flags AND kEntryAddressMask = 0"
    and small: "\<forall>k < unat n. \<not> large_mapped vm (page_at va k)"
  shows "case vm_protect vm va n flags of (ok, vm') \<Rightarrow>
    vm_inv vm' \<and> (ok \<longleftrightarrow> (\<forall>k < unat n. vm_translate vm (page_at va k) \<noteq> None)) \<and>
    (ok \<longrightarrow> (\<forall>k < unat n. \<forall>a. vpn a = vpn (page_at va k) \<longrightarrow>
       (\<exists>pa fl. vm_translate vm a = Some (pa, fl) \<and> vm_translate vm' a = Some (pa, flags OR PageFlags_Present)))) \<and>
    (\<forall>a. (\<forall>k < unat n. vpn a \<noteq> vpn (page_at va k)) \<longrightarrow> vm_translate vm' a = vm_translate vm a) \<and>
    vm_shootdowns vm' = vm_shootdowns vm +
      (if ok \<and> vm_root vm \<noteq> 0 \<and> vm_root vm \<noteq> NOT 0 \<and> address_is_in_user_slot va then 1 else 0)"
proof -
  let ?l = "\<lambda>k. map_option (\<lambda>x. (False, page_leaf (snd x) flags)) (vm_leaf vm (page_at va k))"
  let ?I = "\<lambda>vm1. vm_inv vm1 \<and> vm_initialized vm1 \<and> vm_root vm1 = vm_root vm \<and> vm_shootdowns vm1 = vm_shootdowns vm"
  obtain ok vm' where eq: "for_index (protect_page va flags) [0 ..< unat n] vm = (ok, vm')" by force
  let ?G = "\<lambda>k. vm_leaf vm (page_at va k) \<noteq> None"
  have loop: "?I vm' \<and> (if ok then (\<forall>k < unat n. ?G k) \<and> leaves_set vm vm' va (unat n) ?l
    else (\<exists>k < unat n. vm_leaf vm (page_at va k) = None) \<and>
      (\<forall>a. (\<forall>k < unat n. vpn a \<noteq> vpn (page_at va k)) \<longrightarrow> vm_leaf vm' a = vm_leaf vm a))"
  proof (rule page_loop [where I = ?I and G = "\<lambda>k _. ?G k", OF eq n(2)])
    fix i vm1 ok vm2
    assume i: "i < unat n" and I: "?I vm1" and l: "vm_leaf vm1 (page_at va i) = vm_leaf vm (page_at va i)"
      and b: "protect_page va flags (of_nat i) vm1 = (ok, vm2)"
    have "\<not> large_mapped vm1 (page_at va i)" using small i l by (simp add: large_mapped_def)
    from protect_page_spec [OF _ _ this b] I l
    show "?I vm2 \<and> (if ok then ?G i \<and> (\<forall>k. ?G k \<longrightarrow> ?G k) \<and> (\<forall>a. vm_leaf vm2 a = (if vpn a = vpn (page_at va i) then ?l i else vm_leaf vm1 a))
        else vm_leaf vm2 = vm_leaf vm1 \<and> vm_leaf vm (page_at va i) = None)"
      by (auto split: option.splits)
  qed (use inv init in simp)
  have p: "vm_protect vm va n flags = (if ok then (True, maybe_shootdown_user_mappings va vm') else (False, vm'))"
    using al n(1) eq by (auto simp: vm_protect_def kPageSize_def)
  have new: "\<exists>pa fl. vm_translate vm a = Some (pa, fl) \<and> vm_translate vm' a = Some (pa, flags OR PageFlags_Present)"
    if "ok" "k < unat n" "vpn a = vpn (page_at va k)" for k a
  proof -
    from loop that obtain x where x: "vm_leaf vm (page_at va k) = Some x" and
      y: "vm_leaf vm' a = Some (False, page_leaf (snd x) flags)" by (auto simp: leaves_set_def)
    have "\<not> fst x" using small that(2) x by (cases x) (auto simp: large_mapped_def)
    moreover have "vm_leaf vm a = Some x" using x vm_leaf_vpn [OF that(3)] by simp
    ultimately show ?thesis using translate_page_leaf [OF flags y]
      by (cases x) (simp add: vm_translate_leaf [of vm] decode_leaf_def kPageSize_def)
  qed
  have out: "vm_translate vm' a = vm_translate vm a" if "\<forall>k < unat n. vpn a \<noteq> vpn (page_at va k)" for a
    using loop that by (intro translate_cong) (auto simp: leaves_set_def split: if_splits)
  have mapped: "ok \<longleftrightarrow> (\<forall>k < unat n. vm_translate vm (page_at va k) \<noteq> None)"
    using loop unfolding vm_translate_None_iff by (auto split: if_splits)
  show ?thesis
    unfolding p using loop new out mapped by (simp add: vm_shootdowns_user_mappings)
qed


lemma pf_free_any:
  assumes "pf_inv frames"
  shows "pf_inv (snd (pf_free frames a))"
    and "free_addrs frames \<subseteq> free_addrs (snd (pf_free frames a))"
    and "free_addrs (snd (pf_free frames a)) \<subseteq> insert a (free_addrs frames)"
    and "a AND 0xFFF = 0 \<Longrightarrow> unat a div 4096 < unat (pf_page_count frames) \<Longrightarrow>
      a \<in> free_addrs (snd (pf_free frames a))"
    and "pf_page_count (snd (pf_free frames a)) = pf_page_count frames"
proof -
  obtain ok frames' where f: "pf_free frames a = (ok, frames')" by force
  have "pf_inv frames' \<and> free_addrs frames \<subseteq> free_addrs frames' \<and> free_addrs frames' \<subseteq> insert a (free_addrs frames)"
    using pf.release_True [OF assms, of a frames'] pf.release_False [OF assms, of a frames'] f assms
    by (cases ok) auto
  then show "pf_inv (snd (pf_free frames a))" "free_addrs frames \<subseteq> free_addrs (snd (pf_free frames a))"
    "free_addrs (snd (pf_free frames a)) \<subseteq> insert a (free_addrs frames)" by (simp_all add: f)
  show "pf_page_count (snd (pf_free frames a)) = pf_page_count frames"
    by (simp add: pf_free_eq [OF assms])
  assume a: "a AND 0xFFF = 0" "unat a div 4096 < unat (pf_page_count frames)"
  have "a = page_addr (unat a div 4096)"
    using page_addr_of_aligned [OF a(1)] by (simp add: page_of_addr)
  then show "a \<in> free_addrs (snd (pf_free frames a))"
    using pf.release_True [OF assms, of a frames'] f a assms
    by (cases "unat a div 4096 \<in> free_pages frames")
      (auto simp: pf_free_eq page_of_addr word_less_nat_alt free_addrs_def free_pages_give_page)
qed

lemma table_base_aligned: "table_base t \<Longrightarrow> t AND 0xFFF = 0"
  by (simp add: table_base_iff page_aligned_iff)







section \<open>Teardown\<close>

definition only_entry :: "phys_mem \<Rightarrow> u64 \<Rightarrow> nat \<Rightarrow> bool" where
  "only_entry mem t i \<longleftrightarrow> table_base t \<and> i < 512 \<and> (\<forall>j < 512. mem (slot_of t j) \<noteq> 0 \<longleftrightarrow> j = i)"

lemma only_entryD:
  assumes "only_entry mem t i"
  shows "table_base t" "i < 512" "mem (slot_of t i) \<noteq> 0" "\<And>j. j < 512 \<Longrightarrow> j \<noteq> i \<Longrightarrow> mem (slot_of t j) = 0"
  using assms unfolding only_entry_def by blast+

definition free_frames :: "u64 list \<Rightarrow> page_frames \<Rightarrow> page_frames" where
  "free_frames as = fold (\<lambda>a f. snd (pf_free f a)) as"

lemma fold_only:
  assumes "distinct xs" and "i \<in> set xs" and "\<And>j s. j \<in> set xs \<Longrightarrow> j \<noteq> i \<Longrightarrow> s = s0 \<or> s = s1 \<Longrightarrow> f j s = s"
    and "f i s0 = s1"
  shows "fold f xs s0 = s1"
proof -
  have skip: "fold f ys s = s" if "set ys \<subseteq> set xs" "i \<notin> set ys" "s = s0 \<or> s = s1" for ys s
    using that by (induction ys) (auto simp: assms(3))
  from assms(2) obtain ys zs where xs: "xs = ys @ i # zs" by (auto dest: split_list)
  with assms(1) have "i \<notin> set ys" "i \<notin> set zs" by auto
  with xs show ?thesis using skip [of ys s0] skip [of zs s1] assms(4) by fastforce
qed

lemma for_entries_single:
  assumes o: "only_entry (vm_mem vm) t i" and b: "body (slot_of t i) vm = vm'"
    and z: "\<And>j. j < 512 \<Longrightarrow> j \<noteq> i \<Longrightarrow> vm_mem vm' (slot_of t j) = 0"
  shows "for_entries body t vm = vm'"
  unfolding for_entries_def slot_of_def [symmetric] Let_def
proof (rule fold_only [where i = i])
  show "(if vm_mem vm (slot_of t i) \<noteq> 0 then body (slot_of t i) vm else vm) = vm'"
    using o b by (simp add: only_entry_def)
  fix j s
  assume "j \<in> set [0 ..< 512]" "j \<noteq> i" "s = vm \<or> s = vm'"
  then have "vm_mem s (slot_of t j) = 0" using o z by (auto simp: only_entry_def)
  then show "(if vm_mem s (slot_of t j) \<noteq> 0 then body (slot_of t j) s else s) = s" by simp
qed (use o in \<open>auto simp: only_entry_def\<close>)

text \<open>Tearing down an entry whose table has one entry, given what the inner teardown does.\<close>

lemma destroy_table_single:
  assumes o: "only_entry (vm_mem vm) t i" and s: "vm_mem vm s \<noteq> 0" "vm_mem vm s AND kEntryAddressMask = t"
    and inner: "(if level > 1 then destroy_table (level - 1) True (slot_of t i) vm else free_entry (slot_of t i) vm) =
      vm\<lparr>vm_frames := free_frames as (vm_frames vm), vm_mem := mem'\<rparr>"
    and mem': "mem' s = vm_mem vm s" "\<And>j. j < 512 \<Longrightarrow> j \<noteq> i \<Longrightarrow> mem' (slot_of t j) = 0"
  shows "destroy_table level True s vm =
    vm\<lparr>vm_frames := free_frames (as @ [t]) (vm_frames vm), vm_mem := mem'(s := 0)\<rparr>"
proof -
  let ?vm1 = "vm\<lparr>vm_frames := free_frames as (vm_frames vm), vm_mem := mem'\<rparr>"
  have "for_entries (if level > 1 then destroy_table (level - 1) True else free_entry) t vm = ?vm1"
    using inner mem'(2) by (intro for_entries_single [OF o]) (auto split: if_splits)
  then show ?thesis
    using s mem'(1) by (auto simp: destroy_table.simps [of level] Let_def free_entry_def free_frames_def)
qed

text \<open>
  C10. What the teardown of the user slot releases. Take an address space with one user page: the
  entry of the slot leads through tables \<open>t3\<close>, \<open>t2\<close> and \<open>t1\<close> to the data page \<open>d\<close>, whose only
  word that is not zero is \<open>w\<close>. Then \<open>destroy_user_slot\<close> hands the allocator not only the page
  and its three tables but first the frame whose address the user stored in \<open>w\<close>: the recursion
  starts one level too high and takes the contents of data pages for leaf entries. Whatever frame
  that is, if the allocator tracks it, it ends up free.
\<close>

theorem destroy_user_slot_frees_data_frame:
  assumes inv: "pf_inv (vm_frames vm)" and init: "vm_initialized vm" and sl: "i4 < 512"
    and base: "table_base (vm_root vm)" and dist: "distinct [vm_root vm, t3, t2, t1, d]"
    and e4: "vm_mem vm (slot_of (vm_root vm) i4) \<noteq> 0"
      "vm_mem vm (slot_of (vm_root vm) i4) AND kEntryAddressMask = t3"
    and t3: "only_entry (vm_mem vm) t3 i3" "vm_mem vm (slot_of t3 i3) AND kEntryAddressMask = t2"
    and t2: "only_entry (vm_mem vm) t2 i2" "vm_mem vm (slot_of t2 i2) AND kEntryAddressMask = t1"
    and t1: "only_entry (vm_mem vm) t1 i1" "vm_mem vm (slot_of t1 i1) AND kEntryAddressMask = d"
    and d: "only_entry (vm_mem vm) d k" "w = vm_mem vm (slot_of d k) AND kEntryAddressMask"
  shows "\<exists>vm'. destroy_user_slot vm (of_nat i4) = (True, vm') \<and>
    vm_frames vm' = free_frames [w, d, t1, t2, t3] (vm_frames vm) \<and>
    (unat w div 4096 < unat (pf_page_count (vm_frames vm)) \<longrightarrow> w \<in> free_addrs (vm_frames vm'))"
proof -
  let ?m = "vm_mem vm"
  note b = only_entryD(1,2) [OF t3(1)] only_entryD(1,2) [OF t2(1)] only_entryD(1,2) [OF t1(1)] only_entryD(1,2) [OF d(1)]
    and nz = only_entryD(3) [OF t3(1)] only_entryD(3) [OF t2(1)] only_entryD(3) [OF t1(1)]
    and z = only_entryD(4) [OF t3(1)] only_entryD(4) [OF t2(1)] only_entryD(4) [OF t1(1)] only_entryD(4) [OF d(1)]
  have 1: "destroy_table 1 True (slot_of t1 i1) vm = vm\<lparr>vm_frames := free_frames ([w] @ [d]) (vm_frames vm),
      vm_mem := ?m(slot_of d k := 0, slot_of t1 i1 := 0)\<rparr>"
    by (rule destroy_table_single [OF d(1) nz(3) t1(2)])
      (use d(2) z b dist in \<open>auto simp: free_entry_def free_frames_def slot_of_eq_iff\<close>)
  have 2: "destroy_table 2 True (slot_of t2 i2) vm = vm\<lparr>vm_frames := free_frames (([w] @ [d]) @ [t1]) (vm_frames vm),
      vm_mem := ?m(slot_of d k := 0, slot_of t1 i1 := 0, slot_of t2 i2 := 0)\<rparr>"
    by (rule destroy_table_single [OF t1(1) nz(2) t2(2)]) (use 1 z b dist in \<open>auto simp: slot_of_eq_iff\<close>)
  have 3: "destroy_table 3 True (slot_of t3 i3) vm = vm\<lparr>vm_frames := free_frames ((([w] @ [d]) @ [t1]) @ [t2]) (vm_frames vm),
      vm_mem := ?m(slot_of d k := 0, slot_of t1 i1 := 0, slot_of t2 i2 := 0, slot_of t3 i3 := 0)\<rparr>"
    by (rule destroy_table_single [OF t2(1) nz(1) t3(2)]) (use 2 z b dist in \<open>auto simp: slot_of_eq_iff\<close>)
  have 4: "destroy_table 4 True (slot_of (vm_root vm) i4) vm =
      vm\<lparr>vm_frames := free_frames (((([w] @ [d]) @ [t1]) @ [t2]) @ [t3]) (vm_frames vm),
         vm_mem := ?m(slot_of d k := 0, slot_of t1 i1 := 0, slot_of t2 i2 := 0, slot_of t3 i3 := 0, slot_of (vm_root vm) i4 := 0)\<rparr>"
    by (rule destroy_table_single [OF t3(1) e4]) (use 3 z b base sl dist in \<open>auto simp: slot_of_eq_iff\<close>)
  have "(of_nat i4 :: u64) < 512" using sl by (simp add: word_less_nat_alt unat_of_nat_u64)
  then have "destroy_user_slot vm (of_nat i4) =
      (True, maybe_shootdown_user_slot (of_nat i4) (destroy_table 4 True (slot_of (vm_root vm) i4) vm))"
    using init by (simp add: destroy_user_slot_def slot_of_def)
  moreover have "w \<in> free_addrs (free_frames [w, d, t1, t2, t3] (vm_frames vm))"
    if "unat w div 4096 < unat (pf_page_count (vm_frames vm))"
  proof -
    have "w AND 0xFFF = 0" using d(2) by (simp add: table_base_aligned)
    then have "w \<in> free_addrs (snd (pf_free (vm_frames vm) w))" using pf_free_any(4) [OF inv] that by simp
    then show ?thesis
      unfolding free_frames_def using inv
      by (simp add: pf_free_any(1) subsetD [OF pf_free_any(2)])
  qed
  ultimately show ?thesis unfolding 4 by (auto simp: maybe_shootdown_user_slot_def)
qed

section \<open>A one-page address space\<close>

text \<open>
  The address space the witnesses of the lookup properties run on: tables at \<open>0x1000\<close> to
  \<open>0x4000\<close>, the user page \<open>0x8000401000\<close> on the frame \<open>0x9000\<close>, and in that frame one word that
  is not zero.
\<close>

definition one_page_frames :: page_frames where
  "one_page_frames = \<lparr>pf_memory_size = 0x10000, pf_memory_end = 0x10000, pf_page_count = 16,
     pf_free_page_count = 2, pf_bitmap = (\<lambda>_. 0)(0 := 0x3000), pf_bitmap_physical_address = 0,
     pf_bitmap_size = 1, pf_bitmap_limit = 1, pf_initialized = True\<rparr>"

definition one_page_mem :: phys_mem where
  "one_page_mem = (\<lambda>_. 0)(slot_of 0x1000 1 := 0x2007, slot_of 0x2000 0 := 0x3007,
     slot_of 0x3000 2 := 0x4007, slot_of 0x4000 1 := 0x9007, slot_of 0x9000 5 := 0xB123)"

definition one_page_vm :: vm where
  "one_page_vm = vm_construct one_page_frames one_page_mem 0 0x1000"

lemma free_pages_one_page: "free_pages one_page_frames = {12, 13}"
proof -
  have "free_pages one_page_frames = set (filter (\<lambda>i. bit (0x3000 :: u64) i) [0 ..< 16])"
    by (auto simp: free_pages_def one_page_frames_def free_bit_def)
  also have "\<dots> = {12, 13}" by code_simp
  finally show ?thesis .
qed

lemma pf_inv_one_page: "pf_inv one_page_frames"
proof -
  have "i < 16" if "i < 64" "bit (0x3000 :: u64) i" for i
  proof -
    have "(0x3000 :: u64) = take_bit 16 0x3000" by simp
    then show ?thesis using that(2) by (metis bit_take_bit_iff)
  qed
  moreover have "pf_bitmap_size one_page_frames = 1" "pf_page_count one_page_frames = 16"
    "pf_free_page_count one_page_frames = 2" "pf_bitmap one_page_frames 0 = 0x3000" "pf_initialized one_page_frames"
    by (simp_all add: one_page_frames_def)
  ultimately show ?thesis by (simp add: pf_inv_def free_pages_one_page free_bit_def)
qed

lemma one_page_bases:
  "table_base 0x1000" "table_base 0x2000" "table_base 0x3000" "table_base 0x4000" "table_base 0x9000"
  "table_base 0xC000" "table_base 0xD000"
  by (simp_all add: table_base_def kEntryAddressMask_def)

lemma one_page_read:
  assumes "j < 512"
  shows "one_page_mem (slot_of 0x1000 j) = (if j = 1 then 0x2007 else 0)"
    "one_page_mem (slot_of 0x2000 j) = (if j = 0 then 0x3007 else 0)"
    "one_page_mem (slot_of 0x3000 j) = (if j = 2 then 0x4007 else 0)"
    "one_page_mem (slot_of 0x4000 j) = (if j = 1 then 0x9007 else 0)"
    "one_page_mem (slot_of 0x9000 j) = (if j = 5 then 0xB123 else 0)"
  using assms by (simp_all add: one_page_mem_def slot_of_eq_iff one_page_bases)

lemma one_page_tables:
  assumes "path_ok p"
  shows "table_at one_page_mem 0x1000 p = Some t \<longleftrightarrow>
    (p, t) \<in> {([], 0x1000), ([1], 0x2000), ([0, 1], 0x3000), ([2, 0, 1], 0x4000)}"
proof -
  have small: "\<not> large_entry 0x4007" by (simp add: large_entry_def kEntryLargePage_def)
  consider "p = []" | i where "p = [i]" "i < 512" | i j where "p = [i, j]" "i < 512" "j < 512"
    | i j k where "p = [i, j, k]" "i < 512" "j < 512" "k < 512"
  proof (cases p)
    case (Cons i q)
    then show ?thesis using assms that by (cases q; cases "tl q"; cases "tl (tl q)") (auto simp: path_ok_def)
  qed (use that in blast)
  then show ?thesis
    by cases (auto simp: one_page_read Let_def kEntryAddressMask_def small split: if_splits)
qed

lemma vm_inv_one_page: "vm_inv one_page_vm"
proof -
  have F: "free_addrs one_page_frames = {0xC000, 0xD000}"
    by (simp add: free_addrs_def free_pages_one_page page_addr_def)
  have "tree_ok one_page_mem 0x1000 {0xC000, 0xD000}"
    unfolding tree_ok_def using one_page_tables by (auto simp: one_page_bases)
  then show ?thesis
    by (simp add: vm_inv_def one_page_vm_def vm_construct_def pf_inv_one_page F one_page_bases)
qed

lemma one_page_leaf: "vm_leaf one_page_vm 0x8000401000 = Some (False, 0x9007)"
proof -
  have "idx 0x8000401000 39 = 1" "idx 0x8000401000 30 = 0" "idx 0x8000401000 21 = 2" "idx 0x8000401000 12 = 1"
    by (simp_all add: idx_eq)
  then show ?thesis
    by (simp add: vm_leaf_def one_page_vm_def vm_construct_def leaf_at_def one_page_read Let_def kEntryAddressMask_def
        large_entry_def kEntryLargePage_def)
qed

lemma one_page_small: "\<not> large_mapped one_page_vm 0x8000401000"
  by (simp add: large_mapped_def one_page_leaf)

theorem vm_protect_correct_witness:
  "\<exists>vm'. vm_protect one_page_vm 0x8000401000 1 PageFlags_User = (True, vm') \<and> vm_inv vm' \<and>
     vm_translate vm' 0x8000401234 = Some (0x9234, 5) \<and> vm_shootdowns vm' = 1"
proof -
  have v: "vpn 0x8000401234 = vpn 0x8000401000" by (simp add: vpn_def)
  have "vm_translate one_page_vm 0x8000401234 = Some (0x9234, 7)"
    using vm_leaf_vpn [OF v, of one_page_vm] one_page_leaf
    by (simp add: vm_translate_leaf decode_leaf_def kEntryAddressMask_def kPageSize_def)
  moreover have "vm_translate one_page_vm 0x8000401000 \<noteq> None" by (simp add: vm_translate_leaf one_page_leaf)
  moreover have "vm_initialized one_page_vm" "vm_shootdowns one_page_vm = 0" "vm_root one_page_vm = 0x1000"
    "address_is_in_user_slot 0x8000401000"
    by (simp_all add: one_page_vm_def vm_construct_def address_is_in_user_slot_def page_index_def kUserPml4Index_def)
  ultimately show ?thesis
    using vm_protect_correct [OF vm_inv_one_page, of "0x8000401000" 1 PageFlags_User] one_page_small v
    by (cases "vm_protect one_page_vm 0x8000401000 1 PageFlags_User")
      (force simp: PageFlags_User_def PageFlags_Present_def kEntryAddressMask_def)
qed


theorem destroy_user_slot_frees_data_frame_witness:
  "\<exists>vm'. destroy_user_slot one_page_vm 1 = (True, vm') \<and> 0xB000 \<notin> free_addrs (vm_frames one_page_vm) \<and>
     0xB000 \<in> free_addrs (vm_frames vm')"
proof -
  let ?m = "vm_mem one_page_vm"
  have f: "vm_root one_page_vm = 0x1000" "?m = one_page_mem" "vm_initialized one_page_vm"
    "vm_frames one_page_vm = one_page_frames" "pf_page_count one_page_frames = 16"
    by (simp_all add: one_page_vm_def vm_construct_def one_page_frames_def)
  have o: "only_entry one_page_mem 0x2000 0" "only_entry one_page_mem 0x3000 2" "only_entry one_page_mem 0x4000 1"
    "only_entry one_page_mem 0x9000 5"
    by (simp_all add: only_entry_def one_page_read one_page_bases)
  have "0xB000 \<notin> free_addrs one_page_frames"
    by (simp add: free_addrs_def free_pages_one_page page_addr_def)
  then show ?thesis
    using destroy_user_slot_frees_data_frame [of one_page_vm 1 "0x2000" "0x3000" "0x4000" "0x9000" 0 2 1 5 "0xB000"] o
    by (auto simp: f pf_inv_one_page one_page_bases one_page_read kEntryAddressMask_def)
qed

end
