(* ===== verification/Event_Ring.thy ===== *)
theory Event_Ring
  imports Os1_Prelude
begin

text \<open>
  The kernel event ring of \<^verbatim>\<open>src/src/kernel/debug/event_ring.cpp\<close>: a fixed array of records that
  overwrites its oldest entry when it is full. The array is a list of the capacity's length; the
  contract clients rely on is the locale \<open>bounded_log\<close>, the last events in order.
\<close>

section \<open>Data\<close>

record event_record =
  ev_sequence :: u64
  ev_tick_count :: u64
  ev_pid :: u64
  ev_tid :: u64
  ev_arg0 :: u64
  ev_arg1 :: u64
  ev_arg2 :: u64
  ev_arg3 :: u64
  ev_type :: u32
  ev_flags :: u32
  ev_cpu :: u32

definition zero_event :: event_record where
  "zero_event = \<lparr>ev_sequence = 0, ev_tick_count = 0, ev_pid = 0, ev_tid = 0, ev_arg0 = 0,
     ev_arg1 = 0, ev_arg2 = 0, ev_arg3 = 0, ev_type = 0, ev_flags = 0, ev_cpu = 0\<rparr>"

definition kEventRingCapacity :: u32 where
  "kEventRingCapacity = 256"

record event_ring =
  er_records :: "event_record list"
  er_next_sequence :: u64
  er_head :: u32
  er_count :: u32

section \<open>Operations\<close>

definition min_u32 :: "u32 \<Rightarrow> u32 \<Rightarrow> u32" where
  "min_u32 left right = (if left < right then left else right)"

definition er_reset :: "event_ring \<Rightarrow> event_ring" where
  "er_reset r =
     r\<lparr>er_records := replicate (unat kEventRingCapacity) zero_event,
       er_next_sequence := 1, er_head := 0, er_count := 0\<rparr>"

text \<open>\<open>append\<close>: the fields of the event other than its sequence number are the arguments.\<close>

definition er_append :: "event_record \<Rightarrow> event_ring \<Rightarrow> event_record \<times> event_ring" where
  "er_append args r =
     (let ev = args\<lparr>ev_sequence := er_next_sequence r\<rparr>
      in (ev, r\<lparr>er_next_sequence := er_next_sequence r + 1,
                er_records := (er_records r)[unat (er_head r) := ev],
                er_head := (er_head r + 1) mod kEventRingCapacity,
                er_count := (if er_count r < kEventRingCapacity then er_count r + 1 else er_count r)\<rparr>))"

text \<open>\<open>snapshot\<close>: the copied prefix of the caller's buffer; a null buffer is \<open>max_records = 0\<close>.\<close>

definition er_snapshot :: "event_ring \<Rightarrow> u32 \<Rightarrow> event_record list" where
  "er_snapshot r max_records =
     (if max_records = 0 then []
      else
        let copy_count = min_u32 (er_count r) max_records;
            start = (er_head r + kEventRingCapacity - copy_count) mod kEventRingCapacity
        in map (\<lambda>i. er_records r ! unat ((start + of_nat i) mod kEventRingCapacity))
             [0 ..< unat copy_count])"

text \<open>
  \<open>record_subject\<close> and \<open>record\<close> on the kernel's one ring. The timer ticks and the CPU id are read
  from other components, so they are arguments; the current thread is its id and the pid of its
  process, if it has one.
\<close>

definition record_subject ::
  "u64 \<Rightarrow> u32 \<Rightarrow> u32 \<Rightarrow> u32 \<Rightarrow> u64 \<Rightarrow> u64 \<Rightarrow> u64 \<Rightarrow> u64 \<Rightarrow> u64 \<Rightarrow> u64 \<Rightarrow> event_ring \<Rightarrow> event_ring" where
  "record_subject ticks cpu type flags pid tid arg0 arg1 arg2 arg3 ring =
     snd (er_append \<lparr>ev_sequence = 0, ev_tick_count = ticks, ev_pid = pid, ev_tid = tid, ev_arg0 = arg0,
       ev_arg1 = arg1, ev_arg2 = arg2, ev_arg3 = arg3, ev_type = type, ev_flags = flags, ev_cpu = cpu\<rparr> ring)"

definition record_event ::
  "u64 \<Rightarrow> u32 \<Rightarrow> (u64 \<times> u64 option) option \<Rightarrow> u32 \<Rightarrow> u32 \<Rightarrow> u64 \<Rightarrow> u64 \<Rightarrow> u64 \<Rightarrow> u64 \<Rightarrow> event_ring \<Rightarrow> event_ring" where
  "record_event ticks cpu thread type flags arg0 arg1 arg2 arg3 ring =
     (let (tid, pid) = (case thread of
            None \<Rightarrow> (0, 0)
          | Some (t, None) \<Rightarrow> (t, 0)
          | Some (t, Some p) \<Rightarrow> (t, p))
      in snd (er_append \<lparr>ev_sequence = 0, ev_tick_count = ticks, ev_pid = pid, ev_tid = tid, ev_arg0 = arg0,
       ev_arg1 = arg1, ev_arg2 = arg2, ev_arg3 = arg3, ev_type = type, ev_flags = flags, ev_cpu = cpu\<rparr> ring))"

section \<open>Contract\<close>

text \<open>A log that keeps the last \<open>cap\<close> entries.\<close>

definition last_n :: "nat \<Rightarrow> 'a list \<Rightarrow> 'a list" where
  "last_n n xs = drop (length xs - n) xs"

lemma length_last_n [simp]: "length (last_n n xs) = min n (length xs)"
  by (auto simp: last_n_def)

lemma nth_last_n: "i < min n (length xs) \<Longrightarrow> last_n n xs ! i = xs ! (length xs - n + i)"
  by (auto simp: last_n_def)

locale bounded_log =
  fixes cap :: nat
    and inv :: "'s \<Rightarrow> bool"
    and contents :: "'s \<Rightarrow> 'a list"
    and push :: "'a \<Rightarrow> 's \<Rightarrow> 's"
    and stamp :: "'s \<Rightarrow> 'a \<Rightarrow> 'a"
  assumes push_inv: "inv s \<Longrightarrow> inv (push x s)"
    and push_contents: "inv s \<Longrightarrow> contents (push x s) = last_n cap (contents s @ [stamp s x])"
    and contents_length: "inv s \<Longrightarrow> length (contents s) \<le> cap"
begin

primrec stamped :: "'a list \<Rightarrow> 's \<Rightarrow> 'a list" where
  "stamped [] s = []"
| "stamped (x # xs) s = stamp s x # stamped xs (push x s)"

lemma length_stamped [simp]: "length (stamped xs s) = length xs"
  by (induction xs arbitrary: s) auto

lemma history_inv: "inv s \<Longrightarrow> inv (fold push xs s)"
  by (induction xs arbitrary: s) (auto intro: push_inv)

lemma last_n_last_n: "last_n n (last_n n xs @ ys) = last_n n (xs @ ys)"
  by (cases "length xs \<le> n") (auto simp: last_n_def add.commute)

lemma history_contents: "inv s \<Longrightarrow> contents (fold push xs s) = last_n cap (contents s @ stamped xs s)"
proof (induction xs arbitrary: s)
  case Nil
  then show ?case using contents_length by (simp add: last_n_def)
next
  case (Cons x xs)
  from Cons.IH [OF push_inv [OF Cons.prems]] show ?case
    by (simp add: push_contents [OF Cons.prems] last_n_last_n)
qed

end

section \<open>The ring implements the contract\<close>

definition er_inv :: "event_ring \<Rightarrow> bool" where
  "er_inv r \<longleftrightarrow> length (er_records r) = 256 \<and> unat (er_head r) < 256 \<and> unat (er_count r) \<le> 256"

definition er_contents :: "event_ring \<Rightarrow> event_record list" where
  "er_contents r =
     map (\<lambda>i. er_records r ! ((unat (er_head r) + 256 - unat (er_count r) + i) mod 256)) [0 ..< unat (er_count r)]"

lemma unat_mod_capacity: "unat (w mod kEventRingCapacity) = unat w mod 256"
  by (simp add: kEventRingCapacity_def unat_mod)

lemma er_head_next:
  assumes "unat (er_head r) < 256"
  shows "unat ((er_head r + 1) mod kEventRingCapacity) = Suc (unat (er_head r)) mod 256"
proof -
  have "unat (er_head r + 1) = Suc (unat (er_head r))"
    using assms by (subst unat_add_lt) auto
  then show ?thesis by (simp add: unat_mod_capacity)
qed

lemma er_count_next:
  assumes "unat (er_count r) \<le> 256"
  shows "unat (if er_count r < kEventRingCapacity then er_count r + 1 else er_count r) = min 256 (Suc (unat (er_count r)))"
proof -
  have "unat (er_count r + 1) = Suc (unat (er_count r))" using assms by (subst unat_add_lt) auto
  then show ?thesis using assms by (auto simp: kEventRingCapacity_def word_less_nat_alt)
qed

lemma er_contents_nth:
  "i < unat (er_count r) \<Longrightarrow>
   er_contents r ! i = er_records r ! ((unat (er_head r) + 256 - unat (er_count r) + i) mod 256)"
  by (simp add: er_contents_def)

lemma length_er_contents [simp]: "length (er_contents r) = unat (er_count r)"
  by (simp add: er_contents_def)

lemma er_append_fields:
  assumes "er_inv r"
  shows "unat (er_head (snd (er_append ev r))) = Suc (unat (er_head r)) mod 256"
    and "unat (er_count (snd (er_append ev r))) = min 256 (Suc (unat (er_count r)))"
    and "er_records (snd (er_append ev r)) = (er_records r)[unat (er_head r) := ev\<lparr>ev_sequence := er_next_sequence r\<rparr>]"
    and "er_next_sequence (snd (er_append ev r)) = er_next_sequence r + 1"
  using assms er_head_next [of r] er_count_next [of r] by (simp_all add: er_inv_def er_append_def Let_def)

lemma er_append_inv: "er_inv r \<Longrightarrow> er_inv (snd (er_append ev r))"
  by (simp add: er_inv_def er_append_def Let_def er_head_next er_count_next)

lemma er_append_contents:
  assumes "er_inv r"
  shows "er_contents (snd (er_append ev r)) = last_n 256 (er_contents r @ [ev\<lparr>ev_sequence := er_next_sequence r\<rparr>])"
proof (rule nth_equalityI)
  let ?h = "unat (er_head r)" and ?c = "unat (er_count r)" and ?e = "ev\<lparr>ev_sequence := er_next_sequence r\<rparr>"
  from assms have h: "?h < 256" and c: "?c \<le> 256" and l: "length (er_records r) = 256"
    by (simp_all add: er_inv_def)
  show "length (er_contents (snd (er_append ev r))) = length (last_n 256 (er_contents r @ [?e]))"
    by (auto simp: er_append_fields [OF assms] last_n_def)
  fix i
  assume "i < length (er_contents (snd (er_append ev r)))"
  then have i: "i < min 256 (Suc ?c)" by (simp add: er_append_fields [OF assms])
  let ?j = "(Suc ?h mod 256 + 256 - min 256 (Suc ?c) + i) mod 256"
  have lhs: "er_contents (snd (er_append ev r)) ! i = (er_records r)[?h := ?e] ! ?j"
    using i er_contents_nth [of i "snd (er_append ev r)"] by (simp only: er_append_fields [OF assms])
  have rhs: "last_n 256 (er_contents r @ [?e]) ! i = (er_contents r @ [?e]) ! (Suc ?c - 256 + i)"
    using i by (subst nth_last_n) auto
  have j: "?j = (?h + 256 - ?c + (Suc ?c - 256 + i)) mod 256"
  proof (cases "?c = 256")
    case True
    then show ?thesis by (simp add: mod_simps)
  next
    case False
    then have k: "min 256 (Suc ?c) = Suc ?c" "Suc ?c - 256 = 0" using c by simp_all
    show ?thesis
    proof (cases "?h = 255")
      case True
      then have "?h + 256 - ?c + i = (255 - ?c + i) + 256" "Suc ?h mod 256 + 256 - Suc ?c + i = 255 - ?c + i"
        using False c by simp_all
      then show ?thesis by (simp only: k add_0 mod_add_self2)
    next
      case False
      then have "Suc ?h mod 256 = Suc ?h" using h by simp
      then show ?thesis using c unfolding k by (simp add: add.commute)
    qed
  qed
  show "er_contents (snd (er_append ev r)) ! i = last_n 256 (er_contents r @ [?e]) ! i"
  proof (cases "Suc ?c - 256 + i = ?c")
    case True
    then have "?j = ?h" unfolding j using h c by simp
    then show ?thesis using True l h unfolding lhs rhs by (simp add: nth_append)
  next
    case False
    then have lt: "Suc ?c - 256 + i < ?c" using i c by auto
    define x where "x = 256 - ?c + (Suc ?c - 256 + i)"
    have x: "0 < x" "x < 256" using lt c i unfolding x_def by auto
    have "?h + 256 - ?c + (Suc ?c - 256 + i) = ?h + x" unfolding x_def using c by arith
    then have "?j \<noteq> ?h" unfolding j using h x by (auto simp: mod_if)
    then show ?thesis using lt l h unfolding lhs rhs j by (simp add: nth_append er_contents_nth)
  qed
qed

interpretation er: bounded_log 256 er_inv er_contents "\<lambda>ev r. snd (er_append ev r)"
  "\<lambda>r ev. ev\<lparr>ev_sequence := er_next_sequence r\<rparr>"
  by unfold_locales (simp_all add: er_append_inv er_append_contents, simp add: er_inv_def)

lemma er_snapshot_eq:
  assumes "er_inv r"
  shows "er_snapshot r m = last_n (unat m) (er_contents r)"
proof (cases "m = 0")
  case True
  then show ?thesis by (simp add: er_snapshot_def last_n_def)
next
  case False
  from assms have h: "unat (er_head r) < 256" and c: "unat (er_count r) \<le> 256" by (simp_all add: er_inv_def)
  let ?k = "min_u32 (er_count r) m"
  have k: "unat ?k = min (unat (er_count r)) (unat m)"
    by (auto simp: min_u32_def word_less_nat_alt)
  have "unat (er_head r + kEventRingCapacity) = unat (er_head r) + 256"
    using h by (subst unat_add_lt) (auto simp: kEventRingCapacity_def)
  then have "unat (er_head r + kEventRingCapacity - ?k) = unat (er_head r) + 256 - unat ?k"
    using c k by (subst unat_sub_le) auto
  then have start: "unat ((er_head r + kEventRingCapacity - ?k) mod kEventRingCapacity) = (unat (er_head r) + 256 - unat ?k) mod 256"
    by (simp add: unat_mod_capacity)
  have pos: "unat (((er_head r + kEventRingCapacity - ?k) mod kEventRingCapacity + of_nat i) mod kEventRingCapacity) =
      (unat (er_head r) + 256 - unat (er_count r) + (unat (er_count r) - unat m + i)) mod 256"
    if i: "i < unat ?k" for i
  proof -
    have u: "unat (of_nat i :: u32) = i" using i c k by (intro unat_of_nat_lt) simp
    then have "unat ((er_head r + kEventRingCapacity - ?k) mod kEventRingCapacity + of_nat i) =
        (unat (er_head r) + 256 - unat ?k) mod 256 + i"
      using start i c k by (subst unat_add_lt) auto
    then have "unat (((er_head r + kEventRingCapacity - ?k) mod kEventRingCapacity + of_nat i) mod kEventRingCapacity) =
        (unat (er_head r) + 256 - unat ?k + i) mod 256"
      by (simp add: unat_mod_capacity mod_simps)
    moreover have "unat (er_head r) + 256 - unat ?k + i =
        unat (er_head r) + 256 - unat (er_count r) + (unat (er_count r) - unat m + i)"
      unfolding k using c by arith
    ultimately show ?thesis by simp
  qed
  show ?thesis
  proof (rule nth_equalityI)
    show "length (er_snapshot r m) = length (last_n (unat m) (er_contents r))"
      using False k by (simp add: er_snapshot_def Let_def)
    fix i
    assume "i < length (er_snapshot r m)"
    then have i: "i < unat ?k" using False by (simp add: er_snapshot_def Let_def)
    then have "er_snapshot r m ! i = er_records r !
        ((unat (er_head r) + 256 - unat (er_count r) + (unat (er_count r) - unat m + i)) mod 256)"
      using False pos [OF i] by (simp add: er_snapshot_def Let_def)
    also have "\<dots> = er_contents r ! (unat (er_count r) - unat m + i)"
      using i k by (intro er_contents_nth [symmetric]) auto
    also have "\<dots> = last_n (unat m) (er_contents r) ! i" using i k by (subst nth_last_n) auto
    finally show "er_snapshot r m ! i = last_n (unat m) (er_contents r) ! i" .
  qed
qed

definition numbered :: "nat \<Rightarrow> event_record list \<Rightarrow> event_record list" where
  "numbered k evs = map (\<lambda>(i, ev). ev\<lparr>ev_sequence := of_nat i\<rparr>) (enumerate k evs)"

lemma er_stamped:
  "er_inv r \<Longrightarrow> er_next_sequence r = of_nat k \<Longrightarrow> er.stamped evs r = numbered k evs"
proof (induction evs arbitrary: r k)
  case (Cons ev evs)
  from Cons.IH [OF er_append_inv [OF Cons.prems(1)], of ev "Suc k"] Cons.prems show ?case
    by (simp add: numbered_def er_append_fields(4) add.commute)
qed (simp add: numbered_def)

lemma er_reset_inv: "er_inv (er_reset r)" "er_contents (er_reset r) = []"
  by (simp_all add: er_inv_def er_reset_def er_contents_def kEventRingCapacity_def)

text \<open>
  C11. The event ring refines a bounded log. After a reset and any sequence of events, a snapshot
  of at most \<open>m\<close> records is exactly the last \<open>min m 256\<close> of them, oldest first, numbered with
  consecutive sequence numbers from 1: no wrap of the head index loses, repeats or reorders an
  event.
\<close>

theorem event_ring_snapshot:
  "er_snapshot (fold (\<lambda>ev r. snd (er_append ev r)) evs (er_reset r)) m =
     last_n (min (unat m) 256) (numbered 1 evs)"
proof -
  have "er_next_sequence (er_reset r) = of_nat 1" by (simp add: er_reset_def)
  from er_stamped [OF er_reset_inv(1) this]
  have "er_contents (fold (\<lambda>ev r. snd (er_append ev r)) evs (er_reset r)) = last_n 256 (numbered 1 evs)"
    using er.history_contents [OF er_reset_inv(1), of evs] by (simp add: er_reset_inv(2))
  moreover have "last_n a (last_n b xs) = last_n (min a b) xs" for a b and xs :: "event_record list"
    by (cases "length xs \<le> b") (auto simp: last_n_def min_def)
  ultimately show ?thesis by (simp add: er_snapshot_eq er.history_inv er_reset_inv(1))
qed

end
