(* ===== verification/User_Copy.thy ===== *)
theory User_Copy
  imports Virtual_Memory_Spec Event_Ring
begin

text \<open>
  The boundary between user pointers and kernel code: the range check of
  \<^verbatim>\<open>src/src/kernel/mm/user_address.hpp\<close> and the copy routines of \<^verbatim>\<open>src/src/kernel/mm/user_copy.cpp\<close>.
  Bytes are read out of and written into the little-endian words of physical memory; a kernel
  buffer is a byte list, and for a copy out of user space the result is what was written to it.
  Each routine records its failures in the event ring.
\<close>

section \<open>Bytes of physical memory\<close>

definition read8 :: "phys_mem \<Rightarrow> u64 \<Rightarrow> u8" where
  "read8 mem a = ucast (drop_bit (8 * (unat a mod 8)) (mem (a AND NOT 7)))"

definition write8 :: "phys_mem \<Rightarrow> u64 \<Rightarrow> u8 \<Rightarrow> phys_mem" where
  "write8 mem a b =
     (let w = a AND NOT 7; s = 8 * (unat a mod 8)
      in mem(w := (mem w AND NOT (push_bit s 0xFF)) OR push_bit s (ucast b)))"

primrec phys_write :: "phys_mem \<Rightarrow> u64 \<Rightarrow> u8 list \<Rightarrow> phys_mem" where
  "phys_write mem p [] = mem"
| "phys_write mem p (b # bs) = phys_write (write8 mem p b) (p + 1) bs"

definition phys_read :: "phys_mem \<Rightarrow> u64 \<Rightarrow> nat \<Rightarrow> u8 list" where
  "phys_read mem p n = map (\<lambda>i. read8 mem (p + of_nat i)) [0 ..< n]"

section \<open>The range check\<close>

definition kUserSpaceBase :: u64 where
  "kUserSpaceBase = 0x0000008000000000"

definition kUserStackTop :: u64 where
  "kUserStackTop = 0x0000008040000000"

definition is_canonical_virtual_address :: "u64 \<Rightarrow> bool" where
  "is_canonical_virtual_address address \<longleftrightarrow>
     (let upper_bits = drop_bit 48 address in upper_bits = 0 \<or> upper_bits = 0xFFFF)"

definition is_user_address_range :: "u64 \<Rightarrow> u64 \<Rightarrow> bool" where
  "is_user_address_range address len =
     (if len = 0 then True
      else if address = 0 \<or> \<not> is_canonical_virtual_address address then False
      else
        let last_byte_offset = len - 1
        in if address > NOT 0 - last_byte_offset then False
           else
             let end_address = address + last_byte_offset
             in if \<not> is_canonical_virtual_address end_address then False
                else address \<ge> kUserSpaceBase \<and> end_address < kUserStackTop)"

definition has_required_user_flags :: "u64 \<Rightarrow> bool \<Rightarrow> bool" where
  "has_required_user_flags flags require_write =
     (if flags AND PageFlags_User \<noteq> PageFlags_User then False
      else if require_write \<and> flags AND PageFlags_Write \<noteq> PageFlags_Write then False
      else True)"

section \<open>Copies\<close>

text \<open>The thread whose address space is copied: its id, the pid of its process, its page-table root.\<close>

record user_thread =
  ut_tid :: u64
  ut_pid :: "u64 option"
  ut_address_space_cr3 :: u64

definition user_copy_pid :: "user_thread option \<Rightarrow> u64" where
  "user_copy_pid thread = (case thread of None \<Rightarrow> 0 | Some t \<Rightarrow> (case ut_pid t of None \<Rightarrow> 0 | Some p \<Rightarrow> p))"

definition user_copy_tid :: "user_thread option \<Rightarrow> u64" where
  "user_copy_tid thread = (case thread of None \<Rightarrow> 0 | Some t \<Rightarrow> ut_tid t)"

datatype copy_reason = NullContext | BadRange | Translate | Permission | StringTooLong

fun reason_code :: "copy_reason \<Rightarrow> u64" where
  "reason_code NullContext = 1"
| "reason_code BadRange = 2"
| "reason_code Translate = 3"
| "reason_code Permission = 4"
| "reason_code StringTooLong = 5"

definition flag_to_user :: u32 where
  "flag_to_user = 0x10"

definition flag_from_user :: u32 where
  "flag_from_user = 0x20"

text \<open>The memory and the ring the copies run on, with the clock and CPU the ring stamps.\<close>

record copy_env =
  ce_mem :: phys_mem
  ce_ring :: event_ring
  ce_ticks :: u64
  ce_cpu :: u32

definition record_user_copy_failure ::
  "user_thread option \<Rightarrow> u32 \<Rightarrow> u64 \<Rightarrow> u64 \<Rightarrow> copy_reason \<Rightarrow> u64 \<Rightarrow> copy_env \<Rightarrow> copy_env" where
  "record_user_copy_failure thread flags user_pointer len reason offset env =
     env\<lparr>ce_ring := record_subject (ce_ticks env) (ce_cpu env) 6 flags (user_copy_pid thread)
          (user_copy_tid thread) user_pointer len (reason_code reason) offset (ce_ring env)\<rparr>"

definition copy_chunk :: "u64 \<Rightarrow> u64 \<Rightarrow> u64 \<Rightarrow> u64" where
  "copy_chunk user_pointer len copied =
     (let page_offset = (user_pointer + copied) AND (kPageSize - 1)
      in if len - copied < kPageSize - page_offset then len - copied else kPageSize - page_offset)"

lemma copy_chunk_bounds:
  assumes "copied < len"
  shows "0 < unat (copy_chunk p len copied)" "unat copied + unat (copy_chunk p len copied) \<le> unat len"
    "unat (copy_chunk p len copied) \<le> 4096 - unat (p + copied) mod 4096"
proof -
  have off: "unat ((p + copied) AND (kPageSize - 1)) = unat (p + copied) mod 4096"
    by (simp add: kPageSize_def unat_page_offset)
  have "unat (p + copied) mod 4096 < 4096" by simp
  then have rest: "unat (kPageSize - ((p + copied) AND (kPageSize - 1))) = 4096 - unat (p + copied) mod 4096"
    using off by (subst unat_sub_le) simp_all
  have lc: "unat (len - copied) = unat len - unat copied" "unat copied < unat len"
    using assms by (simp_all add: unat_sub_le word_less_nat_alt)
  show "0 < unat (copy_chunk p len copied)" "unat copied + unat (copy_chunk p len copied) \<le> unat len"
    "unat (copy_chunk p len copied) \<le> 4096 - unat (p + copied) mod 4096"
    using lc rest \<open>unat (p + copied) mod 4096 < 4096\<close>
    by (auto simp: copy_chunk_def Let_def word_less_nat_alt)
qed

lemma copy_chunk_progress:
  assumes "copied < len"
  shows "unat len - unat (copied + copy_chunk p len copied) < unat len - unat copied"
    "copied + copy_chunk p len copied \<le> len"
    "unat (copied + copy_chunk p len copied) = unat copied + unat (copy_chunk p len copied)"
proof -
  note b = copy_chunk_bounds [OF assms, of p]
  show s: "unat (copied + copy_chunk p len copied) = unat copied + unat (copy_chunk p len copied)"
    using b(2) u64_less [of len] by (intro unat_add_u64) linarith
  show "unat len - unat (copied + copy_chunk p len copied) < unat len - unat copied"
    "copied + copy_chunk p len copied \<le> len"
    using b s assms by (simp_all add: word_less_nat_alt word_le_nat_alt)
qed

text \<open>
  The loops. \<open>Inl\<close> is the failure with its offset; memory is returned either way, since earlier
  chunks have been written.
\<close>

function copy_into_address_space_loop ::
  "bool \<Rightarrow> u64 \<Rightarrow> u64 \<Rightarrow> u8 list \<Rightarrow> u64 \<Rightarrow> u64 \<Rightarrow> phys_mem \<Rightarrow> bool \<times> phys_mem" where
  "copy_into_address_space_loop initialized root virtual_address source len copied mem =
     (if copied < len then
        (case translate mem initialized root (virtual_address + copied) of
           None \<Rightarrow> (False, mem)
         | Some (physical, flags) \<Rightarrow>
             let chunk = copy_chunk virtual_address len copied
             in copy_into_address_space_loop initialized root virtual_address source len (copied + chunk)
                  (phys_write mem physical (take (unat chunk) (drop (unat copied) source))))
      else (True, mem))"
  by pat_completeness auto
termination
  by (relation "measure (\<lambda>(i, r, v, s, len, copied, m). unat len - unat copied)")
    (use copy_chunk_progress(1) in auto)

definition copy_into_address_space :: "vm \<Rightarrow> u64 \<Rightarrow> u8 list \<Rightarrow> u64 \<Rightarrow> bool \<times> vm" where
  "copy_into_address_space vm virtual_address source len =
     (case copy_into_address_space_loop (vm_initialized vm) (vm_root vm) virtual_address source len 0 (vm_mem vm) of
        (ok, mem) \<Rightarrow> (ok, vm\<lparr>vm_mem := mem\<rparr>))"

function copy_to_loop ::
  "u64 \<Rightarrow> u64 \<Rightarrow> u8 list \<Rightarrow> u64 \<Rightarrow> u64 \<Rightarrow> phys_mem \<Rightarrow> (copy_reason \<times> u64 + unit) \<times> phys_mem" where
  "copy_to_loop cr3 user_pointer source len copied mem =
     (if copied < len then
        (case translate mem (cr3 \<noteq> NOT 0) cr3 (user_pointer + copied) of
           None \<Rightarrow> (Inl (Translate, copied), mem)
         | Some (physical, flags) \<Rightarrow>
             if \<not> has_required_user_flags flags True then (Inl (Permission, copied), mem)
             else
               let chunk = copy_chunk user_pointer len copied
               in copy_to_loop cr3 user_pointer source len (copied + chunk)
                    (phys_write mem physical (take (unat chunk) (drop (unat copied) source))))
      else (Inr (), mem))"
  by pat_completeness auto
termination
  by (relation "measure (\<lambda>(r, v, s, len, copied, m). unat len - unat copied)")
    (use copy_chunk_progress(1) in auto)

definition copy_to_user ::
  "user_thread option \<Rightarrow> u64 \<Rightarrow> u8 list option \<Rightarrow> u64 \<Rightarrow> copy_env \<Rightarrow> bool \<times> copy_env" where
  "copy_to_user thread user_pointer source len env =
     (case (thread, source) of
        (Some t, Some src) \<Rightarrow>
          if \<not> is_user_address_range user_pointer len
          then (False, record_user_copy_failure thread flag_to_user user_pointer len BadRange 0 env)
          else
            (case copy_to_loop (ut_address_space_cr3 t) user_pointer src len 0 (ce_mem env) of
               (Inl (reason, offset), mem) \<Rightarrow>
                 (False, record_user_copy_failure thread flag_to_user user_pointer len reason offset
                           (env\<lparr>ce_mem := mem\<rparr>))
             | (Inr _, mem) \<Rightarrow> (True, env\<lparr>ce_mem := mem\<rparr>))
      | _ \<Rightarrow> (False, record_user_copy_failure thread flag_to_user user_pointer len NullContext 0 env))"

function copy_from_loop ::
  "phys_mem \<Rightarrow> u64 \<Rightarrow> u64 \<Rightarrow> u64 \<Rightarrow> u64 \<Rightarrow> (copy_reason \<times> u64 + unit) \<times> u8 list" where
  "copy_from_loop mem cr3 user_pointer len copied =
     (if copied < len then
        (case translate mem (cr3 \<noteq> NOT 0) cr3 (user_pointer + copied) of
           None \<Rightarrow> (Inl (Translate, copied), [])
         | Some (physical, flags) \<Rightarrow>
             if \<not> has_required_user_flags flags False then (Inl (Permission, copied), [])
             else
               let chunk = copy_chunk user_pointer len copied
               in case copy_from_loop mem cr3 user_pointer len (copied + chunk) of
                    (r, bytes) \<Rightarrow> (r, phys_read mem physical (unat chunk) @ bytes))
      else (Inr (), []))"
  by pat_completeness auto
termination
  by (relation "measure (\<lambda>(m, r, v, len, copied). unat len - unat copied)")
    (use copy_chunk_progress(1) in auto)

declare copy_into_address_space_loop.simps [simp del] copy_to_loop.simps [simp del]
  copy_from_loop.simps [simp del]

text \<open>
  \<open>copy_from_user\<close> returns the bytes it wrote to the front of the destination; \<open>dest\<close> says whether
  the destination pointer is not null.
\<close>

definition copy_from_user ::
  "user_thread option \<Rightarrow> u64 \<Rightarrow> bool \<Rightarrow> u64 \<Rightarrow> copy_env \<Rightarrow> bool \<times> u8 list \<times> copy_env" where
  "copy_from_user thread user_pointer dest len env =
     (case thread of
        Some t \<Rightarrow>
          if \<not> dest
          then (False, [], record_user_copy_failure thread flag_from_user user_pointer len NullContext 0 env)
          else if \<not> is_user_address_range user_pointer len
          then (False, [], record_user_copy_failure thread flag_from_user user_pointer len BadRange 0 env)
          else
            (case copy_from_loop (ce_mem env) (ut_address_space_cr3 t) user_pointer len 0 of
               (Inl (reason, offset), bytes) \<Rightarrow>
                 (False, bytes, record_user_copy_failure thread flag_from_user user_pointer len reason offset env)
             | (Inr _, bytes) \<Rightarrow> (True, bytes, env))
      | None \<Rightarrow> (False, [], record_user_copy_failure thread flag_from_user user_pointer len NullContext 0 env))"

fun copy_user_string_loop ::
  "user_thread option \<Rightarrow> u64 \<Rightarrow> nat list \<Rightarrow> copy_env \<Rightarrow> bool option \<times> u8 list \<times> copy_env" where
  "copy_user_string_loop thread user_pointer [] env = (None, [], env)"
| "copy_user_string_loop thread user_pointer (index # rest) env =
     (case copy_from_user thread (user_pointer + of_nat index) True 1 env of
        (False, _, env1) \<Rightarrow> (Some False, [], env1)
      | (True, bytes, env1) \<Rightarrow>
          let ch = hd bytes
          in if ch = 0 then (Some True, [ch], env1)
             else case copy_user_string_loop thread user_pointer rest env1 of
                    (r, written, env2) \<Rightarrow> (r, ch # written, env2))"

definition copy_user_string ::
  "user_thread option \<Rightarrow> u64 \<Rightarrow> bool \<Rightarrow> u64 \<Rightarrow> copy_env \<Rightarrow> bool \<times> u8 list \<times> copy_env" where
  "copy_user_string thread user_pointer dest destination_size env =
     (if thread = None \<or> \<not> dest \<or> destination_size = 0 \<or> user_pointer = 0
      then (False, [], record_user_copy_failure thread flag_from_user user_pointer destination_size NullContext 0 env)
      else
        (case copy_user_string_loop thread user_pointer [0 ..< unat destination_size] env of
           (Some r, written, env1) \<Rightarrow> (r, written, env1)
         | (None, written, env1) \<Rightarrow>
             (False, written[unat (destination_size - 1) := 0],
              record_user_copy_failure thread flag_from_user user_pointer destination_size StringTooLong 0 env1)))"

end
