(* ===== verification/User_Copy_Props.thy ===== *)
theory User_Copy_Props
  imports User_Copy Virtual_Memory_Props
begin

text \<open>
  The copy routines against byte-by-byte references: which ranges are accepted, that copying in
  page-sized chunks reads and writes exactly the bytes the page tables of the thread map, and that
  nothing is copied through a page the thread may not use.
\<close>

section \<open>The range check\<close>

lemma canonical_low: "unat a < 2 ^ 47 \<Longrightarrow> is_canonical_virtual_address a"
proof -
  assume "unat a < 2 ^ 47"
  then have "unat (drop_bit 48 a) = 0" by (simp add: unat_drop_bit)
  then show ?thesis by (simp add: is_canonical_virtual_address_def unat_eq_zero)
qed

text \<open>
  C12. \<open>is_user_address_range\<close> accepts a range exactly when it is empty or lies, without
  wrapping, inside the user window from \<open>kUserSpaceBase\<close> up to \<open>kUserStackTop\<close>.
\<close>

theorem is_user_address_range_iff:
  "is_user_address_range a len \<longleftrightarrow>
     len = 0 \<or> unat kUserSpaceBase \<le> unat a \<and> unat a + unat len \<le> unat kUserStackTop"
proof (cases "len = 0")
  case False
  then have l: "unat (len - 1) = unat len - 1" "0 < unat len"
    by (simp_all add: unat_gt_0 unat_sub_le Suc_le_eq)
  have nw: "a > NOT 0 - (len - 1) \<longleftrightarrow> 2 ^ 64 \<le> unat a + unat (len - 1)"
    using checked_add_None_iff [of a "len - 1"] unfolding checked_add_def by (auto split: if_splits)
  have e: "unat (a + (len - 1)) = unat a + unat len - 1" if "unat a + unat (len - 1) < 2 ^ 64"
    using that l by (subst unat_add_u64) auto
  show ?thesis
  proof (cases "unat kUserSpaceBase \<le> unat a \<and> unat a + unat len \<le> unat kUserStackTop")
    case True
    then have b: "unat a + unat (len - 1) < 2 ^ 47" using l by (auto simp: kUserStackTop_def)
    then have "is_canonical_virtual_address a" "is_canonical_virtual_address (a + (len - 1))"
      using e by (auto intro!: canonical_low simp: l)
    moreover have "a \<noteq> 0" using True by (auto simp: kUserSpaceBase_def)
    ultimately show ?thesis
      using True b False nw e l
      by (auto simp: is_user_address_range_def Let_def word_le_nat_alt word_less_nat_alt)
  next
    case outside: False
    have "False" if "is_user_address_range a len"
    proof -
      from that False nw have "unat a + unat (len - 1) < 2 ^ 64" "kUserSpaceBase \<le> a" "a + (len - 1) < kUserStackTop"
        by (auto simp: is_user_address_range_def Let_def split: if_splits)
      with e l outside show False by (auto simp: word_le_nat_alt word_less_nat_alt)
    qed
    then show ?thesis using outside False by blast
  qed
qed (simp add: is_user_address_range_def)

section \<open>Bytes\<close>

lemma word_of_byte: "unat (a AND NOT 7) = unat a div 8 * 8" for a :: u64
proof -
  have "(7 :: u64) = mask 3" by (simp add: mask_eq_exp_minus_1)
  then show ?thesis by (simp only: unat_and_not_mask) simp
qed

lemma same_word_iff: "a AND NOT 7 = c AND NOT 7 \<longleftrightarrow> unat a div 8 = unat c div 8" for a c :: u64
  unfolding word_unat_eq_iff word_of_byte by simp

lemma read8_write8: "read8 (write8 mem a b) c = (if c = a then b else read8 mem c)"
proof (cases "a AND NOT 7 = c AND NOT 7")
  case True
  have lt: "unat a mod 8 < 8" "unat c mod 8 < 8" by simp_all
  from True have "unat a div 8 = unat c div 8" by (simp only: same_word_iff)
  then have same: "c = a \<longleftrightarrow> unat c mod 8 = unat a mod 8"
    unfolding word_unat_eq_iff by (metis div_mult_mod_eq)
  show ?thesis
  proof (rule bit_word_eqI)
    fix n
    assume "n < LENGTH(8)"
    then have n: "n < 8" by simp
    let ?s = "8 * (unat a mod 8)" and ?u = "8 * (unat c mod 8)"
    have in_word: "?u + n < 64" using lt n by simp
    have ff: "(0xFF :: u64) = mask 8" by (simp add: mask_eq_exp_minus_1)
    have hit: "?s \<le> ?u + n \<and> ?u + n - ?s < 8 \<longleftrightarrow> unat c mod 8 = unat a mod 8"
      using n by (cases "unat c mod 8" "unat a mod 8" rule: linorder_cases) auto
    show "bit (read8 (write8 mem a b) c) n = bit (if c = a then b else read8 mem c) n"
      using True n in_word hit same
      unfolding read8_def write8_def Let_def ff by (auto simp: bit_simps dest: bit_imp_le_length)
  qed
next
  case False
  then show ?thesis by (auto simp: read8_def write8_def Let_def)
qed




section \<open>Translation inside a page\<close>

lemma or_eq_add: "x AND y = 0 \<Longrightarrow> x OR y = x + y" for x y :: u64
  by (rule disjunctive_add [symmetric]) (metis bit_and_iff bit_0_eq bot_apply bot_bool_def)

lemma mod_step:
  assumes "(x::nat) mod 4096 + k < 4096" and "12 \<le> m"
  shows "(x + k) mod 2 ^ m = x mod 2 ^ m + k" and "x mod 2 ^ m + k < 2 ^ m"
proof -
  have split: "(2::nat) ^ m = 4096 * 2 ^ (m - 12)" using power_add [of "2::nat" 12 "m - 12"] assms(2) by simp
  define q where "q = x div 4096 mod 2 ^ (m - 12)"
  have q: "x mod 2 ^ m = 4096 * q + x mod 4096" unfolding split q_def by (rule mod_mult2_eq)
  have "q < 2 ^ (m - 12)" by (simp add: q_def)
  then have "4096 * Suc q \<le> 2 ^ m" unfolding split by (intro mult_le_mono2) simp
  then show lt: "x mod 2 ^ m + k < 2 ^ m" unfolding q using assms(1) by simp
  have "(x + k) mod 2 ^ m = (x mod 2 ^ m + k) mod 2 ^ m" by (simp add: mod_simps)
  with lt show "(x + k) mod 2 ^ m = x mod 2 ^ m + k" by simp
qed

lemma unat_page_step_in:
  fixes va :: u64
  assumes "unat va mod 4096 + k < 4096"
  shows "unat (va + of_nat k) = unat va + k"
proof -
  have "unat va mod 2 ^ 64 + k < 2 ^ 64" by (rule mod_step(2) [OF assms]) simp
  then have "unat va + k < 2 ^ 64" by simp
  moreover have "unat (of_nat k :: u64) = k" using assms by (intro unat_of_nat_u64) simp
  ultimately show ?thesis by (subst unat_add_u64) auto
qed

lemma unat_and_mask: "unat (a AND mask m) = unat a mod 2 ^ m" for a :: u64
  by (simp add: take_bit_eq_mask [symmetric] unsigned_take_bit_eq take_bit_eq_mod [where 'a = nat])

lemma and_mask_step:
  fixes va :: u64
  assumes "unat va mod 4096 + k < 4096" and "12 \<le> m" "m \<le> 64"
  shows "(va + of_nat k) AND mask m = (va AND mask m) + of_nat k"
proof -
  have k: "unat (of_nat k :: u64) = k" using assms(1) by (intro unat_of_nat_u64) simp
  note step = mod_step [OF assms(1,2)]
  have "(2::nat) ^ m \<le> 2 ^ 64" using assms(3) by (intro power_increasing) simp_all
  then have "unat ((va AND mask m) + of_nat k) = unat va mod 2 ^ m + k"
    using step(2) k by (subst unat_add_u64) (simp_all only: unat_and_mask)
  moreover have "unat ((va + of_nat k) AND mask m) = unat va mod 2 ^ m + k"
    by (simp only: unat_and_mask unat_page_step_in [OF assms(1)] step(1))
  ultimately show ?thesis by (simp only: word_unat_eq_iff)
qed

lemma decode_leaf_step:
  fixes va :: u64
  assumes "unat va mod 4096 + k < 4096"
  shows "decode_leaf (va + of_nat k) l = (fst (decode_leaf va l) + of_nat k, snd (decode_leaf va l))"
proof -
  have m: "kPageSize - 1 = mask 12" "kLargePageOffsetMask2MiB = mask 21"
    by (simp_all add: kPageSize_def kLargePageOffsetMask2MiB_def kLargePageSize2MiB_def mask_eq_exp_minus_1)
  have d: "(e AND kEntryAddressMask) AND (a AND mask 12) = 0"
    "(e AND kLargePageAddressMask2MiB) AND (a AND mask 21) = 0" for e a :: u64
  proof -
    have "kEntryAddressMask AND mask 12 = 0" "kLargePageAddressMask2MiB AND mask 21 = 0"
      by (simp_all add: kEntryAddressMask_def kLargePageAddressMask2MiB_def mask_eq_exp_minus_1)
    then show "(e AND kEntryAddressMask) AND (a AND mask 12) = 0"
      "(e AND kLargePageAddressMask2MiB) AND (a AND mask 21) = 0"
      by (metis and.assoc and.left_commute and_zero_eq)+
  qed
  show ?thesis
    unfolding decode_leaf_def m or_eq_add [OF d(1)] or_eq_add [OF d(2)]
    using and_mask_step [OF assms, of 12] and_mask_step [OF assms, of 21] by (simp add: add.assoc)
qed

lemma leaf_at_vpn: "vpn a = vpn b \<Longrightarrow> leaf_at mem root a = leaf_at mem root b"
proof -
  assume "vpn a = vpn b"
  then have i: "idx a 12 = idx b 12" "idx a 21 = idx b 21" "idx a 30 = idx b 30" "idx a 39 = idx b 39"
    unfolding page_path_eq_iff [symmetric] page_path_def by simp_all
  show ?thesis unfolding leaf_at_def i by (rule refl)
qed

lemma vpn_step:
  fixes va :: u64
  assumes "unat va mod 4096 + k < 4096"
  shows "vpn (va + of_nat k) = vpn va"
proof -
  have "(unat va + k) div 4096 = unat va div 4096 + (unat va mod 4096 + k) div 4096"
    by (metis div_mult_self4 div_mult_mod_eq add.assoc mult.commute zero_neq_numeral)
  then show ?thesis using assms by (simp add: vpn_def unat_page_step_in)
qed

lemma translate_step:
  assumes "unat va mod 4096 + k < 4096"
  shows "translate mem init root (va + of_nat k) =
    map_option (\<lambda>(p, fl). (p + of_nat k, fl)) (translate mem init root va)"
proof (cases init)
  case True
  then show ?thesis
    using leaf_at_vpn [OF vpn_step [OF assms]] decode_leaf_step [OF assms]
    by (cases "leaf_at mem root va") (simp_all add: translate_leaf_at case_prod_unfold)
qed (simp add: translate_def)

section \<open>Copying out of user space\<close>

definition user_access :: "phys_mem \<Rightarrow> u64 \<Rightarrow> bool \<Rightarrow> u64 \<Rightarrow> u64 option" where
  "user_access mem cr3 wr a =
     (case translate mem (cr3 \<noteq> NOT 0) cr3 a of
        None \<Rightarrow> None
      | Some (p, fl) \<Rightarrow> if has_required_user_flags fl wr then Some p else None)"

lemma user_access_step:
  assumes "unat va mod 4096 + k < 4096"
  shows "user_access mem cr3 wr (va + of_nat k) = map_option (\<lambda>p. p + of_nat k) (user_access mem cr3 wr va)"
  by (auto simp: user_access_def translate_step [OF assms] split: option.splits)

lemma chunk_access:
  assumes "copied < len" and "j < unat (copy_chunk p len copied)"
  shows "user_access mem cr3 wr (p + of_nat (unat copied + j)) =
    map_option (\<lambda>q. q + of_nat j) (user_access mem cr3 wr (p + copied))"
proof -
  have "unat (p + copied) mod 4096 + j < 4096"
    using copy_chunk_bounds(3) [OF assms(1), of p] assms(2) by simp
  from user_access_step [OF this] show ?thesis by (simp add: add.assoc)
qed

lemma upt_chunk:
  assumes "copied < len"
  shows "[unat copied ..< unat len] =
    map (\<lambda>j. unat copied + j) [0 ..< unat (copy_chunk p len copied)] @
    [unat (copied + copy_chunk p len copied) ..< unat len]"
proof -
  note b = copy_chunk_bounds [OF assms, of p] and s = copy_chunk_progress(3) [OF assms, of p]
  have "[unat copied ..< unat len] = [unat copied ..< unat copied + unat (copy_chunk p len copied)] @
      [unat copied + unat (copy_chunk p len copied) ..< unat len]"
    using b(2) upt_add_eq_append [of "unat copied" "unat copied + unat (copy_chunk p len copied)"]
    by (metis le_add1 le_add_diff_inverse)
  then show ?thesis by (simp add: s map_add_upt add.commute)
qed

definition user_byte :: "phys_mem \<Rightarrow> u64 \<Rightarrow> u64 \<Rightarrow> nat \<Rightarrow> u8" where
  "user_byte mem cr3 p k = read8 mem (the (user_access mem cr3 False (p + of_nat k)))"

lemma copy_from_loop_spec:
  "if \<forall>k \<in> {unat copied ..< unat len}. user_access mem cr3 False (p + of_nat k) \<noteq> None
   then copy_from_loop mem cr3 p len copied = (Inr (), map (user_byte mem cr3 p) [unat copied ..< unat len])
   else \<exists>x bytes. copy_from_loop mem cr3 p len copied = (Inl x, bytes)"
proof (induction mem cr3 p len copied rule: copy_from_loop.induct)
  case (1 mem cr3 p len copied)
  show ?case
  proof (cases "copied < len")
    case False
    then have "unat len \<le> unat copied" by (simp add: word_less_nat_alt)
    then show ?thesis using False by (simp add: copy_from_loop.simps [of mem cr3 p len copied])
  next
    case lt: True
    let ?c = "copy_chunk p len copied"
    note s = copy_chunk_progress(3) [OF lt, of p]
    have first: "unat copied \<in> {unat copied ..< unat len}" using lt by (simp add: word_less_nat_alt)
    show ?thesis
    proof (cases "user_access mem cr3 False (p + copied)")
      case None
      then have "\<exists>x. copy_from_loop mem cr3 p len copied = (Inl x, [])"
        using lt by (auto simp: copy_from_loop.simps [of mem cr3 p len copied] user_access_def split: option.splits if_splits)
      moreover have "\<not> (\<forall>k \<in> {unat copied ..< unat len}. user_access mem cr3 False (p + of_nat k) \<noteq> None)"
        using None by (intro notI) (drule bspec [OF _ first], simp)
      ultimately show ?thesis by (simp only: if_False) blast
    next
      case (Some q)
      then obtain fl where tr: "translate mem (cr3 \<noteq> NOT 0) cr3 (p + copied) = Some (q, fl)"
        and rq: "has_required_user_flags fl False"
        by (auto simp: user_access_def split: option.splits if_splits)
      have acc: "user_access mem cr3 False (p + of_nat (unat copied + j)) = Some (q + of_nat j)" if "j < unat ?c" for j
        using chunk_access [OF lt that] Some by simp
      then have bytes: "phys_read mem q (unat ?c) = map (user_byte mem cr3 p) (map (\<lambda>j. unat copied + j) [0 ..< unat ?c])"
        by (simp add: phys_read_def user_byte_def comp_def)
      have "(\<forall>k \<in> {unat copied ..< unat len}. user_access mem cr3 False (p + of_nat k) \<noteq> None) \<longleftrightarrow>
          (\<forall>k \<in> {unat (copied + ?c) ..< unat len}. user_access mem cr3 False (p + of_nat k) \<noteq> None)"
      proof -
        have low: "user_access mem cr3 False (p + of_nat k) \<noteq> None"
          if "unat copied \<le> k" "k < unat copied + unat ?c" for k
          using acc [of "k - unat copied"] that by simp
        have "{unat copied ..< unat len} = {unat copied ..< unat copied + unat ?c} \<union> {unat copied + unat ?c ..< unat len}"
          using copy_chunk_bounds(2) [OF lt, of p] by (simp add: ivl_disj_un)
        then show ?thesis unfolding s using low by (simp only: ball_Un) simp
      qed
      moreover have "copy_from_loop mem cr3 p len copied =
          (case copy_from_loop mem cr3 p len (copied + ?c) of (r, bs) \<Rightarrow> (r, phys_read mem q (unat ?c) @ bs))"
        using lt tr rq by (simp add: copy_from_loop.simps [of mem cr3 p len copied] Let_def)
      ultimately show ?thesis
        using "1.IH" [OF lt tr _ _ refl] rq bytes upt_chunk [OF lt, of p] by (auto split: if_splits)
    qed
  qed
qed

text \<open>
  C13. Copying from user space in page-sized chunks equals reading byte by byte. For a thread and a
  destination, \<open>copy_from_user\<close> succeeds exactly when the range is a user range and every byte of it
  is mapped user-accessible in the thread's page tables; the destination then holds exactly those
  bytes, and memory is not changed. On failure the event ring is the only thing that changes.
\<close>

theorem copy_from_user_bytewise:
  "case copy_from_user (Some t) p True len env of (ok, bytes, env') \<Rightarrow>
     (ok \<longleftrightarrow> is_user_address_range p len \<and>
        (\<forall>k < unat len. user_access (ce_mem env) (ut_address_space_cr3 t) False (p + of_nat k) \<noteq> None)) \<and>
     (ok \<longrightarrow> bytes = map (user_byte (ce_mem env) (ut_address_space_cr3 t) p) [0 ..< unat len] \<and> env' = env) \<and>
     ce_mem env' = ce_mem env"
proof (cases "is_user_address_range p len")
  case False
  then show ?thesis by (simp add: copy_from_user_def record_user_copy_failure_def)
next
  case True
  show ?thesis
  proof (cases "copy_from_loop (ce_mem env) (ut_address_space_cr3 t) p len 0")
    case (Pair r bytes)
    then show ?thesis
      using True copy_from_loop_spec [of 0 len "ce_mem env" "ut_address_space_cr3 t" p]
      by (cases r) (auto simp: copy_from_user_def record_user_copy_failure_def split: if_splits)
  qed
qed

definition one_page_env :: copy_env where
  "one_page_env = \<lparr>ce_mem = one_page_mem, ce_ring = er_reset \<lparr>er_records = [], er_next_sequence = 0, er_head = 0, er_count = 0\<rparr>,
     ce_ticks = 0, ce_cpu = 0\<rparr>"

definition one_page_thread :: user_thread where
  "one_page_thread = \<lparr>ut_tid = 7, ut_pid = Some 3, ut_address_space_cr3 = 0x1000\<rparr>"

lemma one_page_access:
  assumes "k < 4096"
  shows "user_access one_page_mem 0x1000 wr (0x8000401000 + of_nat k) = Some (0x9000 + of_nat k)"
proof -
  have "translate one_page_mem True 0x1000 0x8000401000 = Some (0x9000, 7)"
    using one_page_leaf
    by (simp add: translate_leaf_at vm_leaf_def one_page_vm_def vm_construct_def decode_leaf_def
        kEntryAddressMask_def kPageSize_def)
  then have "user_access one_page_mem 0x1000 wr 0x8000401000 = Some 0x9000"
    by (simp add: user_access_def has_required_user_flags_def PageFlags_User_def PageFlags_Write_def)
  then show ?thesis using assms by (subst user_access_step) simp_all
qed

theorem copy_from_user_bytewise_witness:
  "copy_from_user (Some one_page_thread) 0x8000401028 True 3 one_page_env = (True, [0x23, 0xB1, 0], one_page_env)"
proof -
  have acc: "user_access one_page_mem 0x1000 False (0x8000401028 + of_nat k) = Some (0x9028 + of_nat k)" if "k < 3" for k
    using one_page_access [of "0x28 + k" False] that by (simp add: add.assoc [symmetric])
  have word: "one_page_mem 0x9028 = 0xB123" using one_page_read(5) [of 5] by (simp add: slot_of_def)
  have r: "read8 one_page_mem 0x9028 = 0x23" "read8 one_page_mem 0x9029 = 0xB1" "read8 one_page_mem 0x902A = 0"
    by (simp_all add: read8_def word)
  have "[0 ..< 3] = [0, 1, 2 :: nat]" by code_simp
  then have b: "map (user_byte one_page_mem 0x1000 0x8000401028) [0 ..< 3] = [0x23, 0xB1, 0]"
    using acc [of 0] acc [of 1] acc [of 2] r by (simp add: user_byte_def)
  have "is_user_address_range 0x8000401028 3"
    by (simp add: is_user_address_range_def is_canonical_virtual_address_def kUserSpaceBase_def kUserStackTop_def)
  then show ?thesis
    using copy_from_user_bytewise [where t = one_page_thread and p = "0x8000401028" and len = 3 and env = one_page_env] acc b
    by (auto simp: one_page_env_def one_page_thread_def)
qed

section \<open>Copying into user space\<close>













end
