(* ===== verification/Intrusive_List.thy ===== *)
theory Intrusive_List
  imports Os1_Prelude "HOL-Library.Monad_Syntax"
begin

text \<open>
  Singly linked lists whose link fields live inside the listed objects. The kernel keeps its thread
  registry, its process registry, the run queue of every CPU and its wait queues this way, each with
  the same head, tail and link handling. This theory has the pointer loops and the list operations,
  generic in the fields they use, and shows that they implement sequences.
\<close>

section \<open>Walks\<close>

text \<open>
  A loop \<^verbatim>\<open>for(c = cur; c; c = c->next)\<close> that stops at the first object satisfying \<open>P\<close>. The result
  is the object before the stop and the object stopped at, if any. A loop over a cyclic list that
  never stops has the value \<open>None\<close>.
\<close>

partial_function (option) find_from ::
  "('a \<Rightarrow> 'a option) \<Rightarrow> ('a \<Rightarrow> bool) \<Rightarrow> 'a option \<Rightarrow> 'a option \<Rightarrow> ('a option \<times> 'a option) option" where
  "find_from nxt P prev cur =
     (case cur of
        None \<Rightarrow> Some (prev, None)
      | Some c \<Rightarrow> if P c then Some (prev, Some c) else find_from nxt P (Some c) (nxt c))"

text \<open>A loop over all objects of a list that updates a state.\<close>

partial_function (option) fold_from ::
  "('s \<Rightarrow> 'a \<Rightarrow> 'a option) \<Rightarrow> ('a \<Rightarrow> 's \<Rightarrow> 's) \<Rightarrow> 'a option \<Rightarrow> 's \<Rightarrow> 's option" where
  "fold_from nxt f cur s =
     (case cur of
        None \<Rightarrow> Some s
      | Some c \<Rightarrow> fold_from nxt f (nxt (f c s) c) (f c s))"

primrec chain :: "('a \<Rightarrow> 'a option) \<Rightarrow> 'a option \<Rightarrow> 'a list \<Rightarrow> bool" where
  "chain nxt p [] \<longleftrightarrow> p = None"
| "chain nxt p (x # xs) \<longleftrightarrow> p = Some x \<and> chain nxt (nxt x) xs"

definition last_opt :: "'a list \<Rightarrow> 'a option" where
  "last_opt xs = (if xs = [] then None else Some (last xs))"

lemma last_opt_simps [simp]:
  "last_opt [] = None" "last_opt (xs @ [x]) = Some x" "last_opt xs = None \<longleftrightarrow> xs = []"
  "last_opt [x] = Some x" "last_opt (x # y # xs) = last_opt (y # xs)"
  by (simp_all add: last_opt_def)

lemma last_opt_append [simp]: "ys \<noteq> [] \<Longrightarrow> last_opt (xs @ ys) = last_opt ys"
  by (simp add: last_opt_def)

lemma last_opt_SomeD: "last_opt xs = Some x \<Longrightarrow> \<exists>ys. xs = ys @ [x]"
  by (metis append_butlast_last_id last_opt_def option.distinct(1) option.inject)

lemma chain_unique: "chain nxt p xs \<Longrightarrow> chain nxt p ys \<Longrightarrow> xs = ys"
proof (induction xs arbitrary: p ys)
  case (Cons x xs)
  then show ?case by (cases ys) auto
qed (case_tac ys; simp)

lemma chain_append: "chain nxt p (xs @ y # ys) \<Longrightarrow> chain nxt (Some y) (y # ys)"
  by (induction xs arbitrary: p) auto

lemma chain_distinct: "chain nxt p xs \<Longrightarrow> distinct xs"
proof (induction xs arbitrary: p)
  case (Cons x xs)
  have "x \<notin> set xs"
  proof
    assume "x \<in> set xs"
    then obtain as bs where xs: "xs = as @ x # bs" by (meson split_list)
    then have "chain nxt (Some x) (x # bs)" using Cons.prems chain_append [of nxt "nxt x" as x bs] by simp
    moreover have "chain nxt (Some x) (x # xs)" using Cons.prems by simp
    ultimately have "x # bs = x # xs" by (rule chain_unique)
    then show False using xs by simp
  qed
  then show ?case using Cons by auto
qed simp

lemma chain_cong:
  "(\<And>x. x \<in> set xs \<Longrightarrow> nxt' x = nxt x) \<Longrightarrow> chain nxt' p xs = chain nxt p xs"
  by (induction xs arbitrary: p) auto

lemma chain_snoc:
  "chain nxt p xs \<Longrightarrow> y \<notin> set xs \<Longrightarrow> xs \<noteq> [] \<Longrightarrow> chain (nxt(y := None, last xs := Some y)) p (xs @ [y])"
proof (induction xs arbitrary: p)
  case (Cons x xs)
  then show ?case
  proof (cases xs)
    case (Cons z zs)
    then have "x \<noteq> last xs" using chain_distinct [OF Cons.prems(1)] by auto
    then show ?thesis using Cons.IH [of "nxt x"] Cons.prems Cons by auto
  qed simp
qed simp

lemma chain_remove_mid:
  assumes "chain nxt p (as @ x # bs)" and "as \<noteq> []"
  shows "chain (nxt(last as := nxt x, x := None)) p (as @ bs)"
  using assms
proof (induction as arbitrary: p)
  case (Cons a as)
  have d: "distinct ((a # as) @ x # bs)" using chain_distinct Cons.prems(1) by blast
  show ?case
  proof (cases as)
    case Nil
    then have "chain (nxt(a := nxt x, x := None)) (nxt x) bs"
      using Cons.prems(1) d by (subst chain_cong [of _ _ nxt]) auto
    then show ?thesis using Cons.prems(1) Nil d by (simp del: fun_upd_apply) simp
  next
    case (Cons b cs)
    then show ?thesis using Cons.IH [of "nxt a"] Cons.prems(1) d by auto
  qed
qed simp

lemma chain_remove_head: "chain nxt p (x # bs) \<Longrightarrow> chain (nxt(x := None)) (nxt x) bs"
  using chain_distinct [of nxt p "x # bs"] by (subst chain_cong [of _ _ nxt]) auto

text \<open>A walk over a finite list returns, at the first hit or at the end.\<close>

lemma find_from_miss:
  "chain nxt cur xs \<Longrightarrow> \<forall>x \<in> set xs. \<not> P x \<Longrightarrow>
   find_from nxt P prev cur = Some (if xs = [] then prev else last_opt xs, None)"
proof (induction xs arbitrary: prev cur)
  case (Cons y xs)
  then have "chain nxt (nxt y) xs" "cur = Some y" by auto
  then show ?case
    using Cons.IH [of "nxt y" "Some y"] Cons.prems(2) by (subst find_from.simps) (simp add: last_opt_def)
qed (simp add: find_from.simps)

lemma find_from_hit:
  "chain nxt cur (as @ x # bs) \<Longrightarrow> \<forall>a \<in> set as. \<not> P a \<Longrightarrow> P x \<Longrightarrow>
   find_from nxt P prev cur = Some (if as = [] then prev else last_opt as, Some x)"
proof (induction as arbitrary: prev cur)
  case (Cons y as)
  then have "chain nxt (nxt y) (as @ x # bs)" "cur = Some y" by auto
  then show ?case
    using Cons.IH [of "nxt y" "Some y"] Cons.prems(2,3) by (subst find_from.simps) (simp add: last_opt_def)
qed (simp add: find_from.simps)

lemma find_from_found:
  assumes "chain nxt cur xs"
  shows "\<exists>prev'. find_from nxt P prev cur = Some (prev', List.find P xs)"
  using assms
proof (induction xs arbitrary: prev cur)
  case (Cons y xs)
  then show ?case by (subst find_from.simps) auto
qed (simp add: find_from.simps)

lemma fold_from_chain:
  assumes "chain (nxt s) cur xs" and "\<And>s' x y. nxt (f x s') y = nxt s' y"
  shows "fold_from nxt f cur s = Some (fold f xs s)"
  using assms(1)
proof (induction xs arbitrary: s cur)
  case (Cons x xs)
  have "nxt (f x s) = nxt s" using assms(2) by blast
  then show ?case using Cons by (subst fold_from.simps) auto
qed (simp add: fold_from.simps)

section \<open>Lists with a head and a tail pointer\<close>

record ('s, 'a) list_ops =
  lo_next :: "'s \<Rightarrow> 'a \<Rightarrow> 'a option"
  lo_set_next :: "'a \<Rightarrow> 'a option \<Rightarrow> 's \<Rightarrow> 's"
  lo_head :: "'s \<Rightarrow> 'a option"
  lo_set_head :: "'a option \<Rightarrow> 's \<Rightarrow> 's"
  lo_tail :: "'s \<Rightarrow> 'a option"
  lo_set_tail :: "'a option \<Rightarrow> 's \<Rightarrow> 's"

definition list_append :: "('s, 'a) list_ops \<Rightarrow> 'a \<Rightarrow> 's \<Rightarrow> 's" where
  "list_append L x s =
     (let s1 = lo_set_next L x None s;
          s2 = (case lo_tail L s1 of
                  Some t \<Rightarrow> lo_set_next L t (Some x) s1
                | None \<Rightarrow> lo_set_head L (Some x) s1)
      in lo_set_tail L (Some x) s2)"

definition list_detach :: "('s, 'a) list_ops \<Rightarrow> 'a option \<Rightarrow> 'a \<Rightarrow> 's \<Rightarrow> 's" where
  "list_detach L previous candidate s =
     (let next = lo_next L s candidate;
          s1 = (case previous of
                  Some p \<Rightarrow> lo_set_next L p next s
                | None \<Rightarrow> lo_set_head L next s);
          s2 = (if lo_tail L s1 = Some candidate then lo_set_tail L previous s1 else s1)
      in lo_set_next L candidate None s2)"

definition list_remove :: "('s, 'a) list_ops \<Rightarrow> 'a \<Rightarrow> 's \<Rightarrow> (bool \<times> 's) option" where
  "list_remove L x s =
     do { (previous, candidate) \<leftarrow> find_from (lo_next L s) (\<lambda>c. c = x) None (lo_head L s);
          Some (case candidate of None \<Rightarrow> (False, s) | Some c \<Rightarrow> (True, list_detach L previous c s)) }"

definition list_view :: "('s, 'a) list_ops \<Rightarrow> 's \<Rightarrow> 'a list \<Rightarrow> bool" where
  "list_view L s xs \<longleftrightarrow> chain (lo_next L s) (lo_head L s) xs \<and> lo_tail L s = last_opt xs"

lemma list_view_cong:
  assumes "\<And>x. x \<in> set xs \<Longrightarrow> lo_next L' s' x = lo_next L s x" and "lo_head L' s' = lo_head L s" and "lo_tail L' s' = lo_tail L s"
  shows "list_view L' s' xs = list_view L s xs"
  unfolding list_view_def assms(2,3) using assms(1) by (simp cong: chain_cong)

lemma list_view_distinct: "list_view L s xs \<Longrightarrow> distinct xs"
  by (auto simp: list_view_def dest: chain_distinct)

lemma list_view_unique: "list_view L s xs \<Longrightarrow> list_view L s ys \<Longrightarrow> xs = ys"
  by (auto simp: list_view_def dest: chain_unique)

locale intrusive_list =
  fixes L :: "('s, 'a) list_ops"
  assumes next_set_next [simp]: "lo_next L (lo_set_next L x v s) = (lo_next L s)(x := v)"
    and head_set_next [simp]: "lo_head L (lo_set_next L x v s) = lo_head L s"
    and tail_set_next [simp]: "lo_tail L (lo_set_next L x v s) = lo_tail L s"
    and next_set_head [simp]: "lo_next L (lo_set_head L v s) = lo_next L s"
    and head_set_head [simp]: "lo_head L (lo_set_head L v s) = v"
    and tail_set_head [simp]: "lo_tail L (lo_set_head L v s) = lo_tail L s"
    and next_set_tail [simp]: "lo_next L (lo_set_tail L v s) = lo_next L s"
    and head_set_tail [simp]: "lo_head L (lo_set_tail L v s) = lo_head L s"
    and tail_set_tail [simp]: "lo_tail L (lo_set_tail L v s) = v"
begin

lemma append_fields:
  "lo_next L (list_append L x s) =
     (case lo_tail L s of None \<Rightarrow> (lo_next L s)(x := None) | Some t \<Rightarrow> (lo_next L s)(x := None, t := Some x))"
  "lo_head L (list_append L x s) = (case lo_tail L s of None \<Rightarrow> Some x | Some _ \<Rightarrow> lo_head L s)"
  "lo_tail L (list_append L x s) = Some x"
  by (simp_all add: list_append_def Let_def split: option.split)

lemma append_view:
  assumes "list_view L s xs" and "x \<notin> set xs"
  shows "list_view L (list_append L x s) (xs @ [x])"
proof (cases "xs = []")
  case True
  then show ?thesis using assms by (simp add: list_view_def append_fields)
next
  case False
  then show ?thesis
    using assms chain_snoc [of "lo_next L s" "lo_head L s" xs x]
    by (simp add: list_view_def append_fields last_opt_def)
qed

lemma append_next_frame:
  "list_view L s xs \<Longrightarrow> y \<notin> set xs \<Longrightarrow> y \<noteq> x \<Longrightarrow> lo_next L (list_append L x s) y = lo_next L s y"
  by (auto simp: append_fields list_view_def last_opt_def split: option.split if_splits)

lemma detach_view:
  assumes v: "list_view L s (as @ x # bs)"
  shows "list_view L (list_detach L (last_opt as) x s) (as @ bs)"
proof -
  have d: "distinct (as @ x # bs)" using list_view_distinct [OF v] .
  have ch: "chain (lo_next L s) (lo_head L s) (as @ x # bs)" using v by (simp add: list_view_def)
  have tl: "lo_tail L s = (if bs = [] then Some x else last_opt bs)"
    using v by (auto simp: list_view_def last_opt_def)
  have nx: "bs \<noteq> [] \<Longrightarrow> last_opt bs \<noteq> Some x" using d by (auto simp: last_opt_def)
  show ?thesis
  proof (cases "as = []")
    case True
    then show ?thesis
      using chain_remove_head [of "lo_next L s" _ x bs] ch tl nx
      by (auto simp: list_view_def list_detach_def Let_def)
  next
    case False
    then have "last_opt as = Some (last as)" "last as \<noteq> x" using d by (auto simp: last_opt_def)
    then show ?thesis
      using chain_remove_mid [OF ch False] tl nx False
      by (auto simp: list_view_def list_detach_def Let_def)
  qed
qed

lemma detach_next_frame:
  "y \<notin> set as \<Longrightarrow> y \<noteq> x \<Longrightarrow> lo_next L (list_detach L (last_opt as) x s) y = lo_next L s y"
  by (auto simp: list_detach_def Let_def last_opt_def)

lemma remove_view:
  assumes v: "list_view L s xs"
  obtains s' where "list_remove L x s = Some (x \<in> set xs, s')" and "list_view L s' (remove1 x xs)"
    and "\<And>y. y \<notin> set xs \<Longrightarrow> lo_next L s' y = lo_next L s y"
proof (cases "x \<in> set xs")
  case True
  then obtain as bs where xs: "xs = as @ x # bs" "x \<notin> set as" by (meson split_list_first)
  have "find_from (lo_next L s) (\<lambda>c. c = x) None (lo_head L s) = Some (last_opt as, Some x)"
    using v xs by (subst find_from_hit [of _ _ as x bs]) (auto simp: list_view_def)
  then have "list_remove L x s = Some (True, list_detach L (last_opt as) x s)" by (simp add: list_remove_def)
  then show ?thesis
    using that [of "list_detach L (last_opt as) x s"] True xs detach_view [of s as x bs] v
    by (auto simp: remove1_append detach_next_frame)
next
  case False
  have "find_from (lo_next L s) (\<lambda>c. c = x) None (lo_head L s) = Some (last_opt xs, None)"
    using v False by (subst find_from_miss [of _ _ xs]) (auto simp: list_view_def)
  then have "list_remove L x s = Some (False, s)" by (simp add: list_remove_def)
  then show ?thesis using that [of s] False v by (simp add: remove1_idem)
qed

end

text \<open>
  Several lists that share one link field: an object is in at most one of them. An operation on one
  list leaves the others alone.
\<close>

locale intrusive_lists =
  fixes F :: "'i \<Rightarrow> ('s, 'a) list_ops"
  assumes each: "intrusive_list (F i)"
    and shared_next: "lo_next (F i) = lo_next (F j)"
    and other_head_set_next: "lo_head (F j) (lo_set_next (F i) x v s) = lo_head (F j) s"
    and other_tail_set_next: "lo_tail (F j) (lo_set_next (F i) x v s) = lo_tail (F j) s"
    and other_head_set_head: "i \<noteq> j \<Longrightarrow> lo_head (F j) (lo_set_head (F i) v s) = lo_head (F j) s"
    and other_tail_set_head: "i \<noteq> j \<Longrightarrow> lo_tail (F j) (lo_set_head (F i) v s) = lo_tail (F j) s"
    and other_head_set_tail: "i \<noteq> j \<Longrightarrow> lo_head (F j) (lo_set_tail (F i) v s) = lo_head (F j) s"
    and other_tail_set_tail: "i \<noteq> j \<Longrightarrow> lo_tail (F j) (lo_set_tail (F i) v s) = lo_tail (F j) s"

sublocale intrusive_lists \<subseteq> one: intrusive_list "F i" for i
  by (rule each)

definition lists_view :: "('i \<Rightarrow> ('s, 'a) list_ops) \<Rightarrow> 's \<Rightarrow> ('i \<Rightarrow> 'a list) \<Rightarrow> bool" where
  "lists_view F s Q \<longleftrightarrow> (\<forall>i. list_view (F i) s (Q i)) \<and> (\<forall>i j. i \<noteq> j \<longrightarrow> set (Q i) \<inter> set (Q j) = {})"

lemma lists_viewD:
  assumes "lists_view F s Q"
  shows "list_view (F i) s (Q i)" and "i \<noteq> j \<Longrightarrow> set (Q i) \<inter> set (Q j) = {}"
  using assms by (auto simp: lists_view_def)

context intrusive_lists
begin

lemma other_frame:
  assumes "i \<noteq> j"
  shows "lo_head (F j) (list_append (F i) x s) = lo_head (F j) s" "lo_tail (F j) (list_append (F i) x s) = lo_tail (F j) s"
    and "lo_head (F j) (list_detach (F i) p x s) = lo_head (F j) s" "lo_tail (F j) (list_detach (F i) p x s) = lo_tail (F j) s"
  using assms
  by (auto simp: list_append_def list_detach_def Let_def other_head_set_next other_tail_set_next other_head_set_head
      other_tail_set_head other_head_set_tail other_tail_set_tail split: option.split)

lemma append_views:
  assumes v: "lists_view F s Q" and x: "\<And>j. x \<notin> set (Q j)"
  shows "lists_view F (list_append (F i) x s) (Q(i := Q i @ [x]))"
proof -
  have "list_view (F j) (list_append (F i) x s) (Q j)" if "j \<noteq> i" for j
  proof -
    have "lo_next (F j) (list_append (F i) x s) y = lo_next (F j) s y" if "y \<in> set (Q j)" for y
      using one.append_next_frame [OF lists_viewD(1) [OF v], of y i x] lists_viewD(2) [OF v \<open>j \<noteq> i\<close>] x [of j] that
      by (auto simp: shared_next [of j i])
    then show ?thesis
      using lists_viewD(1) [OF v, of j] that other_frame [of i j] by (subst list_view_cong [of _ _ _ "F j" s]) auto
  qed
  then show ?thesis
    using v x one.append_view [OF lists_viewD(1) [OF v, of i], of x] by (auto simp: lists_view_def)
qed

lemma detach_views:
  assumes v: "lists_view F s Q" and q: "Q i = as @ x # bs"
  shows "lists_view F (list_detach (F i) (last_opt as) x s) (Q(i := as @ bs))"
proof -
  have "list_view (F j) (list_detach (F i) (last_opt as) x s) (Q j)" if "j \<noteq> i" for j
  proof -
    have "lo_next (F j) (list_detach (F i) (last_opt as) x s) y = lo_next (F j) s y" if "y \<in> set (Q j)" for y
      using one.detach_next_frame [of y as x i s] lists_viewD(2) [OF v \<open>j \<noteq> i\<close>] q that
      by (auto simp: shared_next [of j i])
    then show ?thesis
      using lists_viewD(1) [OF v, of j] that other_frame [of i j] by (subst list_view_cong [of _ _ _ "F j" s]) auto
  qed
  moreover have "list_view (F i) (list_detach (F i) (last_opt as) x s) (as @ bs)"
    using one.detach_view [of i s as x bs] lists_viewD(1) [OF v, of i] q by simp
  moreover have "set (as @ bs) \<inter> set (Q j) = {}" if "j \<noteq> i" for j
    using lists_viewD(2) [OF v that] q by auto
  ultimately show ?thesis using lists_viewD(2) [OF v] by (auto simp: lists_view_def)
qed

end

end
