(* ===== verification/Kernel_State.thy ===== *)
theory Kernel_State
  imports Intrusive_List User_Copy
begin

text \<open>
  The kernel objects that processes, threads and CPUs are, and the state they live in:
  \<^verbatim>\<open>proc/thread.hpp\<close>, \<^verbatim>\<open>proc/process.hpp\<close>, \<^verbatim>\<open>sync/wait_queue.hpp\<close>, \<^verbatim>\<open>arch/x86_64/cpu/cpu.hpp\<close> and
  the global variables of \<^verbatim>\<open>proc/thread.cpp\<close> and \<^verbatim>\<open>proc/process.cpp\<close>. Objects are reached by their
  addresses; a pointer is an \<open>option\<close>, \<open>None\<close> being \<^verbatim>\<open>nullptr\<close>.
\<close>

type_synonym thread_ref = u64
type_synonym process_ref = u64
type_synonym cpu_ref = u64
type_synonym completion_ref = u64

section \<open>Objects\<close>

record trap_frame =
  tf_r15 :: u64
  tf_r14 :: u64
  tf_r13 :: u64
  tf_r12 :: u64
  tf_r11 :: u64
  tf_r10 :: u64
  tf_r9 :: u64
  tf_r8 :: u64
  tf_rbp :: u64
  tf_rdi :: u64
  tf_rsi :: u64
  tf_rdx :: u64
  tf_rcx :: u64
  tf_rbx :: u64
  tf_rax :: u64
  tf_vector :: u64
  tf_error_code :: u64
  tf_rip :: u64
  tf_cs :: u64
  tf_rflags :: u64
  tf_rsp :: u64
  tf_ss :: u64

definition zero_frame :: trap_frame where
  "zero_frame = \<lparr>tf_r15 = 0, tf_r14 = 0, tf_r13 = 0, tf_r12 = 0, tf_r11 = 0, tf_r10 = 0, tf_r9 = 0, tf_r8 = 0,
     tf_rbp = 0, tf_rdi = 0, tf_rsi = 0, tf_rdx = 0, tf_rcx = 0, tf_rbx = 0, tf_rax = 0, tf_vector = 0,
     tf_error_code = 0, tf_rip = 0, tf_cs = 0, tf_rflags = 0, tf_rsp = 0, tf_ss = 0\<rparr>"

definition trap_frame_is_user :: "trap_frame \<Rightarrow> bool" where
  "trap_frame_is_user frame \<longleftrightarrow> tf_cs frame AND 3 = 3"

datatype thread_state = Thread_Free | Thread_Ready | Thread_Running | Thread_Blocked | Thread_Dying

datatype wait_reason = Wait_None | Wait_ConsoleRead | Wait_ChildExit | Wait_BlockIo

text \<open>
  The wait state holds its reason and a union of three structures. The union is its two words of
  storage: the buffer and length of a console read, the status pointer and pid of a wait for a
  child, or the completion a block request waits for.
\<close>

record wait_state =
  w_reason :: wait_reason
  w_word0 :: u64
  w_word1 :: u64

definition no_wait :: wait_state where
  "no_wait = \<lparr>w_reason = Wait_None, w_word0 = 0, w_word1 = 0\<rparr>"

definition console_read_wait :: "u64 \<Rightarrow> u64 \<Rightarrow> wait_state" where
  "console_read_wait user_buffer len = \<lparr>w_reason = Wait_ConsoleRead, w_word0 = user_buffer, w_word1 = len\<rparr>"

definition child_exit_wait :: "u64 \<Rightarrow> u64 \<Rightarrow> wait_state" where
  "child_exit_wait user_status_pointer pid = \<lparr>w_reason = Wait_ChildExit, w_word0 = user_status_pointer, w_word1 = pid\<rparr>"

definition block_io_wait :: "completion_ref \<Rightarrow> wait_state" where
  "block_io_wait completion = \<lparr>w_reason = Wait_BlockIo, w_word0 = completion, w_word1 = 0\<rparr>"

record thread =
  th_next :: "thread_ref option"
  th_tid :: u64
  th_process :: "process_ref option"
  th_state :: thread_state
  th_user_mode :: bool
  th_address_space_cr3 :: u64
  th_kernel_stack_base :: u64
  th_kernel_stack_top :: u64
  th_exit_status :: u32
  th_frame :: trap_frame
  th_wait :: wait_state
  th_registry_next :: "thread_ref option"
  th_wait_link :: "thread_ref option"
  th_scheduler_cpu :: "cpu_ref option"
  th_run_queue_cpu :: "cpu_ref option"
  th_affinity_mask :: u64
  th_last_migration_tick :: u64

text \<open>A thread record of zero bytes.\<close>

definition zero_thread :: thread where
  "zero_thread = \<lparr>th_next = None, th_tid = 0, th_process = None, th_state = Thread_Free, th_user_mode = False,
     th_address_space_cr3 = 0, th_kernel_stack_base = 0, th_kernel_stack_top = 0, th_exit_status = 0,
     th_frame = zero_frame, th_wait = no_wait, th_registry_next = None, th_wait_link = None,
     th_scheduler_cpu = None, th_run_queue_cpu = None, th_affinity_mask = 0, th_last_migration_tick = 0\<rparr>"

datatype process_state = Process_Free | Process_Ready | Process_Running | Process_Dying | Process_Zombie

text \<open>A process; \<open>pr_child_exit_head\<close> is the head of its queue of threads waiting for a child.\<close>

record process =
  pr_pid :: u64
  pr_state :: process_state
  pr_cr3 :: u64
  pr_exit_status :: u32
  pr_parent :: "process_ref option"
  pr_name :: "u8 list"
  pr_child_exit_head :: "thread_ref option"
  pr_registry_next :: "process_ref option"

definition zero_process :: process where
  "zero_process = \<lparr>pr_pid = 0, pr_state = Process_Free, pr_cr3 = 0, pr_exit_status = 0, pr_parent = None,
     pr_name = replicate 32 0, pr_child_exit_head = None, pr_registry_next = None\<rparr>"

record cpu =
  cpu_current_thread :: "thread_ref option"
  cpu_tss_rsp0 :: u64
  cpu_idle_thread :: "thread_ref option"
  cpu_runq_head :: "thread_ref option"
  cpu_runq_tail :: "thread_ref option"
  cpu_runq_length :: u64
  cpu_last_recorded_runq_depth :: u64
  cpu_timer_ticks :: u64
  cpu_reschedule_pending :: u64
  cpu_enqueue_count :: u64
  cpu_dequeue_count :: u64
  cpu_idle_ticks :: u64
  cpu_migrate_in :: u64
  cpu_migrate_out :: u64
  cpu_balance_idle_ticks :: u64
  cpu_next :: "cpu_ref option"
  cpu_id :: u8
  cpu_booted :: u32

section \<open>The kernel\<close>

text \<open>
  The state of the kernel: the objects by address, the globals, the memory system and the event
  ring. \<open>k_cpu_cur\<close> is the CPU that executes. The interprocessor interrupts written to the local APIC
  are a log. The base of the direct map and the address of the assembly trampoline are fixed by the
  build. The slab caches of threads and processes are present or absent here; the record a cache
  hands out is an argument of the operations that allocate one.
\<close>

record kernel =
  k_threads :: "thread_ref \<Rightarrow> thread"
  k_processes :: "process_ref \<Rightarrow> process"
  k_cpus :: "cpu_ref \<Rightarrow> cpu"
  k_completion_head :: "completion_ref \<Rightarrow> thread_ref option"
  k_completion_done :: "completion_ref \<Rightarrow> bool"
  k_console_read_head :: "thread_ref option"
  k_cpu_cur :: cpu_ref
  g_cpu_boot :: "cpu_ref option"
  g_next_tid :: u64
  g_thread_cache :: bool
  g_thread_head :: "thread_ref option"
  g_thread_tail :: "thread_ref option"
  g_last_kernel_thread_cpu :: "cpu_ref option"
  g_last_user_thread_cpu :: "cpu_ref option"
  g_next_pid :: u64
  g_kernel_process :: "process_ref option"
  g_process_cache :: bool
  g_process_head :: "process_ref option"
  g_process_tail :: "process_ref option"
  g_smp_balancer_enabled :: bool
  k_frames :: page_frames
  k_mem :: phys_mem
  k_shootdowns :: nat
  k_ring :: event_ring
  g_timer_ticks :: u64
  k_lapic :: bool
  k_icr_log :: "(u32 \<times> u32) list"
  g_reschedule_vector :: u8
  g_reschedule_vector_initialized :: bool
  k_direct_map_base :: u64
  k_kernel_thread_start :: u64

definition upd_thread :: "thread_ref \<Rightarrow> (thread \<Rightarrow> thread) \<Rightarrow> kernel \<Rightarrow> kernel" where
  "upd_thread t f k = k\<lparr>k_threads := (k_threads k)(t := f (k_threads k t))\<rparr>"

definition upd_process :: "process_ref \<Rightarrow> (process \<Rightarrow> process) \<Rightarrow> kernel \<Rightarrow> kernel" where
  "upd_process p f k = k\<lparr>k_processes := (k_processes k)(p := f (k_processes k p))\<rparr>"

definition upd_cpu :: "cpu_ref \<Rightarrow> (cpu \<Rightarrow> cpu) \<Rightarrow> kernel \<Rightarrow> kernel" where
  "upd_cpu c f k = k\<lparr>k_cpus := (k_cpus k)(c := f (k_cpus k c))\<rparr>"

text \<open>The list heads, tails and links the kernel uses.\<close>

definition run_queue :: "cpu_ref \<Rightarrow> (kernel, thread_ref) list_ops" where
  "run_queue c = \<lparr>lo_next = (\<lambda>k t. th_next (k_threads k t)),
     lo_set_next = (\<lambda>t v. upd_thread t (\<lambda>x. x\<lparr>th_next := v\<rparr>)),
     lo_head = (\<lambda>k. cpu_runq_head (k_cpus k c)), lo_set_head = (\<lambda>v. upd_cpu c (\<lambda>x. x\<lparr>cpu_runq_head := v\<rparr>)),
     lo_tail = (\<lambda>k. cpu_runq_tail (k_cpus k c)), lo_set_tail = (\<lambda>v. upd_cpu c (\<lambda>x. x\<lparr>cpu_runq_tail := v\<rparr>))\<rparr>"

definition thread_registry :: "(kernel, thread_ref) list_ops" where
  "thread_registry = \<lparr>lo_next = (\<lambda>k t. th_registry_next (k_threads k t)),
     lo_set_next = (\<lambda>t v. upd_thread t (\<lambda>x. x\<lparr>th_registry_next := v\<rparr>)),
     lo_head = g_thread_head, lo_set_head = (\<lambda>v k. k\<lparr>g_thread_head := v\<rparr>),
     lo_tail = g_thread_tail, lo_set_tail = (\<lambda>v k. k\<lparr>g_thread_tail := v\<rparr>)\<rparr>"

definition process_registry :: "(kernel, process_ref) list_ops" where
  "process_registry = \<lparr>lo_next = (\<lambda>k p. pr_registry_next (k_processes k p)),
     lo_set_next = (\<lambda>p v. upd_process p (\<lambda>x. x\<lparr>pr_registry_next := v\<rparr>)),
     lo_head = g_process_head, lo_set_head = (\<lambda>v k. k\<lparr>g_process_head := v\<rparr>),
     lo_tail = g_process_tail, lo_set_tail = (\<lambda>v k. k\<lparr>g_process_tail := v\<rparr>)\<rparr>"

text \<open>The wait queues: the readers of the console, the waiters of a completion, of a process' children.\<close>

datatype wait_queue = ConsoleReadQueue | CompletionQueue completion_ref | ChildExitQueue process_ref

fun wq_head :: "wait_queue \<Rightarrow> kernel \<Rightarrow> thread_ref option" where
  "wq_head ConsoleReadQueue k = k_console_read_head k"
| "wq_head (CompletionQueue c) k = k_completion_head k c"
| "wq_head (ChildExitQueue p) k = pr_child_exit_head (k_processes k p)"

fun wq_set_head :: "wait_queue \<Rightarrow> thread_ref option \<Rightarrow> kernel \<Rightarrow> kernel" where
  "wq_set_head ConsoleReadQueue v k = k\<lparr>k_console_read_head := v\<rparr>"
| "wq_set_head (CompletionQueue c) v k = k\<lparr>k_completion_head := (k_completion_head k)(c := v)\<rparr>"
| "wq_set_head (ChildExitQueue p) v k = upd_process p (\<lambda>x. x\<lparr>pr_child_exit_head := v\<rparr>) k"

definition first_thread :: "kernel \<Rightarrow> thread_ref option" where
  "first_thread k = g_thread_head k"

definition next_thread :: "kernel \<Rightarrow> thread_ref \<Rightarrow> thread_ref option" where
  "next_thread k t = th_registry_next (k_threads k t)"

definition first_process :: "kernel \<Rightarrow> process_ref option" where
  "first_process k = g_process_head k"

definition next_process :: "kernel \<Rightarrow> process_ref \<Rightarrow> process_ref option" where
  "next_process k p = pr_registry_next (k_processes k p)"

definition cpu_on_boot :: "kernel \<Rightarrow> bool" where
  "cpu_on_boot k \<longleftrightarrow> Some (k_cpu_cur k) = g_cpu_boot k"

definition current_thread :: "kernel \<Rightarrow> thread_ref option" where
  "current_thread k = cpu_current_thread (k_cpus k (k_cpu_cur k))"

definition idle_thread_for_cpu :: "kernel \<Rightarrow> cpu_ref option \<Rightarrow> thread_ref option" where
  "idle_thread_for_cpu k owner = (case owner of None \<Rightarrow> None | Some c \<Rightarrow> cpu_idle_thread (k_cpus k c))"

definition idle_thread :: "kernel \<Rightarrow> thread_ref option" where
  "idle_thread k = idle_thread_for_cpu k (Some (k_cpu_cur k))"

definition current_cpu_id :: "kernel \<Rightarrow> u32" where
  "current_cpu_id k = (if g_cpu_boot k \<noteq> None then ucast (cpu_id (k_cpus k (k_cpu_cur k))) else 0)"

definition safe_current_thread :: "kernel \<Rightarrow> thread_ref option" where
  "safe_current_thread k = (if g_cpu_boot k \<noteq> None then current_thread k else None)"

text \<open>\<^verbatim>\<open>kernel_event::record\<close> with the clock, the CPU and the thread it reads.\<close>

definition kernel_record :: "u32 \<Rightarrow> u32 \<Rightarrow> u64 \<Rightarrow> u64 \<Rightarrow> u64 \<Rightarrow> u64 \<Rightarrow> kernel \<Rightarrow> kernel" where
  "kernel_record type flags arg0 arg1 arg2 arg3 k =
     k\<lparr>k_ring := record_event (g_timer_ticks k) (current_cpu_id k)
        (map_option (\<lambda>t. (th_tid (k_threads k t), map_option (\<lambda>p. pr_pid (k_processes k p)) (th_process (k_threads k t))))
           (safe_current_thread k))
        type flags arg0 arg1 arg2 arg3 (k_ring k)\<rparr>"

end
