(* ===== verification/Thread_Table.thy ===== *)
theory Thread_Table
  imports Kernel_State
begin

text \<open>
  Threads: \<^verbatim>\<open>sync/wait_queue.cpp\<close>, \<^verbatim>\<open>proc/thread.cpp\<close>, \<^verbatim>\<open>sched/thread_queue.cpp\<close> and the reschedule
  interrupt of \<^verbatim>\<open>arch/x86_64/apic/ipi.cpp\<close>. An operation that walks a pointer list returns an
  \<open>option\<close>: \<open>None\<close> is a walk that never ends or that dereferences a null pointer. Locks are not
  modelled; every operation runs to its end.
\<close>

section \<open>Wait queues\<close>

definition wait_queue_enqueue_locked :: "wait_queue \<Rightarrow> thread_ref \<Rightarrow> kernel \<Rightarrow> kernel option" where
  "wait_queue_enqueue_locked queue thread k =
     (case wq_head queue k of
        None \<Rightarrow> Some (wq_set_head queue (Some thread) (upd_thread thread (\<lambda>x. x\<lparr>th_wait_link := None\<rparr>) k))
      | Some head \<Rightarrow>
          do { (tail, found) \<leftarrow> find_from (\<lambda>t. th_wait_link (k_threads k t)) (\<lambda>t. t = thread) (Some head) (Some head);
               case (found, tail) of
                 (None, Some lst) \<Rightarrow>
                   Some (upd_thread lst (\<lambda>x. x\<lparr>th_wait_link := Some thread\<rparr>)
                          (upd_thread thread (\<lambda>x. x\<lparr>th_wait_link := None\<rparr>) k))
               | _ \<Rightarrow> Some k })"

definition wait_queue_dequeue_locked :: "wait_queue \<Rightarrow> kernel \<Rightarrow> thread_ref option \<times> kernel" where
  "wait_queue_dequeue_locked queue k =
     (case wq_head queue k of
        None \<Rightarrow> (None, k)
      | Some thread \<Rightarrow>
          (Some thread, upd_thread thread (\<lambda>x. x\<lparr>th_wait_link := None\<rparr>)
             (wq_set_head queue (th_wait_link (k_threads k thread)) k)))"

definition wait_queue_dequeue_all_locked :: "wait_queue \<Rightarrow> kernel \<Rightarrow> thread_ref option \<times> kernel" where
  "wait_queue_dequeue_all_locked queue k = (wq_head queue k, wq_set_head queue None k)"

definition wait_queue_empty :: "wait_queue \<Rightarrow> kernel \<Rightarrow> bool" where
  "wait_queue_empty queue k \<longleftrightarrow> wq_head queue k = None"

definition wait_queue_count :: "wait_queue \<Rightarrow> kernel \<Rightarrow> u64 option" where
  "wait_queue_count queue k =
     fold_from (\<lambda>_ t. th_wait_link (k_threads k t)) (\<lambda>_ count. count + 1) (wq_head queue k) 0"

section \<open>CPUs and run queues\<close>

definition cpu_is_schedulable :: "kernel \<Rightarrow> cpu_ref \<Rightarrow> bool" where
  "cpu_is_schedulable k owner \<longleftrightarrow> Some owner = g_cpu_boot k \<or> cpu_booted (k_cpus k owner) \<noteq> 0"

text \<open>The CPU after \<open>c\<close> in the ring that starts at the boot CPU.\<close>

definition cpu_ring_next :: "kernel \<Rightarrow> cpu_ref \<Rightarrow> cpu_ref option" where
  "cpu_ring_next k c = (case cpu_next (k_cpus k c) of Some n \<Rightarrow> Some n | None \<Rightarrow> g_cpu_boot k)"

partial_function (option) next_schedulable_loop :: "kernel \<Rightarrow> cpu_ref \<Rightarrow> cpu_ref \<Rightarrow> cpu_ref option" where
  "next_schedulable_loop k start candidate =
     (if cpu_is_schedulable k candidate then Some candidate
      else case cpu_ring_next k candidate of
             None \<Rightarrow> None
           | Some n \<Rightarrow> if n \<noteq> start then next_schedulable_loop k start n else Some (k_cpu_cur k))"

definition next_schedulable_cpu_after :: "kernel \<Rightarrow> cpu_ref option \<Rightarrow> cpu_ref option" where
  "next_schedulable_cpu_after k after =
     (case (case after of Some a \<Rightarrow> cpu_ring_next k a | None \<Rightarrow> g_cpu_boot k) of
        None \<Rightarrow> Some (k_cpu_cur k)
      | Some candidate \<Rightarrow> next_schedulable_loop k candidate candidate)"

definition cpu_run_queue_length_locked :: "kernel \<Rightarrow> cpu_ref \<Rightarrow> u64" where
  "cpu_run_queue_length_locked k owner = cpu_runq_length (k_cpus k owner)"

partial_function (option) least_loaded_loop :: "kernel \<Rightarrow> cpu_ref \<Rightarrow> cpu_ref \<Rightarrow> u64 \<Rightarrow> cpu_ref option" where
  "least_loaded_loop k candidate best best_length =
     (if candidate = best then Some best
      else
        let candidate_length = cpu_run_queue_length_locked k candidate
        in if candidate_length < best_length then
             (if candidate_length = 0 then Some candidate
              else do { n \<leftarrow> next_schedulable_cpu_after k (Some candidate);
                        least_loaded_loop k n candidate candidate_length })
           else do { n \<leftarrow> next_schedulable_cpu_after k (Some candidate);
                     least_loaded_loop k n best best_length })"

definition select_least_loaded_cpu :: "kernel \<Rightarrow> cpu_ref option \<Rightarrow> cpu_ref option" where
  "select_least_loaded_cpu k start_after =
     do { best \<leftarrow> next_schedulable_cpu_after k start_after;
          let best_length = cpu_run_queue_length_locked k best
          in if best_length = 0 then Some best
             else do { n \<leftarrow> next_schedulable_cpu_after k (Some best);
                       least_loaded_loop k n best best_length } }"

definition select_user_target_cpu :: "kernel \<Rightarrow> (cpu_ref \<times> kernel) option" where
  "select_user_target_cpu k =
     do { best \<leftarrow> select_least_loaded_cpu k (g_last_user_thread_cpu k);
          Some (best, k\<lparr>g_last_user_thread_cpu := Some best\<rparr>) }"

definition select_target_cpu :: "thread_ref \<Rightarrow> cpu_ref option \<Rightarrow> kernel \<Rightarrow> (cpu_ref \<times> kernel) option" where
  "select_target_cpu thread target k =
     (case target of
        Some c \<Rightarrow> Some (c, k)
      | None \<Rightarrow>
          if th_user_mode (k_threads k thread) then select_user_target_cpu k
          else case th_scheduler_cpu (k_threads k thread) of
                 Some c \<Rightarrow> Some (c, k)
               | None \<Rightarrow> Some (k_cpu_cur k, k))"

definition run_queue_append_locked :: "cpu_ref \<Rightarrow> thread_ref \<Rightarrow> kernel \<Rightarrow> kernel" where
  "run_queue_append_locked owner thread k =
     (if th_run_queue_cpu (k_threads k thread) \<noteq> None then k
      else upd_cpu owner (\<lambda>c. c\<lparr>cpu_runq_length := cpu_runq_length c + 1, cpu_enqueue_count := cpu_enqueue_count c + 1\<rparr>)
             (upd_thread thread (\<lambda>x. x\<lparr>th_run_queue_cpu := Some owner\<rparr>)
               (list_append (run_queue owner) thread k)))"

text \<open>The bookkeeping after a thread left a run queue.\<close>

definition run_queue_left :: "cpu_ref \<Rightarrow> thread_ref \<Rightarrow> kernel \<Rightarrow> kernel" where
  "run_queue_left owner thread k =
     upd_cpu owner (\<lambda>c. c\<lparr>cpu_runq_length := (if cpu_runq_length c \<noteq> 0 then cpu_runq_length c - 1 else cpu_runq_length c),
                         cpu_dequeue_count := cpu_dequeue_count c + 1\<rparr>)
       (upd_thread thread (\<lambda>x. x\<lparr>th_run_queue_cpu := None\<rparr>) k)"

definition run_queue_remove_locked :: "cpu_ref \<Rightarrow> thread_ref \<Rightarrow> kernel \<Rightarrow> kernel option" where
  "run_queue_remove_locked owner thread k =
     do { (removed, k1) \<leftarrow> list_remove (run_queue owner) thread k;
          Some (if removed then run_queue_left owner thread k1 else k1) }"

definition dequeue_thread_if_queued :: "thread_ref \<Rightarrow> kernel \<Rightarrow> kernel option" where
  "dequeue_thread_if_queued thread k =
     (case th_run_queue_cpu (k_threads k thread) of
        None \<Rightarrow> Some k
      | Some owner \<Rightarrow> run_queue_remove_locked owner thread k)"

definition enqueue_thread_on_cpu :: "thread_ref \<Rightarrow> cpu_ref \<Rightarrow> kernel \<Rightarrow> bool \<times> kernel" where
  "enqueue_thread_on_cpu thread target k =
     (let k1 = upd_thread thread (\<lambda>x. x\<lparr>th_scheduler_cpu := Some target\<rparr>) k
      in if Some thread = idle_thread_for_cpu k1 (Some target)
         then (False, upd_thread thread (\<lambda>x. x\<lparr>th_run_queue_cpu := None, th_next := None\<rparr>) k1)
         else if th_run_queue_cpu (k_threads k1 thread) \<noteq> None then (False, k1)
         else (True, run_queue_append_locked target thread k1))"

definition dequeue_ready_thread :: "cpu_ref \<Rightarrow> kernel \<Rightarrow> thread_ref option \<times> kernel" where
  "dequeue_ready_thread owner k =
     (case cpu_runq_head (k_cpus k owner) of
        None \<Rightarrow> (None, k)
      | Some thread \<Rightarrow>
          (let next = th_next (k_threads k thread);
               k1 = upd_cpu owner (\<lambda>c. c\<lparr>cpu_runq_head := next,
                      cpu_runq_tail := (if next = None then None else cpu_runq_tail c)\<rparr>) k;
               k2 = upd_thread thread (\<lambda>x. x\<lparr>th_next := None\<rparr>) k1
           in (Some thread, run_queue_left owner thread k2)))"

definition next_runnable_thread :: "kernel \<Rightarrow> thread_ref option \<times> kernel" where
  "next_runnable_thread k = dequeue_ready_thread (k_cpu_cur k) k"

definition has_runnable_state :: "kernel \<Rightarrow> thread_ref \<Rightarrow> bool" where
  "has_runnable_state k t \<longleftrightarrow> th_state (k_threads k t) = Thread_Ready \<or> th_state (k_threads k t) = Thread_Running"

definition is_idle_thread_for_another_cpu :: "kernel \<Rightarrow> thread_ref \<Rightarrow> bool option" where
  "is_idle_thread_for_another_cpu k t =
     do { (_, owner) \<leftarrow> find_from (\<lambda>c. cpu_next (k_cpus k c)) (\<lambda>c. cpu_idle_thread (k_cpus k c) = Some t) None (g_cpu_boot k);
          Some (case owner of None \<Rightarrow> False | Some c \<Rightarrow> c \<noteq> k_cpu_cur k) }"

definition schedulable_on_current_cpu :: "kernel \<Rightarrow> thread_ref \<Rightarrow> bool option" where
  "schedulable_on_current_cpu k t =
     (if has_runnable_state k t then map_option Not (is_idle_thread_for_another_cpu k t) else Some False)"

definition runnable_thread_count :: "kernel \<Rightarrow> u64 option" where
  "runnable_thread_count k =
     do { r \<leftarrow> fold_from (\<lambda>_ t. next_thread k t)
                 (\<lambda>t acc. do { n \<leftarrow> acc; b \<leftarrow> schedulable_on_current_cpu k t; Some (if b then n + 1 else n) })
                 (first_thread k) (Some 0);
          r }"

definition cpu_run_queue_length :: "kernel \<Rightarrow> cpu_ref option \<Rightarrow> u64" where
  "cpu_run_queue_length k owner = (case owner of None \<Rightarrow> 0 | Some c \<Rightarrow> cpu_runq_length (k_cpus k c))"

definition first_runnable_user_thread :: "kernel \<Rightarrow> thread_ref option option" where
  "first_runnable_user_thread k =
     map_option snd (find_from (next_thread k) (\<lambda>t. th_user_mode (k_threads k t) \<and> has_runnable_state k t) None (first_thread k))"

section \<open>Reschedule interrupts\<close>

definition interrupt_vector_is_external :: "u8 \<Rightarrow> bool" where
  "interrupt_vector_is_external vector \<longleftrightarrow> 32 \<le> vector \<and> vector \<noteq> 0x80"

definition ipi_send :: "u8 \<Rightarrow> u8 \<Rightarrow> kernel \<Rightarrow> bool \<times> kernel" where
  "ipi_send apic_id vector k =
     (if \<not> k_lapic k \<or> \<not> interrupt_vector_is_external vector then (False, k)
      else (True, k\<lparr>k_icr_log := k_icr_log k @ [(push_bit 24 (ucast apic_id), ucast vector)]\<rparr>))"

definition ipi_send_reschedule :: "cpu_ref \<Rightarrow> kernel \<Rightarrow> bool \<times> kernel" where
  "ipi_send_reschedule target k =
     (if \<not> g_reschedule_vector_initialized k then (False, k)
      else
        let from = ucast (cpu_id (k_cpus k (k_cpu_cur k))); to = ucast (cpu_id (k_cpus k target));
            vector = ucast (g_reschedule_vector k);
            k1 = kernel_record 13 2 from to vector 0 k
        in case ipi_send (cpu_id (k_cpus k1 target)) (g_reschedule_vector k1) k1 of
             (True, k2) \<Rightarrow> (True, k2)
           | (False, k2) \<Rightarrow> (False, kernel_record 13 8 from to vector 0 k2))"

section \<open>Thread states\<close>

definition set_process_state :: "thread_ref \<Rightarrow> process_state \<Rightarrow> kernel \<Rightarrow> kernel" where
  "set_process_state thread state k =
     (case th_process (k_threads k thread) of
        None \<Rightarrow> k
      | Some p \<Rightarrow> if pr_state (k_processes k p) = Process_Dying then k else upd_process p (\<lambda>x. x\<lparr>pr_state := state\<rparr>) k)"

definition mark_thread_ready :: "thread_ref \<Rightarrow> cpu_ref option \<Rightarrow> kernel \<Rightarrow> kernel option" where
  "mark_thread_ready thread target k =
     (if th_state (k_threads k thread) = Thread_Dying \<or> th_state (k_threads k thread) = Thread_Free then Some k
      else
        do { (target_cpu, k1) \<leftarrow> select_target_cpu thread target k;
             let k2 = set_process_state thread Process_Ready (upd_thread thread (\<lambda>x. x\<lparr>th_state := Thread_Ready\<rparr>) k1);
                 (enqueued, k3) = enqueue_thread_on_cpu thread target_cpu k2
             in Some (if enqueued \<and> target_cpu \<noteq> k_cpu_cur k3 then snd (ipi_send_reschedule target_cpu k3) else k3) })"

definition set_current_thread :: "thread_ref option \<Rightarrow> kernel \<Rightarrow> kernel option" where
  "set_current_thread thread k =
     (case thread of
        None \<Rightarrow> Some (upd_cpu (k_cpu_cur k) (\<lambda>c. c\<lparr>cpu_current_thread := None\<rparr>) k)
      | Some t \<Rightarrow>
          do { k1 \<leftarrow> dequeue_thread_if_queued t k;
               let k2 = upd_cpu (k_cpu_cur k1) (\<lambda>c. c\<lparr>cpu_current_thread := Some t\<rparr>) k1;
                   k3 = upd_thread t (\<lambda>x. x\<lparr>th_scheduler_cpu := Some (k_cpu_cur k2), th_run_queue_cpu := None,
                          th_state := Thread_Running\<rparr>) k2;
                   k4 = set_process_state t Process_Running k3
               in Some (upd_cpu (k_cpu_cur k4) (\<lambda>c. c\<lparr>cpu_tss_rsp0 := th_kernel_stack_top (k_threads k4 t)\<rparr>) k4) })"

definition completion_done :: "completion_ref \<Rightarrow> kernel \<Rightarrow> bool" where
  "completion_done c k \<longleftrightarrow> k_completion_done k c"

definition completion_reset :: "completion_ref \<Rightarrow> kernel \<Rightarrow> kernel" where
  "completion_reset c k = k\<lparr>k_completion_done := (k_completion_done k)(c := False)\<rparr>"

text \<open>The body \<^verbatim>\<open>block_current_thread\<close> shares between its two paths: wait state, thread and process state.\<close>

definition enter_wait :: "thread_ref \<Rightarrow> wait_state \<Rightarrow> kernel \<Rightarrow> kernel" where
  "enter_wait thread wait k =
     set_process_state thread Process_Ready (upd_thread thread (\<lambda>x. x\<lparr>th_wait := wait, th_state := Thread_Blocked\<rparr>) k)"

definition block_current_thread :: "wait_state \<Rightarrow> wait_queue option \<Rightarrow> kernel \<Rightarrow> (bool \<times> kernel) option" where
  "block_current_thread wait queue k =
     (case current_thread k of
        None \<Rightarrow> Some (False, k)
      | Some thread \<Rightarrow>
          if th_state (k_threads k thread) = Thread_Dying \<or> th_state (k_threads k thread) = Thread_Free then Some (False, k)
          else case queue of
                 Some q \<Rightarrow>
                   if w_reason wait = Wait_BlockIo \<and> w_word0 wait \<noteq> 0 \<and> completion_done (w_word0 wait) k
                   then Some (False, k)
                   else do { k1 \<leftarrow> wait_queue_enqueue_locked q thread (enter_wait thread wait k); Some (True, k1) }
               | None \<Rightarrow> Some (True, enter_wait thread wait k))"

definition block_current_thread_on_console_read :: "u64 \<Rightarrow> u64 \<Rightarrow> kernel \<Rightarrow> kernel option" where
  "block_current_thread_on_console_read user_buffer len k =
     map_option snd (block_current_thread (console_read_wait user_buffer len) (Some ConsoleReadQueue) k)"

definition block_current_thread_on_block_io :: "completion_ref option \<Rightarrow> kernel \<Rightarrow> kernel option" where
  "block_current_thread_on_block_io completion k =
     (case completion of
        None \<Rightarrow> Some k
      | Some c \<Rightarrow> map_option snd (block_current_thread (block_io_wait c) (Some (CompletionQueue c)) k))"

definition clear_thread_wait :: "thread_ref \<Rightarrow> kernel \<Rightarrow> kernel" where
  "clear_thread_wait thread k = upd_thread thread (\<lambda>x. x\<lparr>th_wait := no_wait\<rparr>) k"

definition wake_blocked_thread :: "thread_ref \<Rightarrow> cpu_ref option \<Rightarrow> kernel \<Rightarrow> kernel option" where
  "wake_blocked_thread thread target k =
     (let k1 = clear_thread_wait thread k
      in if Some thread = current_thread k1
         then Some (set_process_state thread Process_Running (upd_thread thread (\<lambda>x. x\<lparr>th_state := Thread_Running\<rparr>) k1))
         else mark_thread_ready thread target k1)"

definition first_blocked_thread :: "wait_reason \<Rightarrow> kernel \<Rightarrow> thread_ref option option" where
  "first_blocked_thread reason k =
     map_option snd (find_from (next_thread k)
       (\<lambda>t. th_state (k_threads k t) = Thread_Blocked \<and> reason = w_reason (th_wait (k_threads k t))) None (first_thread k))"

definition mark_current_thread_dying :: "u32 \<Rightarrow> kernel \<Rightarrow> kernel" where
  "mark_current_thread_dying exit_status k =
     (case current_thread k of
        None \<Rightarrow> k
      | Some thread \<Rightarrow>
          (let k1 = clear_thread_wait thread (upd_thread thread (\<lambda>x. x\<lparr>th_exit_status := exit_status\<rparr>) k);
               k2 = (case th_process (k_threads k1 thread) of
                       None \<Rightarrow> k1
                     | Some p \<Rightarrow> upd_process p (\<lambda>x. x\<lparr>pr_exit_status := exit_status,
                         pr_state := (if pr_parent x \<noteq> None then Process_Zombie else Process_Dying)\<rparr>) k1)
           in upd_thread thread (\<lambda>x. x\<lparr>th_state := Thread_Dying\<rparr>) k2))"

section \<open>Waking\<close>

definition wait_queue_wake_one :: "wait_queue \<Rightarrow> cpu_ref option \<Rightarrow> kernel \<Rightarrow> (u64 \<times> kernel) option" where
  "wait_queue_wake_one queue target k =
     (case wait_queue_dequeue_locked queue k of
        (None, k1) \<Rightarrow> Some (0, k1)
      | (Some thread, k1) \<Rightarrow> do { k2 \<leftarrow> wake_blocked_thread thread target k1; Some (1, k2) })"

partial_function (option) wake_all_loop ::
  "cpu_ref option \<Rightarrow> thread_ref option \<Rightarrow> u64 \<Rightarrow> kernel \<Rightarrow> (u64 \<times> kernel) option" where
  "wake_all_loop target thread count k =
     (case thread of
        None \<Rightarrow> Some (count, k)
      | Some t \<Rightarrow>
          do { k1 \<leftarrow> wake_blocked_thread t target (upd_thread t (\<lambda>x. x\<lparr>th_wait_link := None\<rparr>) k);
               wake_all_loop target (th_wait_link (k_threads k t)) (count + 1) k1 })"

definition wait_queue_wake_all :: "wait_queue \<Rightarrow> cpu_ref option \<Rightarrow> kernel \<Rightarrow> (u64 \<times> kernel) option" where
  "wait_queue_wake_all queue target k =
     (case wait_queue_dequeue_all_locked queue k of (thread, k1) \<Rightarrow> wake_all_loop target thread 0 k1)"

definition completion_signal :: "completion_ref \<Rightarrow> kernel \<Rightarrow> (bool \<times> kernel) option" where
  "completion_signal c k =
     (let first_signal = \<not> k_completion_done k c;
          k1 = k\<lparr>k_completion_done := (k_completion_done k)(c := True)\<rparr>
      in do { (_, k2) \<leftarrow> wait_queue_wake_all (CompletionQueue c) None k1; Some (first_signal, k2) })"

definition wake_block_io_waiters :: "completion_ref option \<Rightarrow> kernel \<Rightarrow> kernel option" where
  "wake_block_io_waiters completion k =
     (case completion of
        None \<Rightarrow> Some k
      | Some c \<Rightarrow> map_option snd (wait_queue_wake_all (CompletionQueue c) None k))"

section \<open>Creation and removal\<close>

text \<open>\<open>record\<close> is what the slab cache returns: zeroed memory at an address, or nothing.\<close>

definition allocate_thread_record :: "thread_ref option \<Rightarrow> kernel \<Rightarrow> thread_ref option \<times> kernel" where
  "allocate_thread_record record k =
     (if \<not> g_thread_cache k then (None, k)
      else case record of
             None \<Rightarrow> (None, k)
           | Some t \<Rightarrow> (Some t, upd_thread t (\<lambda>_. zero_thread\<lparr>th_affinity_mask := NOT 0\<rparr>) k))"

definition link_thread :: "thread_ref \<Rightarrow> kernel \<Rightarrow> kernel" where
  "link_thread thread k = list_append thread_registry thread k"

definition unlink_thread :: "thread_ref \<Rightarrow> kernel \<Rightarrow> kernel option" where
  "unlink_thread thread k = map_option snd (list_remove thread_registry thread k)"

definition release_thread_record :: "thread_ref \<Rightarrow> kernel \<Rightarrow> kernel" where
  "release_thread_record thread k = (if \<not> g_thread_cache k then k else upd_thread thread (\<lambda>_. zero_thread) k)"

definition clear_cpu_idle_threads :: "kernel \<Rightarrow> kernel option" where
  "clear_cpu_idle_threads k =
     fold_from (\<lambda>k c. cpu_next (k_cpus k c)) (\<lambda>c. upd_cpu c (\<lambda>x. x\<lparr>cpu_idle_thread := None\<rparr>)) (g_cpu_boot k) k"

definition clear_thread :: "thread_ref \<Rightarrow> kernel \<Rightarrow> kernel option" where
  "clear_thread thread k =
     do { k1 \<leftarrow> dequeue_thread_if_queued thread k;
          k2 \<leftarrow> fold_from (\<lambda>k c. cpu_next (k_cpus k c))
                 (\<lambda>c. upd_cpu c (\<lambda>x. if Some thread = cpu_idle_thread x then x\<lparr>cpu_idle_thread := None\<rparr> else x)) (g_cpu_boot k1) k1;
          k3 \<leftarrow> unlink_thread thread k2;
          Some (release_thread_record thread k3) }"

definition kKernelThreadStackPages :: u64 where
  "kKernelThreadStackPages = 4"

text \<open>The kernel stack both kinds of thread get: zeroed pages and the address of their end.\<close>

definition allocate_stack :: "kernel \<Rightarrow> (u64 \<times> u64) option \<times> kernel" where
  "allocate_stack k =
     (case pf_allocate_run (k_frames k) (ucast kKernelThreadStackPages) of
        (None, frames) \<Rightarrow> (None, k\<lparr>k_frames := frames\<rparr>)
      | (Some stack_base, frames) \<Rightarrow>
          (Some (stack_base, stack_base + k_direct_map_base k + kKernelThreadStackPages * kPageSize),
           k\<lparr>k_frames := frames, k_mem := phys_memsetq (k_mem k) stack_base 0 (kKernelThreadStackPages * kPageSize)\<rparr>))"

definition allocate_kernel_thread ::
  "thread_ref option \<Rightarrow> process_ref option \<Rightarrow> u64 option \<Rightarrow> kernel \<Rightarrow> thread_ref option \<times> kernel" where
  "allocate_kernel_thread record process entry k =
     (case (process, entry) of
        (Some p, Some e) \<Rightarrow>
          (case allocate_thread_record record k of
             (None, k1) \<Rightarrow> (None, k1)
           | (Some t, k1) \<Rightarrow>
               (case allocate_stack k1 of
                  (None, k2) \<Rightarrow> (None, release_thread_record t k2)
                | (Some (stack_base, stack_top), k2) \<Rightarrow>
                    (Some t,
                     upd_thread t (\<lambda>x. x\<lparr>th_tid := g_next_tid k2, th_process := Some p, th_state := Thread_Ready,
                       th_user_mode := False, th_address_space_cr3 := pr_cr3 (k_processes k2 p),
                       th_kernel_stack_base := stack_base, th_kernel_stack_top := stack_top, th_exit_status := 0,
                       th_frame := zero_frame\<lparr>tf_rip := k_kernel_thread_start k2, tf_rdi := e, tf_cs := 0x08,
                         tf_rflags := 0x202, tf_rsp := stack_top - 3 * 8, tf_ss := 0x10\<rparr>\<rparr>)
                     (k2\<lparr>g_next_tid := g_next_tid k2 + 1,
                         k_mem := (k_mem k2)(stack_base + kKernelThreadStackPages * kPageSize - 3 * 8 := 0)\<rparr>))))
      | _ \<Rightarrow> (None, k))"

definition publish_idle_thread :: "cpu_ref \<Rightarrow> thread_ref \<Rightarrow> kernel \<Rightarrow> kernel" where
  "publish_idle_thread owner thread k =
     upd_cpu owner (\<lambda>c. c\<lparr>cpu_idle_thread := Some thread\<rparr>)
       (upd_thread thread (\<lambda>x. x\<lparr>th_frame := (th_frame x)\<lparr>tf_rflags := 2\<rparr>\<rparr>) k)"

definition create_kernel_thread ::
  "thread_ref option \<Rightarrow> process_ref option \<Rightarrow> u64 option \<Rightarrow> kernel \<Rightarrow> (thread_ref option \<times> kernel) option" where
  "create_kernel_thread record process entry k =
     (case allocate_kernel_thread record process entry k of
        (None, k1) \<Rightarrow> Some (None, k1)
      | (Some t, k1) \<Rightarrow>
          do { (owner, k2) \<leftarrow>
                 (if cpu_idle_thread (k_cpus k1 (k_cpu_cur k1)) \<noteq> None
                  then do { c \<leftarrow> next_schedulable_cpu_after k1 (g_last_kernel_thread_cpu k1);
                            Some (c, k1\<lparr>g_last_kernel_thread_cpu := Some c\<rparr>) }
                  else Some (k_cpu_cur k1, k1));
               let k3 = upd_thread t (\<lambda>x. x\<lparr>th_scheduler_cpu := Some owner\<rparr>) k2;
                   k4 = (if cpu_idle_thread (k_cpus k3 owner) = None then publish_idle_thread owner t k3 else k3);
                   k5 = link_thread t k4
               in do { k6 \<leftarrow> mark_thread_ready t (Some owner) k5; Some (Some t, k6) } })"

definition create_idle_thread_for_cpu ::
  "thread_ref option \<Rightarrow> process_ref option \<Rightarrow> cpu_ref option \<Rightarrow> u64 option \<Rightarrow> kernel \<Rightarrow> thread_ref option \<times> kernel" where
  "create_idle_thread_for_cpu record process owner entry k =
     (case owner of
        None \<Rightarrow> (None, k)
      | Some c \<Rightarrow>
          (case cpu_idle_thread (k_cpus k c) of
             Some idle \<Rightarrow> (Some idle, k)
           | None \<Rightarrow>
               (case allocate_kernel_thread record process entry k of
                  (None, k1) \<Rightarrow> (None, k1)
                | (Some t, k1) \<Rightarrow>
                    (let k2 = publish_idle_thread c t (upd_thread t (\<lambda>x. x\<lparr>th_scheduler_cpu := Some c\<rparr>) k1);
                         k3 = (if c \<noteq> k_cpu_cur k2 then upd_thread t (\<lambda>x. x\<lparr>th_state := Thread_Blocked\<rparr>) k2 else k2)
                     in (Some t, link_thread t k3)))))"

definition create_user_thread ::
  "thread_ref option \<Rightarrow> process_ref option \<Rightarrow> u64 \<Rightarrow> u64 \<Rightarrow> bool \<Rightarrow> kernel \<Rightarrow> (thread_ref option \<times> kernel) option" where
  "create_user_thread record process user_rip user_rsp start_ready k =
     (case process of
        None \<Rightarrow> Some (None, k)
      | Some p \<Rightarrow>
          (case allocate_thread_record record k of
             (None, k1) \<Rightarrow> Some (None, k1)
           | (Some t, k1) \<Rightarrow>
               (case allocate_stack k1 of
                  (None, k2) \<Rightarrow> Some (None, release_thread_record t k2)
                | (Some (stack_base, stack_top), k2) \<Rightarrow>
                    (let k3 = upd_thread t (\<lambda>x. x\<lparr>th_tid := g_next_tid k2, th_process := Some p,
                           th_state := (if start_ready then Thread_Ready else Thread_Blocked), th_user_mode := True,
                           th_address_space_cr3 := pr_cr3 (k_processes k2 p), th_kernel_stack_base := stack_base,
                           th_kernel_stack_top := stack_top\<rparr>) (k2\<lparr>g_next_tid := g_next_tid k2 + 1\<rparr>)
                     in do { (c, k4) \<leftarrow> select_target_cpu t None k3;
                             let k5 = upd_thread t (\<lambda>x. x\<lparr>th_scheduler_cpu := Some c, th_exit_status := 0,
                                   th_frame := zero_frame\<lparr>tf_rip := user_rip, tf_cs := 0x23, tf_rflags := 0x202,
                                     tf_rsp := user_rsp, tf_ss := 0x1B\<rparr>\<rparr>) k4;
                                 k6 = link_thread t k5
                             in if start_ready
                                then do { k7 \<leftarrow> mark_thread_ready t (Some c) k6; Some (Some t, k7) }
                                else Some (Some t, k6) }))))"

definition initialize_thread_table :: "bool \<Rightarrow> kernel \<Rightarrow> (bool \<times> kernel) option" where
  "initialize_thread_table cache_created k =
     do { k1 \<leftarrow> clear_cpu_idle_threads (k\<lparr>g_next_tid := 1, g_last_kernel_thread_cpu := g_cpu_boot k,
             g_last_user_thread_cpu := g_cpu_boot k\<rparr>);
          Some (cache_created, k1\<lparr>g_thread_head := None, g_thread_tail := None, g_thread_cache := cache_created\<rparr>) }"

end
