(* ===== verification/Process_Table.thy ===== *)
theory Process_Table
  imports Thread_Table
begin

text \<open>
  Processes: \<^verbatim>\<open>proc/process.cpp\<close>, the wait for a child in \<^verbatim>\<open>syscall/wait.cpp\<close> and the reaper of dead
  threads in \<^verbatim>\<open>proc/reaper.cpp\<close>.
\<close>

section \<open>The process registry\<close>

definition allocate_process_record :: "process_ref option \<Rightarrow> kernel \<Rightarrow> process_ref option \<times> kernel" where
  "allocate_process_record record k =
     (if \<not> g_process_cache k then (None, k)
      else case record of
             None \<Rightarrow> (None, k)
           | Some p \<Rightarrow> (Some p, upd_process p (\<lambda>_. zero_process) k))"

definition link_process :: "process_ref \<Rightarrow> kernel \<Rightarrow> kernel" where
  "link_process process k = list_append process_registry process k"

definition unlink_process :: "process_ref \<Rightarrow> kernel \<Rightarrow> kernel option" where
  "unlink_process process k = map_option snd (list_remove process_registry process k)"

definition release_process_record :: "process_ref \<Rightarrow> kernel \<Rightarrow> kernel" where
  "release_process_record process k = (if \<not> g_process_cache k then k else upd_process process (\<lambda>_. zero_process) k)"

definition orphan_children :: "process_ref \<Rightarrow> kernel \<Rightarrow> kernel option" where
  "orphan_children process k =
     fold_from (\<lambda>k p. pr_registry_next (k_processes k p))
       (\<lambda>p. upd_process p (\<lambda>x. if pr_parent x = Some process then x\<lparr>pr_parent := None\<rparr> else x))
       (g_process_head k) k"

text \<open>The name loop copies bytes of \<open>name\<close> from \<open>index\<close> on; the end of the list is its terminating zero.\<close>

fun fill_name_loop :: "nat \<Rightarrow> u8 list \<Rightarrow> u8 list \<Rightarrow> u8 list" where
  "fill_name_loop index [] buffer = buffer[index := 0]"
| "fill_name_loop index (c # name) buffer =
     (if index + 1 < 32 \<and> c \<noteq> 0 then fill_name_loop (index + 1) name (buffer[index := c]) else buffer[index := 0])"

definition fill_process_name :: "process_ref \<Rightarrow> u8 list option \<Rightarrow> kernel \<Rightarrow> kernel" where
  "fill_process_name process name k =
     (case name of
        None \<Rightarrow> upd_process process (\<lambda>x. x\<lparr>pr_name := (pr_name x)[0 := 0]\<rparr>) k
      | Some n \<Rightarrow> upd_process process (\<lambda>x. x\<lparr>pr_name := fill_name_loop 0 n (pr_name x)\<rparr>) k)"

definition initialize_process_table :: "bool \<Rightarrow> kernel \<Rightarrow> bool \<times> kernel" where
  "initialize_process_table cache_created k =
     (cache_created, k\<lparr>g_next_pid := 1, g_kernel_process := None, g_process_head := None, g_process_tail := None,
        g_process_cache := cache_created\<rparr>)"

definition init_tasks :: "bool \<Rightarrow> bool \<Rightarrow> kernel \<Rightarrow> (bool \<times> kernel) option" where
  "init_tasks process_cache_created thread_cache_created k =
     (case initialize_process_table process_cache_created k of
        (False, k1) \<Rightarrow> Some (False, k1)
      | (True, k1) \<Rightarrow>
          do { (ok, k2) \<leftarrow> initialize_thread_table thread_cache_created k1;
               if \<not> ok then Some (False, k2)
               else do { k3 \<leftarrow> set_current_thread None k2; Some (True, k3) } })"

text \<open>The fields both creators set, the registry link included.\<close>

definition new_process :: "process_ref \<Rightarrow> u8 list option \<Rightarrow> u64 \<Rightarrow> kernel \<Rightarrow> kernel" where
  "new_process p name cr3 k =
     (let k1 = upd_process p (\<lambda>x. x\<lparr>pr_pid := g_next_pid k, pr_state := Process_Ready, pr_cr3 := cr3, pr_exit_status := 0\<rparr>)
                 (k\<lparr>g_next_pid := g_next_pid k + 1\<rparr>)
      in link_process p (fill_process_name p name k1))"

definition create_kernel_process :: "process_ref option \<Rightarrow> u64 \<Rightarrow> kernel \<Rightarrow> process_ref option \<times> kernel" where
  "create_kernel_process record kernel_cr3 k =
     (case allocate_process_record record k of
        (None, k1) \<Rightarrow> (None, k1)
      | (Some p, k1) \<Rightarrow>
          (Some p, (new_process p (Some [0x6B, 0x65, 0x72, 0x6E, 0x65, 0x6C]) kernel_cr3 k1)\<lparr>g_kernel_process := Some p\<rparr>))"

definition create_user_process :: "process_ref option \<Rightarrow> u8 list option \<Rightarrow> u64 \<Rightarrow> kernel \<Rightarrow> process_ref option \<times> kernel" where
  "create_user_process record name cr3 k =
     (case allocate_process_record record k of
        (None, k1) \<Rightarrow> (None, k1)
      | (Some p, k1) \<Rightarrow> (Some p, new_process p name cr3 k1))"

definition process_has_threads :: "process_ref \<Rightarrow> kernel \<Rightarrow> bool option" where
  "process_has_threads process k =
     do { (_, found) \<leftarrow> find_from (next_thread k)
            (\<lambda>t. th_process (k_threads k t) = Some process \<and> th_state (k_threads k t) \<noteq> Thread_Free) None (first_thread k);
          Some (found \<noteq> None) }"

text \<open>Freeing an address space: the user slot of its page tables, then the root.\<close>

definition destroy_address_space :: "u64 \<Rightarrow> kernel \<Rightarrow> bool \<times> kernel" where
  "destroy_address_space cr3 k =
     (let vm = snd (destroy_user_slot (vm_construct (k_frames k) (k_mem k) (k_shootdowns k) cr3) kUserPml4Index)
      in case pf_free (vm_frames vm) cr3 of
           (ok, frames) \<Rightarrow> (ok, k\<lparr>k_frames := frames, k_mem := vm_mem vm, k_shootdowns := vm_shootdowns vm\<rparr>))"

definition reap_process :: "process_ref \<Rightarrow> kernel \<Rightarrow> (bool \<times> kernel) option" where
  "reap_process process k =
     do { busy \<leftarrow> process_has_threads process k;
          if busy then Some (False, k)
          else
            let destroys = (Some process \<noteq> g_kernel_process k \<and> pr_cr3 (k_processes k process) \<noteq> 0);
                cr3_to_destroy = (if destroys then pr_cr3 (k_processes k process) else 0);
                k1 = (if destroys then upd_process process (\<lambda>x. x\<lparr>pr_cr3 := 0\<rparr>) k else k)
            in do { k2 \<leftarrow> orphan_children process k1;
                    let keep_kernel_process = (Some process = g_kernel_process k2);
                        k3 = (if keep_kernel_process then k2\<lparr>g_kernel_process := None\<rparr> else k2)
                    in do { k4 \<leftarrow> unlink_process process k3;
                            let k5 = (if cr3_to_destroy \<noteq> 0 \<and> \<not> keep_kernel_process
                                      then snd (destroy_address_space cr3_to_destroy k4) else k4)
                            in Some (True, release_process_record process k5) } } }"

section \<open>Waiting for a child\<close>

definition find_child_process_locked :: "process_ref \<Rightarrow> u64 \<Rightarrow> bool \<Rightarrow> kernel \<Rightarrow> process_ref option option" where
  "find_child_process_locked parent pid zombie_only k =
     map_option snd (find_from (next_process k)
       (\<lambda>c. let x = k_processes k c
            in pr_parent x = Some parent \<and> pr_state x \<noteq> Process_Free \<and> pr_state x \<noteq> Process_Dying \<and>
               (zombie_only \<longrightarrow> pr_state x = Process_Zombie) \<and> (pid = 0 \<or> pr_pid x = pid))
       None (first_process k))"

text \<open>The thread as the user copies see it, and a copy on the kernel's memory and event ring.\<close>

definition copy_view :: "kernel \<Rightarrow> thread_ref \<Rightarrow> user_thread" where
  "copy_view k t = \<lparr>ut_tid = th_tid (k_threads k t),
     ut_pid = map_option (\<lambda>p. pr_pid (k_processes k p)) (th_process (k_threads k t)),
     ut_address_space_cr3 = th_address_space_cr3 (k_threads k t)\<rparr>"

definition copy_env_of :: "kernel \<Rightarrow> copy_env" where
  "copy_env_of k = \<lparr>ce_mem = k_mem k, ce_ring = k_ring k, ce_ticks = g_timer_ticks k, ce_cpu = current_cpu_id k\<rparr>"

definition kernel_copy_to_user :: "thread_ref \<Rightarrow> u64 \<Rightarrow> u8 list \<Rightarrow> kernel \<Rightarrow> bool \<times> kernel" where
  "kernel_copy_to_user thread user_pointer source k =
     (case copy_to_user (Some (copy_view k thread)) user_pointer (Some source) (of_nat (length source)) (copy_env_of k) of
        (ok, env) \<Rightarrow> (ok, k\<lparr>k_mem := ce_mem env, k_ring := ce_ring env\<rparr>))"

definition int_bytes :: "u32 \<Rightarrow> u8 list" where
  "int_bytes x = map (\<lambda>i. ucast (drop_bit (8 * i) x)) [0, 1, 2, 3]"

text \<open>Delivering an exit status and reaping the child, the end of both wait calls.\<close>

definition finish_wait :: "thread_ref \<Rightarrow> process_ref \<Rightarrow> u64 \<Rightarrow> kernel \<Rightarrow> (u64 \<times> kernel) option" where
  "finish_wait thread child user_status_pointer k =
     (let child_pid = pr_pid (k_processes k child);
          exit_status = pr_exit_status (k_processes k child);
          (copied, k1) = (if user_status_pointer \<noteq> 0
                          then kernel_copy_to_user thread user_status_pointer (int_bytes exit_status) k
                          else (True, k))
      in if \<not> copied then Some (NOT 0, k1)
         else do { (reaped, k2) \<leftarrow> reap_process child k1; Some (if reaped then child_pid else NOT 0, k2) })"

definition try_complete_wait_pid :: "thread_ref \<Rightarrow> u64 \<Rightarrow> u64 \<Rightarrow> kernel \<Rightarrow> (u64 option \<times> kernel) option" where
  "try_complete_wait_pid thread pid user_status_pointer k =
     (case th_process (k_threads k thread) of
        None \<Rightarrow> Some (Some (NOT 0), k)
      | Some parent \<Rightarrow>
          if bit pid 63 then Some (Some (NOT 0), k)
          else
            do { zombie \<leftarrow> find_child_process_locked parent pid True k;
                 case zombie of
                   Some child \<Rightarrow>
                     do { busy \<leftarrow> process_has_threads child k;
                          if busy then Some (None, k)
                          else do { (result, k1) \<leftarrow> finish_wait thread child user_status_pointer k; Some (Some result, k1) } }
                 | None \<Rightarrow>
                     do { living \<leftarrow> find_child_process_locked parent pid False k;
                          Some (if living \<noteq> None then None else Some (NOT 0), k) } })"

definition try_complete_or_block_wait_pid :: "thread_ref \<Rightarrow> u64 \<Rightarrow> u64 \<Rightarrow> kernel \<Rightarrow> (u64 option \<times> kernel) option" where
  "try_complete_or_block_wait_pid thread pid user_status_pointer k =
     (case th_process (k_threads k thread) of
        None \<Rightarrow> Some (Some (NOT 0), k)
      | Some parent \<Rightarrow>
          if bit pid 63 then Some (Some (NOT 0), k)
          else
            do { zombie \<leftarrow> find_child_process_locked parent pid True k;
                 ready \<leftarrow> (case zombie of
                            None \<Rightarrow> Some None
                          | Some child \<Rightarrow>
                              do { busy \<leftarrow> process_has_threads child k; Some (if busy then None else Some child) });
                 case ready of
                   Some child \<Rightarrow>
                     do { (result, k1) \<leftarrow> finish_wait thread child user_status_pointer k; Some (Some result, k1) }
                 | None \<Rightarrow>
                     do { living \<leftarrow> find_child_process_locked parent pid False k;
                          case living of
                            None \<Rightarrow> Some (Some (NOT 0), k)
                          | Some _ \<Rightarrow>
                              do { k1 \<leftarrow> wait_queue_enqueue_locked (ChildExitQueue parent) thread
                                           (enter_wait thread (child_exit_wait user_status_pointer pid) k);
                                   Some (None, k1) } } })"

text \<open>
  The first loop of \<^verbatim>\<open>wake_child_waiters\<close> goes through the detached waiters and keeps a list of those
  that still wait; the second puts these back.
\<close>

partial_function (option) wake_child_loop ::
  "thread_ref option \<Rightarrow> thread_ref option \<Rightarrow> thread_ref option \<Rightarrow> kernel \<Rightarrow> (thread_ref option \<times> kernel) option" where
  "wake_child_loop pending still_head still_tail k =
     (case pending of
        None \<Rightarrow> Some (still_head, k)
      | Some thread \<Rightarrow>
          (let rest = th_wait_link (k_threads k thread);
               k1 = upd_thread thread (\<lambda>x. x\<lparr>th_wait_link := None\<rparr>) k;
               wait = th_wait (k_threads k1 thread)
           in do { (result, k2) \<leftarrow> try_complete_wait_pid thread (w_word1 wait) (w_word0 wait) k1;
                   case result of
                     Some r \<Rightarrow>
                       do { k3 \<leftarrow> wake_blocked_thread thread None
                                    (upd_thread thread (\<lambda>x. x\<lparr>th_frame := (th_frame x)\<lparr>tf_rax := r\<rparr>\<rparr>) k2);
                            wake_child_loop rest still_head still_tail k3 }
                   | None \<Rightarrow>
                       (case (still_head, still_tail) of
                          (Some h, Some last_waiting) \<Rightarrow>
                            wake_child_loop rest still_head (Some thread) (upd_thread last_waiting (\<lambda>x. x\<lparr>th_wait_link := Some thread\<rparr>) k2)
                        | (Some h, None) \<Rightarrow> None
                        | _ \<Rightarrow> wake_child_loop rest (Some thread) (Some thread) k2) }))"

partial_function (option) requeue_loop :: "process_ref \<Rightarrow> thread_ref option \<Rightarrow> kernel \<Rightarrow> kernel option" where
  "requeue_loop parent thread k =
     (case thread of
        None \<Rightarrow> Some k
      | Some t \<Rightarrow>
          do { k1 \<leftarrow> wait_queue_enqueue_locked (ChildExitQueue parent) t (upd_thread t (\<lambda>x. x\<lparr>th_wait_link := None\<rparr>) k);
               requeue_loop parent (th_wait_link (k_threads k t)) k1 })"

definition wake_child_waiters :: "process_ref option \<Rightarrow> kernel \<Rightarrow> kernel option" where
  "wake_child_waiters parent k =
     (case parent of
        None \<Rightarrow> Some k
      | Some p \<Rightarrow>
          (case wait_queue_dequeue_all_locked (ChildExitQueue p) k of
             (pending, k1) \<Rightarrow>
               do { (still_waiting, k2) \<leftarrow> wake_child_loop pending None None k1;
                    requeue_loop p still_waiting k2 }))"

section \<open>The reaper\<close>

definition thread_is_current_on_any_cpu :: "kernel \<Rightarrow> thread_ref \<Rightarrow> bool option" where
  "thread_is_current_on_any_cpu k thread =
     do { (_, owner) \<leftarrow> find_from (\<lambda>c. cpu_next (k_cpus k c)) (\<lambda>c. cpu_current_thread (k_cpus k c) = Some thread)
            None (g_cpu_boot k);
          Some (owner \<noteq> None) }"

text \<open>The first dying thread of the registry that no CPU runs.\<close>

partial_function (option) find_dead_thread :: "kernel \<Rightarrow> thread_ref option \<Rightarrow> thread_ref option option" where
  "find_dead_thread k candidate =
     (case candidate of
        None \<Rightarrow> Some None
      | Some t \<Rightarrow>
          if th_state (k_threads k t) = Thread_Dying
          then do { current \<leftarrow> thread_is_current_on_any_cpu k t;
                    if \<not> current then Some (Some t) else find_dead_thread k (next_thread k t) }
          else find_dead_thread k (next_thread k t))"

definition free_stack :: "u64 \<Rightarrow> kernel \<Rightarrow> kernel" where
  "free_stack base k =
     fold (\<lambda>page k. k\<lparr>k_frames := snd (pf_free (k_frames k) (base + of_nat page * kPageSize))\<rparr>)
       [0 ..< unat kKernelThreadStackPages] k"

text \<open>What the reaper does with one dead thread.\<close>

definition reap_thread :: "thread_ref \<Rightarrow> kernel \<Rightarrow> kernel option" where
  "reap_thread thread k =
     (let k1 = free_stack (th_kernel_stack_base (k_threads k thread)) k
      in do { k2 \<leftarrow> clear_thread thread k1;
              case th_process (k_threads k1 thread) of
                None \<Rightarrow> Some k2
              | Some owner \<Rightarrow>
                  do { busy \<leftarrow> process_has_threads owner k2;
                       if busy then Some k2
                       else if pr_state (k_processes k2 owner) = Process_Zombie
                       then wake_child_waiters (pr_parent (k_processes k2 owner)) k2
                       else map_option snd (reap_process owner k2) } })"

partial_function (option) reap_dead_threads :: "kernel \<Rightarrow> kernel option" where
  "reap_dead_threads k =
     do { thread \<leftarrow> find_dead_thread k (first_thread k);
          case thread of
            None \<Rightarrow> Some k
          | Some t \<Rightarrow> do { k1 \<leftarrow> reap_thread t k; reap_dead_threads k1 } }"

end
