(* ===== verification/Scheduler.thy ===== *)
theory Scheduler
  imports Process_Table
begin

text \<open>
  The scheduler of \<^verbatim>\<open>sched/scheduler.cpp\<close>: choosing the next thread of a CPU and balancing the run
  queues of the CPUs, and the switch to a thread in \<^verbatim>\<open>arch/x86_64/asm/multitask.asm\<close>.
\<close>

definition kBalanceIntervalTicks :: u64 where
  "kBalanceIntervalTicks = 64"

definition kIdleBalanceTriggerTicks :: u64 where
  "kIdleBalanceTriggerTicks = 4"

definition kMigrationCooldownTicks :: u64 where
  "kMigrationCooldownTicks = 64"

definition thread_pid :: "kernel \<Rightarrow> thread_ref option \<Rightarrow> u64" where
  "thread_pid k thread =
     (case thread of
        None \<Rightarrow> 0
      | Some t \<Rightarrow> (case th_process (k_threads k t) of None \<Rightarrow> 0 | Some p \<Rightarrow> pr_pid (k_processes k p)))"

definition thread_tid :: "kernel \<Rightarrow> thread_ref option \<Rightarrow> u64" where
  "thread_tid k thread = (case thread of None \<Rightarrow> 0 | Some t \<Rightarrow> th_tid (k_threads k t))"

section \<open>Balancing\<close>

definition schedulable_cpu_count :: "kernel \<Rightarrow> u64 option" where
  "schedulable_cpu_count k =
     fold_from (\<lambda>_ c. cpu_next (k_cpus k c)) (\<lambda>c count. if cpu_is_schedulable k c then count + 1 else count) (g_cpu_boot k) 0"

definition thread_allows_cpu :: "kernel \<Rightarrow> thread_ref \<Rightarrow> cpu_ref \<Rightarrow> bool" where
  "thread_allows_cpu k thread owner \<longleftrightarrow>
     64 \<le> cpu_id (k_cpus k owner) \<or> th_affinity_mask (k_threads k thread) AND push_bit (unat (cpu_id (k_cpus k owner))) 1 \<noteq> 0"

definition thread_is_migratable :: "kernel \<Rightarrow> thread_ref \<Rightarrow> cpu_ref \<Rightarrow> u64 \<Rightarrow> bool" where
  "thread_is_migratable k thread owner now \<longleftrightarrow>
     th_state (k_threads k thread) = Thread_Ready \<and> thread_allows_cpu k thread owner \<and>
     (th_last_migration_tick (k_threads k thread) = 0 \<or>
      kMigrationCooldownTicks \<le> now - th_last_migration_tick (k_threads k thread))"

text \<open>The search loop keeps the last migratable thread it saw, with the thread before it.\<close>

partial_function (option) last_migratable_loop ::
  "kernel \<Rightarrow> cpu_ref \<Rightarrow> u64 \<Rightarrow> thread_ref option \<Rightarrow> (thread_ref option \<times> thread_ref) option \<Rightarrow> thread_ref option \<Rightarrow>
   (thread_ref option \<times> thread_ref) option option" where
  "last_migratable_loop k receiver now previous candidate thread =
     (case thread of
        None \<Rightarrow> Some candidate
      | Some t \<Rightarrow>
          last_migratable_loop k receiver now (Some t)
            (if thread_is_migratable k t receiver now then Some (previous, t) else candidate) (th_next (k_threads k t)))"

definition detach_last_migratable_thread_locked :: "cpu_ref \<Rightarrow> cpu_ref \<Rightarrow> u64 \<Rightarrow> kernel \<Rightarrow> (thread_ref option \<times> kernel) option" where
  "detach_last_migratable_thread_locked donor receiver now k =
     do { found \<leftarrow> last_migratable_loop k receiver now None None (cpu_runq_head (k_cpus k donor));
          Some (case found of
                  None \<Rightarrow> (None, k)
                | Some (previous, t) \<Rightarrow> (Some t, run_queue_left donor t (list_detach (run_queue donor) previous t k))) }"

definition append_ready_thread_locked :: "cpu_ref \<Rightarrow> thread_ref \<Rightarrow> kernel \<Rightarrow> kernel" where
  "append_ready_thread_locked owner thread k =
     upd_cpu owner (\<lambda>c. c\<lparr>cpu_runq_length := cpu_runq_length c + 1, cpu_enqueue_count := cpu_enqueue_count c + 1\<rparr>)
       (upd_thread thread (\<lambda>x. x\<lparr>th_run_queue_cpu := Some owner\<rparr>) (list_append (run_queue owner) thread k))"

definition record_run_queue_depth :: "cpu_ref \<Rightarrow> u64 \<Rightarrow> kernel \<Rightarrow> kernel" where
  "record_run_queue_depth owner depth k =
     (if cpu_last_recorded_runq_depth (k_cpus k owner) = depth then k
      else
        let k1 = upd_cpu owner (\<lambda>c. c\<lparr>cpu_last_recorded_runq_depth := depth\<rparr>) k
        in kernel_record 17 4 (ucast (cpu_id (k_cpus k1 owner))) depth 0 0 k1)"

text \<open>The depths a balancing attempt looks at: all queues together, the local one, the donor's.\<close>

record balance_depths =
  bd_total :: u64
  bd_local :: u64
  bd_donor :: "cpu_ref option"
  bd_donor_depth :: u64

definition balance_scan :: "kernel \<Rightarrow> cpu_ref \<Rightarrow> balance_depths option" where
  "balance_scan k target_cpu =
     fold_from (\<lambda>_ c. cpu_next (k_cpus k c))
       (\<lambda>c d. if \<not> cpu_is_schedulable k c then d
              else
                let depth = cpu_runq_length (k_cpus k c);
                    d1 = d\<lparr>bd_total := bd_total d + depth\<rparr>
                in if c = target_cpu then d1\<lparr>bd_local := depth\<rparr>
                   else if bd_donor_depth d1 < depth then d1\<lparr>bd_donor := Some c, bd_donor_depth := depth\<rparr>
                   else d1)
       (g_cpu_boot k) \<lparr>bd_total = 0, bd_local = 0, bd_donor = None, bd_donor_depth = 0\<rparr>"

text \<open>The end of a migration: the detached thread joins the target's queue, the counters and the event ring note it.\<close>

definition finish_migration :: "cpu_ref \<Rightarrow> cpu_ref \<Rightarrow> thread_ref \<Rightarrow> u64 \<Rightarrow> kernel \<Rightarrow> kernel" where
  "finish_migration target_cpu donor t now k =
     (let k3 = append_ready_thread_locked target_cpu t k;
          k4 = upd_thread t (\<lambda>x. x\<lparr>th_scheduler_cpu := Some target_cpu, th_last_migration_tick := now\<rparr>) k3;
          k5 = upd_cpu target_cpu (\<lambda>c. c\<lparr>cpu_migrate_in := cpu_migrate_in c + 1\<rparr>) k4;
          k6 = upd_cpu donor (\<lambda>c. c\<lparr>cpu_migrate_out := cpu_migrate_out c + 1\<rparr>) k5
      in kernel_record 16 4 (ucast (cpu_id (k_cpus k6 donor))) (ucast (cpu_id (k_cpus k6 target_cpu))) (th_tid (k_threads k6 t)) 0 k6)"

text \<open>
  One balancing attempt. Between the scan and the second look at the depths, under the two queue
  locks, nothing else runs in this model, so the second look sees the depths of the scan.
\<close>

definition scheduler_balance_cpu :: "cpu_ref \<Rightarrow> u64 \<Rightarrow> bool \<Rightarrow> kernel \<Rightarrow> (bool \<times> kernel) option" where
  "scheduler_balance_cpu target_cpu now force k =
     (if \<not> g_smp_balancer_enabled k \<or> \<not> cpu_is_schedulable k target_cpu then Some (False, k)
      else
        do { cpu_count \<leftarrow> schedulable_cpu_count k;
             if cpu_count < 2 then Some (False, k)
             else
               do { d \<leftarrow> balance_scan k target_cpu;
                    let k1 = record_run_queue_depth target_cpu (bd_local d) k;
                        target_depth = (bd_total d + cpu_count - 1) div cpu_count
                    in case bd_donor d of
                         None \<Rightarrow> Some (False, k1)
                       | Some donor \<Rightarrow>
                           if bd_donor_depth d = 0 \<or> bd_donor_depth d \<le> bd_local d + 1 then Some (False, k1)
                           else if \<not> force \<and> target_depth \<le> bd_local d + 1 then Some (False, k1)
                           else
                             let local_depth = cpu_runq_length (k_cpus k1 target_cpu);
                                 donor_depth = cpu_runq_length (k_cpus k1 donor)
                             in if donor_depth = 0 \<or> donor_depth \<le> local_depth + 1 then Some (False, k1)
                                else if \<not> force \<and> target_depth \<le> local_depth + 1 then Some (False, k1)
                                else
                                  do { (migrated, k2) \<leftarrow> detach_last_migratable_thread_locked donor target_cpu now k1;
                                       case migrated of
                                         None \<Rightarrow> Some (False, k2)
                                       | Some t \<Rightarrow>
                                           Some (True, finish_migration target_cpu donor t now k2) } } })"

definition scheduler_handle_timer_tick :: "kernel \<Rightarrow> kernel option" where
  "scheduler_handle_timer_tick k =
     (if \<not> g_smp_balancer_enabled k then Some k
      else
        let local_cpu = k_cpu_cur k;
            idle_without_work = (current_thread k = idle_thread k \<and> cpu_runq_length (k_cpus k local_cpu) = 0);
            k1 = upd_cpu local_cpu (\<lambda>c. c\<lparr>cpu_balance_idle_ticks :=
                   (if idle_without_work then cpu_balance_idle_ticks c + 1 else 0)\<rparr>) k;
            ticks = cpu_timer_ticks (k_cpus k1 local_cpu);
            idle_ticks = cpu_balance_idle_ticks (k_cpus k1 local_cpu);
            periodic_check = (ticks \<noteq> 0 \<and> ticks mod kBalanceIntervalTicks = 0);
            idle_check = (idle_without_work \<and> kIdleBalanceTriggerTicks \<le> idle_ticks \<and> idle_ticks mod kIdleBalanceTriggerTicks = 0)
        in if periodic_check \<or> idle_check then map_option snd (scheduler_balance_cpu local_cpu ticks idle_check k1)
           else Some k1)"

section \<open>Choosing a thread\<close>

definition schedule_next :: "bool \<Rightarrow> kernel \<Rightarrow> (thread_ref option \<times> kernel) option" where
  "schedule_next keep_current k =
     do { k1 \<leftarrow> (if cpu_on_boot k then reap_dead_threads k else Some k);
          let current = current_thread k1;
              local_cpu = k_cpu_cur k1
          in do { k2 \<leftarrow> (case current of
                          Some t \<Rightarrow>
                            if keep_current \<and> Some t \<noteq> idle_thread k1 \<and> th_state (k_threads k1 t) = Thread_Running
                            then mark_thread_ready t (Some local_cpu) k1 else Some k1
                        | None \<Rightarrow> Some k1);
                  let (ready, k3) = next_runnable_thread (upd_cpu local_cpu (\<lambda>c. c\<lparr>cpu_reschedule_pending := 0\<rparr>) k2);
                      next = (case ready of None \<Rightarrow> cpu_idle_thread (k_cpus k3 local_cpu) | Some t \<Rightarrow> Some t);
                      k4 = (case next of
                              None \<Rightarrow> k3
                            | Some t \<Rightarrow> set_process_state t Process_Running (upd_thread t (\<lambda>x. x\<lparr>th_state := Thread_Running\<rparr>) k3))
                  in Some (next,
                       if next \<noteq> current
                       then kernel_record 2 0 (thread_pid k4 current) (thread_tid k4 current) (thread_pid k4 next) (thread_tid k4 next) k4
                       else k4) } }"

text \<open>The switch: the thread becomes current on this CPU, its kernel stack the one for traps.\<close>

definition restore_thread :: "thread_ref \<Rightarrow> kernel \<Rightarrow> kernel" where
  "restore_thread t k =
     upd_cpu (k_cpu_cur k) (\<lambda>c. c\<lparr>cpu_current_thread := Some t, cpu_tss_rsp0 := th_kernel_stack_top (k_threads k t)\<rparr>) k"

end
