(* ===== verification/Thread_Queues.thy ===== *)
theory Thread_Queues
  imports Scheduler
begin

text \<open>
  The run queues of the CPUs as sequences of threads. The pointer lists of \<^verbatim>\<open>proc/thread.cpp\<close>,
  \<^verbatim>\<open>sched/thread_queue.cpp\<close> and \<^verbatim>\<open>sched/scheduler.cpp\<close> implement these sequences: appending puts a
  thread at the end of one queue, taking the next thread removes the first, the balancer moves one
  thread between two queues.
\<close>

interpretation rq: intrusive_lists run_queue
  by unfold_locales (auto simp: run_queue_def upd_thread_def upd_cpu_def)

interpretation reg: intrusive_list thread_registry
  by unfold_locales (auto simp: thread_registry_def upd_thread_def)

interpretation preg: intrusive_list process_registry
  by unfold_locales (auto simp: process_registry_def upd_process_def)

section \<open>Parts of the state\<close>

text \<open>
  What each invariant reads of the state. An update that leaves a part alone keeps the invariant.
\<close>

definition rq_part :: "kernel \<Rightarrow> (thread_ref \<Rightarrow> thread_ref option) \<times> (thread_ref \<Rightarrow> cpu_ref option) \<times>
    (cpu_ref \<Rightarrow> thread_ref option) \<times> (cpu_ref \<Rightarrow> thread_ref option) \<times> (cpu_ref \<Rightarrow> u64)" where
  "rq_part k = (\<lambda>t. th_next (k_threads k t), \<lambda>t. th_run_queue_cpu (k_threads k t),
     \<lambda>c. cpu_runq_head (k_cpus k c), \<lambda>c. cpu_runq_tail (k_cpus k c), \<lambda>c. cpu_runq_length (k_cpus k c))"

definition reg_part :: "kernel \<Rightarrow> (thread_ref \<Rightarrow> thread_ref option) \<times> thread_ref option \<times> thread_ref option" where
  "reg_part k = (\<lambda>t. th_registry_next (k_threads k t), g_thread_head k, g_thread_tail k)"

definition preg_part :: "kernel \<Rightarrow> (process_ref \<Rightarrow> process_ref option) \<times> process_ref option \<times> process_ref option" where
  "preg_part k = (\<lambda>p. pr_registry_next (k_processes k p), g_process_head k, g_process_tail k)"

definition ring_part :: "kernel \<Rightarrow> (cpu_ref \<Rightarrow> cpu_ref option) \<times> (cpu_ref \<Rightarrow> u32) \<times> cpu_ref option \<times> cpu_ref" where
  "ring_part k = (\<lambda>c. cpu_next (k_cpus k c), \<lambda>c. cpu_booted (k_cpus k c), g_cpu_boot k, k_cpu_cur k)"

definition wq_part :: "kernel \<Rightarrow> (thread_ref \<Rightarrow> thread_ref option) \<times> (wait_queue \<Rightarrow> thread_ref option)" where
  "wq_part k = (\<lambda>t. th_wait_link (k_threads k t), \<lambda>q. wq_head q k)"

definition run_part :: "kernel \<Rightarrow> (cpu_ref \<Rightarrow> thread_ref option) \<times> (cpu_ref \<Rightarrow> thread_ref option)" where
  "run_part k = (\<lambda>c. cpu_current_thread (k_cpus k c), \<lambda>c. cpu_idle_thread (k_cpus k c))"

definition own_part :: "kernel \<Rightarrow> (thread_ref \<Rightarrow> process_ref option) \<times> (thread_ref \<Rightarrow> bool)" where
  "own_part k = (\<lambda>t. th_process (k_threads k t), \<lambda>t. th_state (k_threads k t) = Thread_Free)"

lemmas part_defs = rq_part_def reg_part_def preg_part_def ring_part_def wq_part_def run_part_def own_part_def

lemma wq_head_upd [simp]:
  "wq_head q (upd_thread t f k) = wq_head q k" "wq_head q (upd_cpu c g k) = wq_head q k"
  by (cases q; simp add: upd_thread_def upd_cpu_def)+

lemma wq_head_kernel_record [simp]: "wq_head q (kernel_record a b d e f g k) = wq_head q k"
  by (cases q) (simp_all add: kernel_record_def)

lemma kernel_record_frame [simp]:
  "k_threads (kernel_record a b d e f g k) = k_threads k" "k_cpus (kernel_record a b d e f g k) = k_cpus k"
  "k_processes (kernel_record a b d e f g k) = k_processes k" "k_cpu_cur (kernel_record a b d e f g k) = k_cpu_cur k"
  "g_cpu_boot (kernel_record a b d e f g k) = g_cpu_boot k"
  "rq_part (kernel_record a b d e f g k) = rq_part k" "reg_part (kernel_record a b d e f g k) = reg_part k"
  "preg_part (kernel_record a b d e f g k) = preg_part k" "ring_part (kernel_record a b d e f g k) = ring_part k"
  "wq_part (kernel_record a b d e f g k) = wq_part k" "run_part (kernel_record a b d e f g k) = run_part k"
  "own_part (kernel_record a b d e f g k) = own_part k"
  by (simp_all add: part_defs) (simp_all add: kernel_record_def)

lemma upd_fields [simp]:
  "k_threads (upd_thread t f k) = (k_threads k)(t := f (k_threads k t))" "k_cpus (upd_thread t f k) = k_cpus k"
  "k_processes (upd_thread t f k) = k_processes k" "k_threads (upd_cpu c g k) = k_threads k"
  "k_cpus (upd_cpu c g k) = (k_cpus k)(c := g (k_cpus k c))" "k_processes (upd_cpu c g k) = k_processes k"
  "k_threads (upd_process p h k) = k_threads k" "k_cpus (upd_process p h k) = k_cpus k"
  "k_processes (upd_process p h k) = (k_processes k)(p := h (k_processes k p))"
  "k_cpu_cur (upd_thread t f k) = k_cpu_cur k" "k_cpu_cur (upd_cpu c g k) = k_cpu_cur k" "k_cpu_cur (upd_process p h k) = k_cpu_cur k"
  "g_cpu_boot (upd_thread t f k) = g_cpu_boot k" "g_cpu_boot (upd_cpu c g k) = g_cpu_boot k" "g_cpu_boot (upd_process p h k) = g_cpu_boot k"
  by (simp_all add: upd_thread_def upd_cpu_def upd_process_def)

lemma upd_thread_part:
  "(\<And>x. th_next (f x) = th_next x) \<Longrightarrow> (\<And>x. th_run_queue_cpu (f x) = th_run_queue_cpu x) \<Longrightarrow> rq_part (upd_thread t f k) = rq_part k"
  "(\<And>x. th_registry_next (f x) = th_registry_next x) \<Longrightarrow> reg_part (upd_thread t f k) = reg_part k"
  "preg_part (upd_thread t f k) = preg_part k"
  "ring_part (upd_thread t f k) = ring_part k"
  "(\<And>x. th_wait_link (f x) = th_wait_link x) \<Longrightarrow> wq_part (upd_thread t f k) = wq_part k"
  "run_part (upd_thread t f k) = run_part k"
  "(\<And>x. th_process (f x) = th_process x) \<Longrightarrow> (\<And>x. th_state (f x) = Thread_Free \<longleftrightarrow> th_state x = Thread_Free) \<Longrightarrow>
     own_part (upd_thread t f k) = own_part k"
  by (auto simp: part_defs fun_eq_iff) (simp_all add: upd_thread_def)

lemma upd_cpu_part:
  "(\<And>x. cpu_runq_head (g x) = cpu_runq_head x) \<Longrightarrow> (\<And>x. cpu_runq_tail (g x) = cpu_runq_tail x) \<Longrightarrow>
     (\<And>x. cpu_runq_length (g x) = cpu_runq_length x) \<Longrightarrow> rq_part (upd_cpu c g k) = rq_part k"
  "reg_part (upd_cpu c g k) = reg_part k"
  "preg_part (upd_cpu c g k) = preg_part k"
  "(\<And>x. cpu_next (g x) = cpu_next x) \<Longrightarrow> (\<And>x. cpu_booted (g x) = cpu_booted x) \<Longrightarrow> ring_part (upd_cpu c g k) = ring_part k"
  "wq_part (upd_cpu c g k) = wq_part k"
  "(\<And>x. cpu_current_thread (g x) = cpu_current_thread x) \<Longrightarrow> (\<And>x. cpu_idle_thread (g x) = cpu_idle_thread x) \<Longrightarrow>
     run_part (upd_cpu c g k) = run_part k"
  "own_part (upd_cpu c g k) = own_part k"
  by (auto simp: part_defs fun_eq_iff) (simp_all add: upd_cpu_def)

lemma upd_process_part:
  "rq_part (upd_process p h k) = rq_part k"
  "reg_part (upd_process p h k) = reg_part k"
  "(\<And>x. pr_registry_next (h x) = pr_registry_next x) \<Longrightarrow> preg_part (upd_process p h k) = preg_part k"
  "ring_part (upd_process p h k) = ring_part k"
  "(\<And>x. pr_child_exit_head (h x) = pr_child_exit_head x) \<Longrightarrow> wq_part (upd_process p h k) = wq_part k"
  "run_part (upd_process p h k) = run_part k"
  "own_part (upd_process p h k) = own_part k"
proof -
  show "wq_part (upd_process p h k) = wq_part k" if "\<And>x. pr_child_exit_head (h x) = pr_child_exit_head x"
  proof -
    have "wq_head q (upd_process p h k) = wq_head q k" for q
      using that by (cases q) (simp_all add: upd_process_def)
    then show ?thesis by (simp add: wq_part_def)
  qed
qed (auto simp: part_defs fun_eq_iff upd_process_def)

lemmas upd_part [simp] = upd_thread_part upd_cpu_part upd_process_part

lemma set_process_state_frame [simp]:
  "k_threads (set_process_state t st k) = k_threads k" "k_cpus (set_process_state t st k) = k_cpus k"
  "k_cpu_cur (set_process_state t st k) = k_cpu_cur k" "g_cpu_boot (set_process_state t st k) = g_cpu_boot k"
  "rq_part (set_process_state t st k) = rq_part k" "reg_part (set_process_state t st k) = reg_part k"
  "preg_part (set_process_state t st k) = preg_part k" "ring_part (set_process_state t st k) = ring_part k"
  "wq_part (set_process_state t st k) = wq_part k" "run_part (set_process_state t st k) = run_part k"
  "own_part (set_process_state t st k) = own_part k"
  by (auto simp: set_process_state_def split: option.split)

lemma ipi_send_reschedule_frame [simp]:
  "k_threads (snd (ipi_send_reschedule c k)) = k_threads k" "k_cpus (snd (ipi_send_reschedule c k)) = k_cpus k"
  "k_processes (snd (ipi_send_reschedule c k)) = k_processes k"
  "k_cpu_cur (snd (ipi_send_reschedule c k)) = k_cpu_cur k" "g_cpu_boot (snd (ipi_send_reschedule c k)) = g_cpu_boot k"
  "rq_part (snd (ipi_send_reschedule c k)) = rq_part k" "reg_part (snd (ipi_send_reschedule c k)) = reg_part k"
  "preg_part (snd (ipi_send_reschedule c k)) = preg_part k" "ring_part (snd (ipi_send_reschedule c k)) = ring_part k"
  "wq_part (snd (ipi_send_reschedule c k)) = wq_part k" "run_part (snd (ipi_send_reschedule c k)) = run_part k"
  "own_part (snd (ipi_send_reschedule c k)) = own_part k"
proof -
  have "wq_head q (snd (ipi_send_reschedule c k)) = wq_head q k" for q
    by (cases q) (simp_all add: ipi_send_reschedule_def ipi_send_def Let_def kernel_record_def)
  then show "wq_part (snd (ipi_send_reschedule c k)) = wq_part k"
    by (simp add: wq_part_def) (simp add: ipi_send_reschedule_def ipi_send_def Let_def kernel_record_def)
qed (simp_all add: part_defs ipi_send_reschedule_def ipi_send_def Let_def kernel_record_def)

section \<open>Run queues as sequences\<close>

definition rq_inv :: "kernel \<Rightarrow> (cpu_ref \<Rightarrow> thread_ref list) \<Rightarrow> bool" where
  "rq_inv k Q \<longleftrightarrow> lists_view run_queue k Q \<and>
     (\<forall>c. cpu_runq_length (k_cpus k c) = of_nat (length (Q c)) \<and> 0 \<notin> set (Q c)) \<and>
     (\<forall>t c. th_run_queue_cpu (k_threads k t) = Some c \<longleftrightarrow> t \<in> set (Q c))"

lemma rq_inv_cong:
  assumes "rq_part k' = rq_part k"
  shows "rq_inv k' Q = rq_inv k Q"
proof -
  have n: "th_next (k_threads k' t) = th_next (k_threads k t)" "th_run_queue_cpu (k_threads k' t) = th_run_queue_cpu (k_threads k t)" for t
    using assms by (simp_all add: rq_part_def fun_eq_iff)
  have h: "cpu_runq_head (k_cpus k' c) = cpu_runq_head (k_cpus k c)" "cpu_runq_tail (k_cpus k' c) = cpu_runq_tail (k_cpus k c)"
    "cpu_runq_length (k_cpus k' c) = cpu_runq_length (k_cpus k c)" for c
    using assms by (simp_all add: rq_part_def fun_eq_iff)
  have "list_view (run_queue c) k' (Q c) = list_view (run_queue c) k (Q c)" for c
    by (intro list_view_cong) (simp_all add: run_queue_def n h)
  then show ?thesis by (simp only: rq_inv_def lists_view_def n h)
qed

lemma rq_inv_frame: "rq_inv k Q \<Longrightarrow> rq_part k' = rq_part k \<Longrightarrow> rq_inv k' Q"
  by (rule iffD2 [OF rq_inv_cong])

lemma queue_length_bound:
  assumes "rq_inv k Q"
  shows "length (Q c) < 2 ^ 64"
proof -
  have "distinct (Q c)" "0 \<notin> set (Q c)"
    using assms by (auto simp: rq_inv_def dest: lists_viewD(1) list_view_distinct)
  then have "length (Q c) = card (set (Q c))" "set (Q c) \<subseteq> UNIV - {0}" by (auto simp: distinct_card)
  moreover have "card (UNIV - {0 :: u64}) < 2 ^ 64" by (simp add: card_word)
  moreover have "card (set (Q c)) \<le> card (UNIV - {0 :: u64})" using calculation(2) by (intro card_mono) auto
  ultimately show ?thesis by linarith
qed

lemma unat_queue_length:
  "rq_inv k Q \<Longrightarrow> unat (cpu_runq_length (k_cpus k c)) = length (Q c)"
  using queue_length_bound [of k Q c] by (simp add: rq_inv_def unat_of_nat take_bit_nat_eq_self)

lemma queue_empty_iff: "rq_inv k Q \<Longrightarrow> cpu_runq_length (k_cpus k c) = 0 \<longleftrightarrow> Q c = []"
  using unat_queue_length [of k Q c] by (metis length_0_conv unat_eq_zero)

lemma run_queue_append_part:
  "lo_next (run_queue d) (upd_thread t (\<lambda>x. x\<lparr>th_run_queue_cpu := v\<rparr>) k) = lo_next (run_queue d) k"
  by (auto simp: run_queue_def)

lemma lists_view_frame:
  assumes "lists_view run_queue k Q" and "\<And>t. th_next (k_threads k' t) = th_next (k_threads k t)"
    and "\<And>c. cpu_runq_head (k_cpus k' c) = cpu_runq_head (k_cpus k c)" and "\<And>c. cpu_runq_tail (k_cpus k' c) = cpu_runq_tail (k_cpus k c)"
  shows "lists_view run_queue k' Q"
proof -
  have "list_view (run_queue c) k' (Q c) = list_view (run_queue c) k (Q c)" for c
    using assms(2-) by (intro list_view_cong) (auto simp: run_queue_def)
  then show ?thesis using assms(1) by (simp add: lists_view_def)
qed

text \<open>The list operations on a run queue change links, heads and tails only.\<close>

lemma list_append_run_queue [simp]:
  "k_processes (list_append (run_queue c) t k) = k_processes k" "k_cpu_cur (list_append (run_queue c) t k) = k_cpu_cur k"
  "g_cpu_boot (list_append (run_queue c) t k) = g_cpu_boot k"
  "reg_part (list_append (run_queue c) t k) = reg_part k" "preg_part (list_append (run_queue c) t k) = preg_part k"
  "ring_part (list_append (run_queue c) t k) = ring_part k" "wq_part (list_append (run_queue c) t k) = wq_part k"
  "run_part (list_append (run_queue c) t k) = run_part k" "own_part (list_append (run_queue c) t k) = own_part k"
  "th_run_queue_cpu (k_threads (list_append (run_queue c) t k) u) = th_run_queue_cpu (k_threads k u)"
  "th_state (k_threads (list_append (run_queue c) t k) u) = th_state (k_threads k u)"
  "th_wait (k_threads (list_append (run_queue c) t k) u) = th_wait (k_threads k u)"
  "cpu_runq_length (k_cpus (list_append (run_queue c) t k) d) = cpu_runq_length (k_cpus k d)"
  by (auto simp: list_append_def run_queue_def Let_def split: option.split)

lemma list_detach_run_queue [simp]:
  "k_processes (list_detach (run_queue c) p t k) = k_processes k" "k_cpu_cur (list_detach (run_queue c) p t k) = k_cpu_cur k"
  "g_cpu_boot (list_detach (run_queue c) p t k) = g_cpu_boot k"
  "reg_part (list_detach (run_queue c) p t k) = reg_part k" "preg_part (list_detach (run_queue c) p t k) = preg_part k"
  "ring_part (list_detach (run_queue c) p t k) = ring_part k" "wq_part (list_detach (run_queue c) p t k) = wq_part k"
  "run_part (list_detach (run_queue c) p t k) = run_part k" "own_part (list_detach (run_queue c) p t k) = own_part k"
  "th_run_queue_cpu (k_threads (list_detach (run_queue c) p t k) u) = th_run_queue_cpu (k_threads k u)"
  "th_state (k_threads (list_detach (run_queue c) p t k) u) = th_state (k_threads k u)"
  "th_wait (k_threads (list_detach (run_queue c) p t k) u) = th_wait (k_threads k u)"
  "cpu_runq_length (k_cpus (list_detach (run_queue c) p t k) d) = cpu_runq_length (k_cpus k d)"
  by (auto simp: list_detach_def run_queue_def Let_def split: option.split)

text \<open>Two states that differ in the run queues only.\<close>

definition same_but_queues :: "kernel \<Rightarrow> kernel \<Rightarrow> bool" where
  "same_but_queues k k' \<longleftrightarrow> reg_part k' = reg_part k \<and> preg_part k' = preg_part k \<and> ring_part k' = ring_part k \<and>
     wq_part k' = wq_part k \<and> run_part k' = run_part k \<and> k_processes k' = k_processes k \<and>
     (\<forall>t. th_process (k_threads k' t) = th_process (k_threads k t) \<and> th_state (k_threads k' t) = th_state (k_threads k t) \<and>
        th_wait (k_threads k' t) = th_wait (k_threads k t))"

lemma same_but_queues_refl [simp]: "same_but_queues k k"
  by (simp add: same_but_queues_def)

lemma same_but_queues_trans [trans]: "same_but_queues k k' \<Longrightarrow> same_but_queues k' k'' \<Longrightarrow> same_but_queues k k''"
  by (simp add: same_but_queues_def)

lemma run_queue_append_same: "same_but_queues k (run_queue_append_locked c t k)"
proof -
  have "th_process (k_threads (list_append (run_queue c) t k) u) = th_process (k_threads k u)" for u
    by (auto simp: list_append_def run_queue_def Let_def split: option.split)
  then show ?thesis by (simp add: same_but_queues_def run_queue_append_locked_def)
qed

lemma run_queue_left_same: "same_but_queues k (run_queue_left c t (list_detach (run_queue c) p t k))"
proof -
  have "th_process (k_threads (list_detach (run_queue c) p t k) u) = th_process (k_threads k u)" for u
    by (auto simp: list_detach_def run_queue_def Let_def split: option.split)
  then show ?thesis by (simp add: same_but_queues_def run_queue_left_def)
qed

lemma not_queued: "rq_inv k Q \<Longrightarrow> th_run_queue_cpu (k_threads k t) = None \<longleftrightarrow> (\<forall>c. t \<notin> set (Q c))"
  unfolding rq_inv_def by (metis not_None_eq)

lemma run_queue_append_inv:
  assumes inv: "rq_inv k Q" and free: "th_run_queue_cpu (k_threads k t) = None" and "t \<noteq> 0"
  shows "rq_inv (run_queue_append_locked c t k) (Q(c := Q c @ [t]))"
proof -
  have notin: "t \<notin> set (Q d)" for d using not_queued [OF inv] free by simp
  have "lists_view run_queue (list_append (run_queue c) t k) (Q(c := Q c @ [t]))"
    using inv notin by (intro rq.append_views) (simp_all add: rq_inv_def)
  then have "lists_view run_queue (run_queue_append_locked c t k) (Q(c := Q c @ [t]))"
    by (rule lists_view_frame) (auto simp: run_queue_append_locked_def free)
  then show ?thesis
    using inv notin assms(3) free by (auto simp: rq_inv_def run_queue_append_locked_def)
qed

lemma append_ready_eq:
  "th_run_queue_cpu (k_threads k t) = None \<Longrightarrow> append_ready_thread_locked c t k = run_queue_append_locked c t k"
  by (simp add: append_ready_thread_locked_def run_queue_append_locked_def)

lemma run_queue_detach_inv:
  assumes inv: "rq_inv k Q" and q: "Q c = as @ t # bs"
  shows "rq_inv (run_queue_left c t (list_detach (run_queue c) (last_opt as) t k)) (Q(c := as @ bs))"
proof -
  let ?k = "list_detach (run_queue c) (last_opt as) t k"
  have v: "lists_view run_queue ?k (Q(c := as @ bs))"
    using inv q by (intro rq.detach_views) (simp_all add: rq_inv_def)
  then have "lists_view run_queue (run_queue_left c t ?k) (Q(c := as @ bs))"
    by (rule lists_view_frame) (auto simp: run_queue_left_def)
  moreover have "cpu_runq_length (k_cpus (run_queue_left c t ?k) d) = of_nat (length ((Q(c := as @ bs)) d)) \<and>
      0 \<notin> set ((Q(c := as @ bs)) d)" for d
  proof -
    have L: "cpu_runq_length (k_cpus k c) \<noteq> 0" using queue_empty_iff [OF inv, of c] q by simp
    have "cpu_runq_length (k_cpus k c) = of_nat (length (as @ bs)) + 1" using inv q by (simp add: rq_inv_def)
    then have L1: "cpu_runq_length (k_cpus k c) - 1 = of_nat (length (as @ bs))" by simp
    have "0 \<notin> set (Q c)" "cpu_runq_length (k_cpus k d) = of_nat (length (Q d))" "0 \<notin> set (Q d)"
      using inv by (simp_all add: rq_inv_def)
    then show ?thesis using q by (simp add: run_queue_left_def L L1 del: length_append)
  qed
  moreover have "th_run_queue_cpu (k_threads (run_queue_left c t ?k) u) = Some d \<longleftrightarrow> u \<in> set ((Q(c := as @ bs)) d)" for u d
  proof -
    have "distinct (as @ t # bs)"
      using inv q unfolding rq_inv_def by (metis lists_viewD(1) list_view_distinct)
    moreover have "t \<notin> set (Q d)" if "d \<noteq> c"
      using inv q lists_viewD(2) [of run_queue k Q d c] that by (auto simp: rq_inv_def)
    moreover have "th_run_queue_cpu (k_threads k u) = Some d \<longleftrightarrow> u \<in> set (Q d)" using inv by (simp add: rq_inv_def)
    ultimately show ?thesis using q by (auto simp: run_queue_left_def)
  qed
  ultimately show ?thesis by (simp add: rq_inv_def)
qed

lemma run_queue_remove_inv:
  assumes inv: "rq_inv k Q"
  obtains k' where "run_queue_remove_locked c t k = Some k'" and "rq_inv k' (Q(c := remove1 t (Q c)))" and "same_but_queues k k'"
proof -
  have v: "list_view (run_queue c) k (Q c)" using inv by (simp add: rq_inv_def lists_view_def)
  show ?thesis
  proof (cases "t \<in> set (Q c)")
    case True
    then obtain as bs where q: "Q c = as @ t # bs" "t \<notin> set as" by (meson split_list_first)
    have "find_from (lo_next (run_queue c) k) (\<lambda>x. x = t) None (lo_head (run_queue c) k) = Some (last_opt as, Some t)"
      using v q by (subst find_from_hit [of _ _ as t bs]) (auto simp: list_view_def)
    then have "run_queue_remove_locked c t k = Some (run_queue_left c t (list_detach (run_queue c) (last_opt as) t k))"
      by (simp add: run_queue_remove_locked_def list_remove_def)
    then show ?thesis
      using that run_queue_detach_inv [OF inv q(1)] run_queue_left_same q by (simp add: remove1_append)
  next
    case False
    have "find_from (lo_next (run_queue c) k) (\<lambda>x. x = t) None (lo_head (run_queue c) k) = Some (last_opt (Q c), None)"
      using v False by (subst find_from_miss [of _ _ "Q c"]) (auto simp: list_view_def)
    then show ?thesis
      using that [of k] False inv by (simp add: run_queue_remove_locked_def list_remove_def remove1_idem)
  qed
qed

lemma dequeue_if_queued_inv:
  assumes inv: "rq_inv k Q"
  obtains k' where "dequeue_thread_if_queued t k = Some k'" and "rq_inv k' (\<lambda>c. remove1 t (Q c))" and "same_but_queues k k'"
proof (cases "th_run_queue_cpu (k_threads k t)")
  case None
  then have "(\<lambda>c. remove1 t (Q c)) = Q" using not_queued [OF inv] by (auto simp: remove1_idem)
  then show ?thesis using that [of k] None inv by (simp add: dequeue_thread_if_queued_def)
next
  case (Some c)
  have "t \<notin> set (Q d)" if "d \<noteq> c" for d
    using inv Some that unfolding rq_inv_def by (metis option.inject)
  then have "(\<lambda>c. remove1 t (Q c)) = Q(c := remove1 t (Q c))" by (auto simp: fun_eq_iff remove1_idem)
  then show ?thesis
    using that run_queue_remove_inv [OF inv, of c t] Some by (simp add: dequeue_thread_if_queued_def) metis
qed

lemma dequeue_ready_empty:
  "rq_inv k Q \<Longrightarrow> Q c = [] \<Longrightarrow> dequeue_ready_thread c k = (None, k)"
  by (auto simp: rq_inv_def lists_view_def list_view_def dequeue_ready_thread_def run_queue_def
      dest!: spec [of _ c] split: option.split)

lemma dequeue_ready_inv:
  assumes inv: "rq_inv k Q" and q: "Q c = t # ts"
  obtains k' where "dequeue_ready_thread c k = (Some t, k')" and "rq_inv k' (Q(c := ts))" and "same_but_queues k k'"
proof -
  have v: "list_view (run_queue c) k (t # ts)" using inv q unfolding rq_inv_def lists_view_def by metis
  have h: "cpu_runq_head (k_cpus k c) = Some t" and n: "th_next (k_threads k t) = None \<longleftrightarrow> ts = []"
    and tl: "cpu_runq_tail (k_cpus k c) = last_opt (t # ts)"
    using v by (cases ts; simp add: list_view_def run_queue_def)+
  have "cpu_runq_tail (k_cpus k c) = Some t \<longleftrightarrow> ts = []"
    using list_view_distinct [OF v] tl by (auto simp: last_opt_def)
  then have "upd_thread t (\<lambda>x. x\<lparr>th_next := None\<rparr>) (upd_cpu c (\<lambda>x. x\<lparr>cpu_runq_head := th_next (k_threads k t),
      cpu_runq_tail := (if th_next (k_threads k t) = None then None else cpu_runq_tail x)\<rparr>) k) =
    list_detach (run_queue c) None t k"
    using n by (simp add: list_detach_def run_queue_def Let_def upd_cpu_def upd_thread_def)
  then have "dequeue_ready_thread c k = (Some t, run_queue_left c t (list_detach (run_queue c) None t k))"
    by (simp add: dequeue_ready_thread_def h Let_def)
  then show ?thesis
    using that run_queue_detach_inv [OF inv, of c "[]" t ts] run_queue_left_same [of k c t None] q by simp
qed

end
