(* ===== verification/Cpu_Selection.thy ===== *)
theory Cpu_Selection
  imports Thread_Queues Virtual_Memory_Props
begin

text \<open>
  Choosing a CPU. The CPUs form a ring that starts at the boot CPU; the loops of
  \<^verbatim>\<open>next_schedulable_cpu_after\<close> and \<^verbatim>\<open>select_least_loaded_cpu\<close> go around it. Both return, and the
  second returns a CPU whose run queue is the shortest.
\<close>

definition ring_inv :: "kernel \<Rightarrow> cpu_ref list \<Rightarrow> bool" where
  "ring_inv k cs \<longleftrightarrow> chain (\<lambda>c. cpu_next (k_cpus k c)) (g_cpu_boot k) cs \<and> cs \<noteq> [] \<and> k_cpu_cur k \<in> set cs"

lemma ring_inv_cong: "ring_part k' = ring_part k \<Longrightarrow> ring_inv k' cs = ring_inv k cs"
  by (simp add: ring_inv_def ring_part_def)

lemma ring_inv_frame: "ring_inv k cs \<Longrightarrow> ring_part k' = ring_part k \<Longrightarrow> ring_inv k' cs"
  by (rule iffD2 [OF ring_inv_cong])

lemma schedulable_cong: "ring_part k' = ring_part k \<Longrightarrow> cpu_is_schedulable k' c = cpu_is_schedulable k c"
  by (simp add: cpu_is_schedulable_def ring_part_def fun_eq_iff)

lemma boot_head: "ring_inv k cs \<Longrightarrow> g_cpu_boot k = Some (hd cs)"
  by (cases cs) (auto simp: ring_inv_def)

lemma boot_schedulable: "ring_inv k cs \<Longrightarrow> cpu_is_schedulable k (hd cs)"
  by (simp add: cpu_is_schedulable_def boot_head)

lemma ring_distinct: "ring_inv k cs \<Longrightarrow> distinct cs"
  by (auto simp: ring_inv_def dest: chain_distinct)

lemma chain_next: "chain nxt p (as @ c # bs) \<Longrightarrow> nxt c = (case bs of [] \<Rightarrow> None | b # _ \<Rightarrow> Some b)"
  by (induction as arbitrary: p) (auto split: list.split)

lemma ring_next:
  assumes "ring_inv k cs" and "cs = as @ c # bs"
  shows "cpu_ring_next k c = Some (hd (bs @ [hd cs]))"
  using chain_next [of "\<lambda>c. cpu_next (k_cpus k c)" "g_cpu_boot k" as c bs] assms boot_head [OF assms(1)]
  by (auto simp: ring_inv_def cpu_ring_next_def split: list.split)

text \<open>The search ends at the boot CPU at the latest.\<close>

lemma next_schedulable_loop_run:
  assumes ring: "ring_inv k cs" and "start \<notin> set bs"
  shows "cs = as @ c # bs \<Longrightarrow> start = hd cs \<longrightarrow> cpu_is_schedulable k c \<Longrightarrow>
    next_schedulable_loop k start c = Some (hd (filter (cpu_is_schedulable k) (c # bs) @ [hd cs]))"
  using assms(2)
proof (induction bs arbitrary: as c)
  case Nil
  have "next_schedulable_loop k start (hd cs) = Some (hd cs)"
    using boot_schedulable [OF ring] by (subst next_schedulable_loop.simps) simp
  then show ?case
    using ring_next [OF ring, of as c "[]"] Nil by (subst next_schedulable_loop.simps) auto
next
  case (Cons b bs)
  have "next_schedulable_loop k start b = Some (hd (filter (cpu_is_schedulable k) (b # bs) @ [hd cs]))"
    if "\<not> cpu_is_schedulable k c"
    using Cons.IH [of "as @ [c]" b] Cons.prems that by auto
  then show ?case
    using ring_next [OF ring Cons.prems(1)] Cons.prems(3)
    by (subst next_schedulable_loop.simps) auto
qed

lemma next_schedulable_run:
  assumes ring: "ring_inv k cs" and cs: "cs = as @ c # bs"
  shows "next_schedulable_cpu_after k (Some c) = Some (hd (filter (cpu_is_schedulable k) bs @ [hd cs]))"
proof (cases bs)
  case Nil
  then show ?thesis
    using ring_next [OF ring cs] boot_schedulable [OF ring]
    by (simp add: next_schedulable_cpu_after_def next_schedulable_loop.simps)
next
  case (Cons b bs')
  then have "b \<notin> set bs'" "b \<noteq> hd cs" using ring_distinct [OF ring] cs by (cases as; auto)+
  then show ?thesis
    using next_schedulable_loop_run [OF ring, of b bs' "as @ [c]" b] ring_next [OF ring cs] cs Cons
    by (simp add: next_schedulable_cpu_after_def)
qed

lemma next_schedulable_none:
  "ring_inv k cs \<Longrightarrow> next_schedulable_cpu_after k None = Some (hd cs)"
  using boot_schedulable [of k cs] boot_head [of k cs]
  by (simp add: next_schedulable_cpu_after_def next_schedulable_loop.simps)

definition schedulable_cpus :: "kernel \<Rightarrow> cpu_ref list \<Rightarrow> cpu_ref list" where
  "schedulable_cpus k cs = filter (cpu_is_schedulable k) cs"

lemma next_schedulable_in:
  assumes ring: "ring_inv k cs" and a: "after = None \<or> (\<exists>c \<in> set cs. after = Some c)"
  shows "\<exists>b \<in> set (schedulable_cpus k cs). next_schedulable_cpu_after k after = Some b"
proof (cases after)
  case None
  then show ?thesis
    using next_schedulable_none [OF ring] boot_schedulable [OF ring] ring by (auto simp: schedulable_cpus_def ring_inv_def)
next
  case (Some c)
  then obtain as bs where cs: "cs = as @ c # bs" using a by (auto dest: split_list)
  have "hd (filter (cpu_is_schedulable k) bs @ [hd cs]) \<in> set (filter (cpu_is_schedulable k) bs @ [hd cs])"
    by (rule hd_in_set) simp
  moreover have "hd cs \<in> set cs" using cs by (intro hd_in_set) simp
  ultimately show ?thesis
    using next_schedulable_run [OF ring cs] boot_schedulable [OF ring] Some cs by (auto simp: schedulable_cpus_def)
qed

text \<open>On the ring of schedulable CPUs, from whichever of them it is read, the next one follows.\<close>

lemma next_schedulable_rotate:
  assumes ring: "ring_inv k cs" and rot: "schedulable_cpus k cs = xs @ c # ys"
  shows "next_schedulable_cpu_after k (Some c) = Some (hd (ys @ xs @ [c]))"
proof -
  have "c \<in> set (schedulable_cpus k cs)" using rot by simp
  then have "c \<in> set cs" and sc: "cpu_is_schedulable k c" by (simp_all add: schedulable_cpus_def)
  then obtain as bs where cs: "cs = as @ c # bs" by (auto dest: split_list)
  have "filter (cpu_is_schedulable k) as @ c # filter (cpu_is_schedulable k) bs = xs @ c # ys"
    using rot cs sc by (simp add: schedulable_cpus_def)
  moreover have "c \<notin> set as" "c \<notin> set bs" using ring_distinct [OF ring] cs by auto
  ultimately have split: "filter (cpu_is_schedulable k) as = xs" "filter (cpu_is_schedulable k) bs = ys"
    by (auto dest!: append_Cons_eq_iff [THEN iffD1, rotated -1])
  have "hd cs = hd (xs @ [c])"
    using boot_schedulable [OF ring] cs split by (cases as) auto
  then show ?thesis using next_schedulable_run [OF ring cs] split by (cases ys) auto
qed

lemma least_loaded_loop_min:
  assumes ring: "ring_inv k cs"
  shows "rotate n (schedulable_cpus k cs) = best # xs @ ys \<Longrightarrow>
    (\<forall>x \<in> set xs. cpu_runq_length (k_cpus k best) \<le> cpu_runq_length (k_cpus k x)) \<Longrightarrow>
    \<exists>b \<in> set (schedulable_cpus k cs). least_loaded_loop k (hd (ys @ [best])) best (cpu_runq_length (k_cpus k best)) = Some b \<and>
      (\<forall>x \<in> set (schedulable_cpus k cs). cpu_runq_length (k_cpus k b) \<le> cpu_runq_length (k_cpus k x))"
proof (induction "unat (cpu_runq_length (k_cpus k best))" arbitrary: n best xs ys rule: less_induct)
  case (less best)
  let ?L = "\<lambda>c. cpu_runq_length (k_cpus k c)" and ?ss = "schedulable_cpus k cs"
  have nxt: "next_schedulable_cpu_after k (Some c) = Some (hd (zs @ [c]))" if rot: "rotate m ?ss = c # zs" for m c zs
  proof -
    let ?m = "m mod length ?ss"
    have "?m < length ?ss" using rot by (cases ?ss) auto
    then obtain ys where "drop ?m ?ss = c # ys" "zs = ys @ take ?m ?ss"
      using rot by (cases "drop ?m ?ss") (auto simp: rotate_drop_take)
    moreover have "?ss = take ?m ?ss @ drop ?m ?ss" by simp
    ultimately show ?thesis using next_schedulable_rotate [OF ring] by (metis append_assoc)
  qed
  show ?case using less.prems
  proof (induction ys arbitrary: xs)
    case Nil
    then have "set ?ss = insert best (set xs)" by (metis append_Nil2 list.simps(15) set_rotate)
    then show ?case using Nil by (subst least_loaded_loop.simps) auto
  next
    case (Cons y ys)
    have "distinct (best # xs @ y # ys)"
      using ring_distinct [OF ring] Cons.prems(1) by (metis distinct_filter distinct_rotate schedulable_cpus_def)
    then have ne: "y \<noteq> best" by auto
    have "rotate (n + length (best # xs)) ?ss = rotate (length (best # xs)) (rotate n ?ss)"
      by (simp add: rotate_rotate add.commute)
    then have ry: "rotate (n + length (best # xs)) ?ss = y # ys @ best # xs"
      unfolding Cons.prems(1) by (metis append_Cons append_assoc rotate_append)
    have y: "next_schedulable_cpu_after k (Some y) = Some (hd (ys @ [best]))" using nxt [OF ry] by (cases ys) auto
    show ?case
    proof (cases "?L y < ?L best")
      case True
      then have u: "unat (?L y) < unat (?L best)" by (simp add: word_less_nat_alt)
      show ?thesis
      proof (cases "?L y = 0")
        case True
        have "y \<in> set ?ss" using ry by (metis list.set_intros(1) set_rotate)
        then show ?thesis using ne \<open>?L y < ?L best\<close> True
          by (subst least_loaded_loop.simps) (auto simp: cpu_run_queue_length_locked_def Let_def)
      next
        case False
        have "hd ((ys @ best # xs) @ [y]) = hd (ys @ [best])" by (cases ys) auto
        then show ?thesis
          using less.hyps [OF u, of "n + length (best # xs)" "[]" "ys @ best # xs"] ry ne y True False
          by (subst least_loaded_loop.simps) (auto simp: cpu_run_queue_length_locked_def Let_def)
      qed
    next
      case False
      then have "\<forall>x \<in> set (xs @ [y]). ?L best \<le> ?L x" using Cons.prems(2) by auto
      then show ?thesis
        using Cons.IH [of "xs @ [y]"] Cons.prems(1) ne y False
        by (subst least_loaded_loop.simps) (auto simp: cpu_run_queue_length_locked_def Let_def)
    qed
  qed
qed

lemma select_least_loaded_spec:
  assumes ring: "ring_inv k cs" and a: "after = None \<or> (\<exists>c \<in> set cs. after = Some c)"
  shows "\<exists>b \<in> set (schedulable_cpus k cs). select_least_loaded_cpu k after = Some b \<and>
    (\<forall>c \<in> set (schedulable_cpus k cs). cpu_runq_length (k_cpus k b) \<le> cpu_runq_length (k_cpus k c))"
proof -
  obtain b where b: "b \<in> set (schedulable_cpus k cs)" "next_schedulable_cpu_after k after = Some b"
    using next_schedulable_in [OF assms] by blast
  then obtain xs ys where ss: "schedulable_cpus k cs = xs @ b # ys" by (auto dest: split_list)
  then have "rotate (length xs) (schedulable_cpus k cs) = b # [] @ (ys @ xs)" by (simp add: rotate_append)
  then show ?thesis
    using b next_schedulable_rotate [OF ring ss] least_loaded_loop_min [OF ring, of "length xs" b "[]" "ys @ xs"]
    by (auto simp: select_least_loaded_cpu_def cpu_run_queue_length_locked_def Let_def)
qed

text \<open>
  C15. Choosing the CPU for a user thread ends, whatever CPU was chosen last: the search goes around
  the ring of CPUs a bounded number of times and returns a schedulable CPU whose run queue is a
  shortest one.
\<close>

theorem select_least_loaded_cpu_shortest:
  assumes "chain (\<lambda>c. cpu_next (k_cpus k c)) (g_cpu_boot k) cs" and "cs \<noteq> []" and "k_cpu_cur k \<in> set cs"
    and "after = None \<or> after \<in> Some ` set cs"
  shows "\<exists>b \<in> set cs. select_least_loaded_cpu k after = Some b \<and> cpu_is_schedulable k b \<and>
    (\<forall>c \<in> set cs. cpu_is_schedulable k c \<longrightarrow> cpu_runq_length (k_cpus k b) \<le> cpu_runq_length (k_cpus k c))"
  using select_least_loaded_spec [of k cs after] assms by (auto simp: ring_inv_def schedulable_cpus_def)

text \<open>
  A kernel with two CPUs. The boot CPU runs thread \<open>0x7000\<close> with thread \<open>0x7100\<close> queued behind it; the
  other CPU is idle. All threads belong to one process.
\<close>

definition zero_cpu :: cpu where
  "zero_cpu = \<lparr>cpu_current_thread = None, cpu_tss_rsp0 = 0, cpu_idle_thread = None, cpu_runq_head = None,
     cpu_runq_tail = None, cpu_runq_length = 0, cpu_last_recorded_runq_depth = NOT 0, cpu_timer_ticks = 0,
     cpu_reschedule_pending = 0, cpu_enqueue_count = 0, cpu_dequeue_count = 0, cpu_idle_ticks = 0, cpu_migrate_in = 0,
     cpu_migrate_out = 0, cpu_balance_idle_ticks = 0, cpu_next = None, cpu_id = 0, cpu_booted = 0\<rparr>"

definition demo_thread :: "thread_state \<Rightarrow> thread" where
  "demo_thread st = zero_thread\<lparr>th_tid := 1, th_process := Some 0x500, th_state := st, th_affinity_mask := NOT 0\<rparr>"

definition two_cpus :: kernel where
  "two_cpus = \<lparr>
     k_threads = (\<lambda>_. zero_thread)(0x7000 := (demo_thread Thread_Running)\<lparr>th_registry_next := Some 0x7100\<rparr>,
       0x7100 := (demo_thread Thread_Ready)\<lparr>th_run_queue_cpu := Some 0x1000, th_registry_next := Some 0x7200\<rparr>,
       0x7200 := (demo_thread Thread_Ready)\<lparr>th_registry_next := Some 0x7300\<rparr>,
       0x7300 := demo_thread Thread_Running),
     k_processes = (\<lambda>_. zero_process)(0x500 := zero_process\<lparr>pr_pid := 1, pr_state := Process_Running\<rparr>),
     k_cpus = (\<lambda>_. zero_cpu)(0x1000 := zero_cpu\<lparr>cpu_current_thread := Some 0x7000, cpu_idle_thread := Some 0x7200,
         cpu_runq_head := Some 0x7100, cpu_runq_tail := Some 0x7100, cpu_runq_length := 1, cpu_next := Some 0x2000\<rparr>,
       0x2000 := zero_cpu\<lparr>cpu_current_thread := Some 0x7300, cpu_idle_thread := Some 0x7300, cpu_id := 1, cpu_booted := 1\<rparr>),
     k_completion_head = (\<lambda>_. None), k_completion_done = (\<lambda>_. False), k_console_read_head = None,
     k_cpu_cur = 0x1000, g_cpu_boot = Some 0x1000, g_next_tid = 5, g_thread_cache = True, g_thread_head = Some 0x7000,
     g_thread_tail = Some 0x7300, g_last_kernel_thread_cpu = None, g_last_user_thread_cpu = None, g_next_pid = 2,
     g_kernel_process = Some 0x500, g_process_cache = True, g_process_head = Some 0x500, g_process_tail = Some 0x500,
     g_smp_balancer_enabled = True, k_frames = one_page_frames, k_mem = one_page_mem, k_shootdowns = 0,
     k_ring = er_reset \<lparr>er_records = [], er_next_sequence = 0, er_head = 0, er_count = 0\<rparr>, g_timer_ticks = 0,
     k_lapic = True, k_icr_log = [], g_reschedule_vector = 0x50, g_reschedule_vector_initialized = True,
     k_direct_map_base = 0xFFFF800000000000, k_kernel_thread_start = 0xFFFFFFFF80001000\<rparr>"

lemma two_cpus_ring: "chain (\<lambda>c. cpu_next (k_cpus two_cpus c)) (g_cpu_boot two_cpus) [0x1000, 0x2000]"
  by (simp add: two_cpus_def zero_cpu_def)

theorem select_least_loaded_cpu_shortest_witness:
  "select_least_loaded_cpu two_cpus (Some 0x2000) = Some 0x2000"
proof -
  have L: "cpu_runq_length (k_cpus two_cpus 0x1000) = 1" "cpu_runq_length (k_cpus two_cpus 0x2000) = 0"
    by (simp_all add: two_cpus_def zero_cpu_def)
  have "cpu_is_schedulable two_cpus 0x2000" by (simp add: cpu_is_schedulable_def two_cpus_def zero_cpu_def)
  moreover have "k_cpu_cur two_cpus \<in> set [0x1000, 0x2000]" by (simp add: two_cpus_def)
  ultimately show ?thesis
    using select_least_loaded_cpu_shortest [of two_cpus "[0x1000, 0x2000]" "Some 0x2000"] two_cpus_ring L by auto
qed

end
