(* ===== verification/Kernel_Inv.thy ===== *)
theory Kernel_Inv
  imports Cpu_Selection
begin

text \<open>
  The invariant of the kernel's thread structures and the operations that keep it: the registries,
  the CPU ring, the run queues and the wait queues are finite lists, a queued thread is ready, a
  waiting thread is blocked and waits in one queue only.
\<close>

section \<open>The invariant\<close>

text \<open>
  The wait queues, and lists of waiting threads that an operation has taken out of a queue and holds
  in local variables: list \<open>Inr i\<close> starts at the pointer \<open>h i\<close>.
\<close>

type_synonym wait_lists = "wait_queue + nat \<Rightarrow> thread_ref list"

definition wl_head :: "(nat \<Rightarrow> thread_ref option) \<Rightarrow> kernel \<Rightarrow> wait_queue + nat \<Rightarrow> thread_ref option" where
  "wl_head h k i = (case i of Inl q \<Rightarrow> wq_head q k | Inr n \<Rightarrow> h n)"

lemma wl_head_simps [simp]: "wl_head h k (Inl q) = wq_head q k" "wl_head h k (Inr n) = h n"
  by (simp_all add: wl_head_def)

definition wq_inv :: "kernel \<Rightarrow> (nat \<Rightarrow> thread_ref option) \<Rightarrow> wait_lists \<Rightarrow> bool" where
  "wq_inv k h W \<longleftrightarrow> (\<forall>i. chain (\<lambda>t. th_wait_link (k_threads k t)) (wl_head h k i) (W i)) \<and>
     (\<forall>i j. i \<noteq> j \<longrightarrow> set (W i) \<inter> set (W j) = {})"

definition cpu_known :: "cpu_ref list \<Rightarrow> cpu_ref option \<Rightarrow> bool" where
  "cpu_known cs c \<longleftrightarrow> c = None \<or> c \<in> Some ` set cs"

record views =
  v_threads :: "thread_ref list"
  v_processes :: "process_ref list"
  v_cpus :: "cpu_ref list"
  v_runq :: "cpu_ref \<Rightarrow> thread_ref list"
  v_wait :: wait_lists

definition kernel_inv :: "kernel \<Rightarrow> (nat \<Rightarrow> thread_ref option) \<Rightarrow> views \<Rightarrow> bool" where
  "kernel_inv k h v \<longleftrightarrow>
     list_view thread_registry k (v_threads v) \<and> list_view process_registry k (v_processes v) \<and>
     ring_inv k (v_cpus v) \<and> cpu_known (v_cpus v) (g_last_user_thread_cpu k) \<and>
     rq_inv k (v_runq v) \<and> wq_inv k h (v_wait v) \<and> 0 \<notin> set (v_threads v) \<and>
     (\<forall>c. \<forall>t \<in> set (v_runq v c). t \<in> set (v_threads v) \<and> th_state (k_threads k t) = Thread_Ready) \<and>
     (\<forall>i. \<forall>t \<in> set (v_wait v i). t \<in> set (v_threads v) \<and> th_state (k_threads k t) = Thread_Blocked) \<and>
     (\<forall>p. \<forall>t \<in> set (v_wait v (Inl (ChildExitQueue p))). th_process (k_threads k t) = Some p) \<and>
     (\<forall>c t. cpu_idle_thread (k_cpus k c) = Some t \<longrightarrow> (\<forall>d. t \<notin> set (v_runq v d)) \<and> (\<forall>i. t \<notin> set (v_wait v i)))"

lemma kernel_invD:
  assumes "kernel_inv k h v"
  shows "list_view thread_registry k (v_threads v)" "list_view process_registry k (v_processes v)"
    "ring_inv k (v_cpus v)" "cpu_known (v_cpus v) (g_last_user_thread_cpu k)" "rq_inv k (v_runq v)" "wq_inv k h (v_wait v)"
    "0 \<notin> set (v_threads v)"
    "t \<in> set (v_runq v c) \<Longrightarrow> t \<in> set (v_threads v)" "t \<in> set (v_runq v c) \<Longrightarrow> th_state (k_threads k t) = Thread_Ready"
    "t \<in> set (v_wait v i) \<Longrightarrow> t \<in> set (v_threads v)" "t \<in> set (v_wait v i) \<Longrightarrow> th_state (k_threads k t) = Thread_Blocked"
    "t \<in> set (v_wait v (Inl (ChildExitQueue p))) \<Longrightarrow> th_process (k_threads k t) = Some p"
    "cpu_idle_thread (k_cpus k c) = Some t \<Longrightarrow> t \<notin> set (v_runq v d)"
    "cpu_idle_thread (k_cpus k c) = Some t \<Longrightarrow> t \<notin> set (v_wait v i)"
  using assms by (auto simp: kernel_inv_def)

section \<open>Congruence\<close>

lemma registry_cong: "reg_part k' = reg_part k \<Longrightarrow> list_view thread_registry k' ts = list_view thread_registry k ts"
  by (intro list_view_cong) (auto simp: reg_part_def thread_registry_def fun_eq_iff)

lemma processes_cong: "preg_part k' = preg_part k \<Longrightarrow> list_view process_registry k' ps = list_view process_registry k ps"
  by (intro list_view_cong) (auto simp: preg_part_def process_registry_def fun_eq_iff)

lemma wq_inv_cong: "wq_part k' = wq_part k \<Longrightarrow> wq_inv k' h W = wq_inv k h W"
proof -
  assume "wq_part k' = wq_part k"
  then have "(\<lambda>t. th_wait_link (k_threads k' t)) = (\<lambda>t. th_wait_link (k_threads k t))" "wq_head q k' = wq_head q k" for q
    by (simp_all add: wq_part_def fun_eq_iff)
  then have "(\<lambda>t. th_wait_link (k_threads k' t)) = (\<lambda>t. th_wait_link (k_threads k t))" "wl_head h k' = wl_head h k"
    by (auto simp: wl_head_def fun_eq_iff split: sum.split)
  then show ?thesis by (simp only: wq_inv_def)
qed

text \<open>Everything the invariant reads, apart from the states of the threads.\<close>

definition same_links :: "kernel \<Rightarrow> kernel \<Rightarrow> bool" where
  "same_links k k' \<longleftrightarrow> reg_part k' = reg_part k \<and> preg_part k' = preg_part k \<and> ring_part k' = ring_part k \<and>
     rq_part k' = rq_part k \<and> wq_part k' = wq_part k \<and> g_last_user_thread_cpu k' = g_last_user_thread_cpu k \<and>
     (\<forall>c. cpu_idle_thread (k_cpus k' c) = cpu_idle_thread (k_cpus k c)) \<and>
     (\<forall>t. th_process (k_threads k' t) = th_process (k_threads k t))"

text \<open>A state change is allowed for a thread that neither waits nor is queued, or into the state its list asks for.\<close>

lemma kernel_inv_links:
  assumes inv: "kernel_inv k h v" and same: "same_links k k'"
    and q: "\<And>c t. t \<in> set (v_runq v c) \<Longrightarrow> th_state (k_threads k' t) = Thread_Ready"
    and w: "\<And>i t. t \<in> set (v_wait v i) \<Longrightarrow> th_state (k_threads k' t) = Thread_Blocked"
  shows "kernel_inv k' h v"
proof -
  have "list_view thread_registry k' (v_threads v)" "list_view process_registry k' (v_processes v)"
    "ring_inv k' (v_cpus v)" "rq_inv k' (v_runq v)" "wq_inv k' h (v_wait v)"
    using inv same registry_cong [of k' k] processes_cong [of k' k] ring_inv_cong [of k' k] rq_inv_cong [of k' k] wq_inv_cong [of k' k]
    by (auto simp: kernel_inv_def same_links_def)
  then show ?thesis
    using inv same q w unfolding kernel_inv_def same_links_def by simp
qed

lemma kernel_inv_same:
  assumes "kernel_inv k h v" and "same_links k k'" and "\<And>t. th_state (k_threads k' t) = th_state (k_threads k t)"
  shows "kernel_inv k' h v"
  using assms(1,2) by (rule kernel_inv_links) (auto simp: assms(3) dest: kernel_invD(9,11) [OF assms(1)])

lemma waiting_not_queued: "kernel_inv k h v \<Longrightarrow> t \<in> set (v_wait v i) \<Longrightarrow> t \<notin> set (v_runq v c)"
  using kernel_invD(9,11) by fastforce

lemma g_last_frame [simp]:
  "g_last_user_thread_cpu (upd_thread t f k) = g_last_user_thread_cpu k" "g_last_user_thread_cpu (upd_cpu c i k) = g_last_user_thread_cpu k"
  "g_last_user_thread_cpu (upd_process p j k) = g_last_user_thread_cpu k"
  "g_last_user_thread_cpu (set_process_state t ps k) = g_last_user_thread_cpu k"
  "g_last_user_thread_cpu (kernel_record a b d e l m k) = g_last_user_thread_cpu k"
  "g_last_user_thread_cpu (snd (ipi_send_reschedule c k)) = g_last_user_thread_cpu k"
  by (auto simp: upd_thread_def upd_cpu_def upd_process_def set_process_state_def kernel_record_def
      ipi_send_reschedule_def ipi_send_def Let_def split: option.split)

lemma only_state_links:
  "same_links k (set_process_state t ps (upd_thread t (\<lambda>x. x\<lparr>th_state := st\<rparr>) k))"
  "same_links k (upd_thread t (\<lambda>x. x\<lparr>th_state := st\<rparr>) k)"
  "same_links k (set_process_state t ps k)"
  "same_links k (clear_thread_wait t k)"
  "same_links k (kernel_record a b d e f g k)"
  by (simp_all add: same_links_def clear_thread_wait_def)

lemma same_links_trans: "same_links k k' \<Longrightarrow> same_links k' k'' \<Longrightarrow> same_links k k''"
  by (simp add: same_links_def)

section \<open>Making a thread ready\<close>

text \<open>What waking and reaping leave alone: who runs where, who is dying, who is free, who belongs to whom, which completions are done.\<close>

definition steady :: "kernel \<Rightarrow> kernel \<Rightarrow> bool" where
  "steady k k' \<longleftrightarrow> ring_part k' = ring_part k \<and> run_part k' = run_part k \<and> k_completion_done k' = k_completion_done k \<and>
     (\<forall>t. th_process (k_threads k' t) = th_process (k_threads k t) \<and>
        (th_state (k_threads k' t) = Thread_Dying \<longleftrightarrow> th_state (k_threads k t) = Thread_Dying) \<and>
        (th_state (k_threads k' t) = Thread_Free \<longleftrightarrow> th_state (k_threads k t) = Thread_Free))"

text \<open>And only blocked threads change state.\<close>

definition keeps :: "kernel \<Rightarrow> kernel \<Rightarrow> bool" where
  "keeps k k' \<longleftrightarrow> steady k k' \<and> (\<forall>t. th_state (k_threads k t) \<noteq> Thread_Blocked \<longrightarrow> th_state (k_threads k' t) = th_state (k_threads k t))"

lemmas keeps_defs = keeps_def steady_def

lemma steady_refl [simp]: "steady k k"
  by (simp add: steady_def)

lemma steady_trans: "steady k k' \<Longrightarrow> steady k' k'' \<Longrightarrow> steady k k''"
  by (simp add: steady_def)

lemma keeps_refl [simp]: "keeps k k"
  by (simp add: keeps_defs)

lemma keeps_trans [trans]: "keeps k k' \<Longrightarrow> keeps k' k'' \<Longrightarrow> keeps k k''"
  by (simp add: keeps_defs)

lemma same_but_queues_keeps: "same_but_queues k k' \<Longrightarrow> k_completion_done k' = k_completion_done k \<Longrightarrow> keeps k k'"
  by (simp add: same_but_queues_def keeps_defs)

text \<open>A thread made ready: its state changes, the states and waits of the others do not.\<close>

definition readied :: "thread_ref \<Rightarrow> kernel \<Rightarrow> kernel \<Rightarrow> bool" where
  "readied t k k' \<longleftrightarrow> (\<forall>u. u \<noteq> t \<longrightarrow> th_state (k_threads k' u) = th_state (k_threads k u)) \<and>
     (\<forall>u. th_wait (k_threads k' u) = th_wait (k_threads k u)) \<and>
     (th_state (k_threads k t) \<notin> {Thread_Dying, Thread_Free} \<longrightarrow> th_state (k_threads k' t) = Thread_Ready)"

lemma done_frame [simp]:
  "k_completion_done (upd_thread t f k) = k_completion_done k" "k_completion_done (upd_cpu c i k) = k_completion_done k"
  "k_completion_done (upd_process p j k) = k_completion_done k"
  "k_completion_done (set_process_state t ps k) = k_completion_done k"
  "k_completion_done (kernel_record a b d e l m k) = k_completion_done k"
  "k_completion_done (snd (ipi_send_reschedule c k)) = k_completion_done k"
  by (auto simp: upd_thread_def upd_cpu_def upd_process_def set_process_state_def kernel_record_def
      ipi_send_reschedule_def ipi_send_def Let_def split: option.split)

lemma kernel_inv_requeue:
  assumes inv: "kernel_inv k h v" and same: "same_but_queues k k'" and last: "g_last_user_thread_cpu k' = g_last_user_thread_cpu k"
    and rq: "rq_inv k' Q"
    and q: "\<And>c t. t \<in> set (Q c) \<Longrightarrow> t \<in> set (v_threads v) \<and> th_state (k_threads k t) = Thread_Ready \<and> (\<forall>d. cpu_idle_thread (k_cpus k d) \<noteq> Some t)"
  shows "kernel_inv k' h (v\<lparr>v_runq := Q\<rparr>)"
proof -
  have "list_view thread_registry k' (v_threads v)" "list_view process_registry k' (v_processes v)"
    "ring_inv k' (v_cpus v)" "wq_inv k' h (v_wait v)"
    using inv same registry_cong [of k' k] processes_cong [of k' k] ring_inv_cong [of k' k] wq_inv_cong [of k' k]
    by (auto simp: kernel_inv_def same_but_queues_def)
  moreover have "cpu_idle_thread (k_cpus k' c) = cpu_idle_thread (k_cpus k c)" for c
    using same by (auto simp: same_but_queues_def run_part_def fun_eq_iff)
  ultimately show ?thesis
    using inv same last rq q unfolding kernel_inv_def same_but_queues_def by (auto dest: q)
qed

lemma g_last_append [simp]: "g_last_user_thread_cpu (run_queue_append_locked c t k) = g_last_user_thread_cpu k"
  by (simp add: run_queue_append_locked_def list_append_def run_queue_def Let_def split: option.split)

lemma g_last_left [simp]: "g_last_user_thread_cpu (run_queue_left c t (list_detach (run_queue d) p u k)) = g_last_user_thread_cpu k"
  by (simp add: run_queue_left_def list_detach_def run_queue_def Let_def split: option.split)

lemma done_append [simp]: "k_completion_done (run_queue_append_locked c t k) = k_completion_done k"
  by (simp add: run_queue_append_locked_def list_append_def run_queue_def Let_def split: option.split)

lemma done_left [simp]: "k_completion_done (run_queue_left c t (list_detach (run_queue d) p u k)) = k_completion_done k"
  by (simp add: run_queue_left_def list_detach_def run_queue_def Let_def split: option.split)

text \<open>The choice of a target CPU changes the memory of the last choice only.\<close>

lemma select_target_cpu_inv:
  assumes inv: "kernel_inv k h v"
  obtains c g where "select_target_cpu t target k = Some (c, k\<lparr>g_last_user_thread_cpu := g\<rparr>)"
    and "kernel_inv (k\<lparr>g_last_user_thread_cpu := g\<rparr>) h v"
proof -
  have frame: "kernel_inv (k\<lparr>g_last_user_thread_cpu := g\<rparr>) h v" if "cpu_known (v_cpus v) g" for g
  proof -
    have "rq_part (k\<lparr>g_last_user_thread_cpu := g\<rparr>) = rq_part k" "wq_part (k\<lparr>g_last_user_thread_cpu := g\<rparr>) = wq_part k"
      "reg_part (k\<lparr>g_last_user_thread_cpu := g\<rparr>) = reg_part k" "preg_part (k\<lparr>g_last_user_thread_cpu := g\<rparr>) = preg_part k"
      "ring_part (k\<lparr>g_last_user_thread_cpu := g\<rparr>) = ring_part k"
    proof -
      have "wq_head q (k\<lparr>g_last_user_thread_cpu := g\<rparr>) = wq_head q k" for q by (cases q) simp_all
      then show "wq_part (k\<lparr>g_last_user_thread_cpu := g\<rparr>) = wq_part k" by (simp add: wq_part_def)
    qed (simp_all add: part_defs)
    then show ?thesis
      using inv that registry_cong [of "k\<lparr>g_last_user_thread_cpu := g\<rparr>" k] processes_cong [of "k\<lparr>g_last_user_thread_cpu := g\<rparr>" k]
        ring_inv_cong [of "k\<lparr>g_last_user_thread_cpu := g\<rparr>" k] rq_inv_cong [of "k\<lparr>g_last_user_thread_cpu := g\<rparr>" k]
        wq_inv_cong [of "k\<lparr>g_last_user_thread_cpu := g\<rparr>" k]
      by (simp add: kernel_inv_def)
  qed
  have "\<exists>b \<in> set (schedulable_cpus k (v_cpus v)). select_least_loaded_cpu k (g_last_user_thread_cpu k) = Some b"
    using select_least_loaded_spec [OF kernel_invD(3) [OF inv], of "g_last_user_thread_cpu k"] kernel_invD(4) [OF inv]
    by (auto simp: cpu_known_def)
  then obtain b where b: "b \<in> set (v_cpus v)" "select_user_target_cpu k = Some (b, k\<lparr>g_last_user_thread_cpu := Some b\<rparr>)"
    by (auto simp: select_user_target_cpu_def schedulable_cpus_def)
  show ?thesis
  proof (cases "target = None \<and> th_user_mode (k_threads k t)")
    case True
    show ?thesis
      by (rule that [of b "Some b"]) (use True b frame [of "Some b"] in \<open>simp_all add: select_target_cpu_def cpu_known_def\<close>)
  next
    case False
    then obtain c where "select_target_cpu t target k = Some (c, k)"
      by (cases target; cases "th_scheduler_cpu (k_threads k t)") (simp_all add: select_target_cpu_def)
    then show ?thesis using that [of c "g_last_user_thread_cpu k"] inv by simp
  qed
qed

text \<open>A thread not yet queued goes to the end of the queue of the target, or of the chosen CPU.\<close>

lemma mark_thread_ready_at:
  assumes inv: "kernel_inv k h v" and t: "t \<in> set (v_threads v)" "\<And>i. t \<notin> set (v_wait v i)" "\<And>c. cpu_idle_thread (k_cpus k c) \<noteq> Some t"
  obtains k' Q where "mark_thread_ready t target k = Some k'" and "kernel_inv k' h (v\<lparr>v_runq := Q\<rparr>)" and "steady k k'" and "readied t k k'"
    and "th_state (k_threads k t) \<notin> {Thread_Dying, Thread_Free} \<Longrightarrow> \<exists>c. t \<in> set (Q c)"
    and "th_state (k_threads k t) \<notin> {Thread_Dying, Thread_Free} \<Longrightarrow> th_run_queue_cpu (k_threads k t) = None \<Longrightarrow>
      \<exists>c. Q = (v_runq v)(c := v_runq v c @ [t]) \<and> (target = None \<or> target = Some c)"
proof (cases "th_state (k_threads k t) = Thread_Dying \<or> th_state (k_threads k t) = Thread_Free")
  case True
  then show ?thesis using that [of k "v_runq v"] inv by (auto simp: mark_thread_ready_def readied_def)
next
  case False
  obtain c g where sel: "select_target_cpu t target k = Some (c, k\<lparr>g_last_user_thread_cpu := g\<rparr>)"
    and inv1: "kernel_inv (k\<lparr>g_last_user_thread_cpu := g\<rparr>) h v"
    by (rule select_target_cpu_inv [OF inv])
  have tgt: "target = None \<or> target = Some c" using sel by (cases target) (auto simp: select_target_cpu_def)
  define k2 where "k2 = upd_thread t (\<lambda>x. x\<lparr>th_scheduler_cpu := Some c\<rparr>)
    (set_process_state t Process_Ready (upd_thread t (\<lambda>x. x\<lparr>th_state := Thread_Ready\<rparr>) (k\<lparr>g_last_user_thread_cpu := g\<rparr>)))"
  have links: "same_links (k\<lparr>g_last_user_thread_cpu := g\<rparr>) k2"
    by (simp add: k2_def same_links_def)
  have st: "th_state (k_threads k2 u) = (if u = t then Thread_Ready else th_state (k_threads k u))" for u
    by (simp add: k2_def)
  have inv2: "kernel_inv k2 h v"
    using inv1 links by (rule kernel_inv_links) (use t kernel_invD(9,11) [OF inv] in \<open>auto simp: st\<close>)
  have idle: "cpu_idle_thread (k_cpus k2 d) = cpu_idle_thread (k_cpus k d)" for d by (simp add: k2_def)
  have ready: "readied t k k2" by (auto simp: readied_def k2_def)
  have keep: "steady k k2" using False by (auto simp: steady_def k2_def part_defs)
  have run: "mark_thread_ready t target k = Some (let (enqueued, k3) = (if th_run_queue_cpu (k_threads k2 t) \<noteq> None then (False, k2)
        else (True, run_queue_append_locked c t k2))
      in if enqueued \<and> c \<noteq> k_cpu_cur k3 then snd (ipi_send_reschedule c k3) else k3)"
    using False sel t(3) [THEN not_sym] by (simp add: mark_thread_ready_def enqueue_thread_on_cpu_def Let_def k2_def idle_thread_for_cpu_def)
  show ?thesis
  proof (cases "th_run_queue_cpu (k_threads k2 t)")
    case (Some d)
    then have q: "\<exists>c. t \<in> set (v_runq v c)" using kernel_invD(5) [OF inv2] by (auto simp: rq_inv_def)
    have nq: "th_run_queue_cpu (k_threads k t) \<noteq> None" using Some by (simp add: k2_def)
    have k2: "mark_thread_ready t target k = Some k2" "kernel_inv k2 h (v\<lparr>v_runq := v_runq v\<rparr>)" using run Some inv2 by simp_all
    show ?thesis by (rule that [OF k2 keep ready]) (use q nq in auto)
  next
    case None
    let ?k3 = "run_queue_append_locked c t k2" and ?Q = "(v_runq v)(c := v_runq v c @ [t])"
    have "t \<noteq> 0" using t(1) kernel_invD(7) [OF inv] by metis
    then have "rq_inv ?k3 ?Q" using run_queue_append_inv [OF kernel_invD(5) [OF inv2] None] by simp
    moreover have "u \<in> set (v_threads v) \<and> th_state (k_threads k2 u) = Thread_Ready \<and> (\<forall>d. cpu_idle_thread (k_cpus k2 d) \<noteq> Some u)"
      if "u \<in> set (?Q d)" for u d
    proof (cases "u = t")
      case False
      then have "u \<in> set (v_runq v d)" using that by (auto split: if_splits)
      then show ?thesis using kernel_invD(8,9,13) [OF inv2] by blast
    qed (use t st idle in simp)
    ultimately have inv3: "kernel_inv ?k3 h (v\<lparr>v_runq := ?Q\<rparr>)"
      by (rule kernel_inv_requeue [OF inv2 run_queue_append_same g_last_append])
    have keep3: "steady k ?k3" using keep same_but_queues_keeps [OF run_queue_append_same [of k2 c t]] steady_trans [OF keep] by (simp add: keeps_def)
    have ready3: "readied t k ?k3"
      using ready run_queue_append_same [of k2 c t] unfolding readied_def same_but_queues_def by simp
    have "kernel_inv (snd (ipi_send_reschedule c ?k3)) h (v\<lparr>v_runq := ?Q\<rparr>)"
      using inv3 by (rule kernel_inv_same)
        (simp_all add: same_links_def)
    moreover have "steady k (snd (ipi_send_reschedule c ?k3))" using keep3 by (simp add: steady_def)
    moreover have "readied t k (snd (ipi_send_reschedule c ?k3))" using ready3 by (simp add: readied_def)
    moreover have "\<exists>d. t \<in> set (?Q d)" by (rule exI [of _ c]) simp
    moreover have "\<exists>d. ?Q = (v_runq v)(d := v_runq v d @ [t]) \<and> (target = None \<or> target = Some d)" using tgt by blast
    ultimately show ?thesis
      using that [of _ ?Q] run inv3 keep3 ready3 None by (cases "c \<noteq> k_cpu_cur ?k3") (simp_all add: Let_def del: fun_upd_apply)
  qed
qed

lemma mark_thread_ready_inv:
  assumes inv: "kernel_inv k h v" and t: "t \<in> set (v_threads v)" "\<And>i. t \<notin> set (v_wait v i)" "\<And>c. cpu_idle_thread (k_cpus k c) \<noteq> Some t"
  obtains k' Q where "mark_thread_ready t target k = Some k'" and "kernel_inv k' h (v\<lparr>v_runq := Q\<rparr>)" and "steady k k'" and "readied t k k'"
    and "th_state (k_threads k t) \<notin> {Thread_Dying, Thread_Free} \<Longrightarrow> \<exists>c. t \<in> set (Q c)"
  by (rule mark_thread_ready_at [OF inv t, of target]) (rule that)

section \<open>Wait queues\<close>

lemma wq_invD:
  assumes "wq_inv k h W"
  shows "chain (\<lambda>t. th_wait_link (k_threads k t)) (wl_head h k i) (W i)" and "i \<noteq> j \<Longrightarrow> t \<in> set (W i) \<Longrightarrow> t \<notin> set (W j)"
  using assms by (auto simp: wq_inv_def)

lemma wq_head_set_head [simp]: "wq_head r (wq_set_head q v k) = (if r = q then v else wq_head r k)"
  by (cases q; cases r) (auto simp: upd_process_def)

lemma wq_set_head_frame [simp]:
  "k_threads (wq_set_head q v k) = k_threads k" "k_cpus (wq_set_head q v k) = k_cpus k" "k_cpu_cur (wq_set_head q v k) = k_cpu_cur k"
  "rq_part (wq_set_head q v k) = rq_part k" "reg_part (wq_set_head q v k) = reg_part k" "preg_part (wq_set_head q v k) = preg_part k"
  "ring_part (wq_set_head q v k) = ring_part k" "run_part (wq_set_head q v k) = run_part k"
  "g_last_user_thread_cpu (wq_set_head q v k) = g_last_user_thread_cpu k" "k_completion_done (wq_set_head q v k) = k_completion_done k"
  by (cases q; simp add: part_defs upd_process_def fun_eq_iff)+

text \<open>An update of wait queue links and heads, whose result is the wait lists \<open>W\<close>.\<close>

lemma kernel_inv_rewait:
  assumes inv: "kernel_inv k h v"
    and parts: "reg_part k' = reg_part k" "preg_part k' = preg_part k" "ring_part k' = ring_part k" "rq_part k' = rq_part k"
      "g_last_user_thread_cpu k' = g_last_user_thread_cpu k" "run_part k' = run_part k"
      "\<And>t. th_process (k_threads k' t) = th_process (k_threads k t)" "\<And>t. th_state (k_threads k' t) = th_state (k_threads k t)"
    and wq: "wq_inv k' h' W"
    and w: "\<And>i t. t \<in> set (W i) \<Longrightarrow> t \<in> set (v_threads v) \<and> th_state (k_threads k t) = Thread_Blocked \<and>
      (\<forall>d. cpu_idle_thread (k_cpus k d) \<noteq> Some t)"
    and c: "\<And>p t. t \<in> set (W (Inl (ChildExitQueue p))) \<Longrightarrow> th_process (k_threads k t) = Some p"
  shows "kernel_inv k' h' (v\<lparr>v_wait := W\<rparr>)"
proof -
  have idle: "cpu_idle_thread (k_cpus k' c) = cpu_idle_thread (k_cpus k c)" for c
    using parts(6) by (auto simp: run_part_def fun_eq_iff)
  have "list_view thread_registry k' (v_threads v)" "list_view process_registry k' (v_processes v)"
    "ring_inv k' (v_cpus v)" "rq_inv k' (v_runq v)"
    using inv parts registry_cong [of k' k] processes_cong [of k' k] ring_inv_cong [of k' k] rq_inv_cong [of k' k]
    by (auto simp: kernel_inv_def)
  moreover have "t \<notin> set (W i)" if "cpu_idle_thread (k_cpus k d) = Some t" for d t i using w that by blast
  ultimately show ?thesis
    using inv parts(5,7,8) wq w c unfolding kernel_inv_def by (simp add: idle)
qed

text \<open>Taking the first thread out of a wait list.\<close>

lemma wq_inv_pop:
  assumes wq: "wq_inv k h W" and W: "W i = t # ts"
    and links: "\<And>u. th_wait_link (k_threads k' u) = (if u = t then None else th_wait_link (k_threads k u))"
    and hi: "wl_head h' k' i = th_wait_link (k_threads k t)" and hj: "\<And>j. j \<noteq> i \<Longrightarrow> wl_head h' k' j = wl_head h k j"
  shows "wq_inv k' h' (W(i := ts))"
proof -
  let ?l = "\<lambda>u. th_wait_link (k_threads k u)"
  have l: "(\<lambda>u. th_wait_link (k_threads k' u)) = ?l(t := None)" by (simp add: fun_eq_iff links)
  have "chain (?l(t := None)) (wl_head h' k' i) ts"
    using wq_invD(1) [OF wq, of i] W hi chain_remove_head [of ?l _ t ts] by simp
  moreover have "chain (?l(t := None)) (wl_head h' k' j) (W j)" if "j \<noteq> i" for j
  proof -
    have "t \<notin> set (W j)" using wq_invD(2) [OF wq, of i j t] W that by simp
    then show ?thesis using wq_invD(1) [OF wq, of j] hj [OF that] by (subst chain_cong [of _ _ ?l]) auto
  qed
  ultimately have "\<forall>j. chain (?l(t := None)) (wl_head h' k' j) ((W(i := ts)) j)" by simp
  moreover have "set ((W(i := ts)) a) \<inter> set ((W(i := ts)) b) = {}" if "a \<noteq> b" for a b
  proof -
    have "set ((W(i := ts)) c) \<subseteq> set (W c)" for c using W by auto
    then show ?thesis using wq_invD(2) [OF wq that] by blast
  qed
  ultimately show ?thesis unfolding wq_inv_def l by blast
qed

text \<open>Appending a thread that waits nowhere.\<close>

lemma wq_inv_append:
  assumes wq: "wq_inv k h W" and t: "\<And>j. t \<notin> set (W j)"
    and links: "\<And>u. th_wait_link (k_threads k' u) =
      (if W i \<noteq> [] \<and> u = last (W i) then Some t else if u = t then None else th_wait_link (k_threads k u))"
    and hi: "wl_head h' k' i = (if W i = [] then Some t else wl_head h k i)" and hj: "\<And>j. j \<noteq> i \<Longrightarrow> wl_head h' k' j = wl_head h k j"
  shows "wq_inv k' h' (W(i := W i @ [t]))"
proof -
  let ?l = "\<lambda>u. th_wait_link (k_threads k u)"
  have l: "(\<lambda>u. th_wait_link (k_threads k' u)) = (if W i = [] then ?l(t := None) else ?l(t := None, last (W i) := Some t))"
    by (auto simp: fun_eq_iff links)
  have "chain (\<lambda>u. th_wait_link (k_threads k' u)) (wl_head h' k' i) (W i @ [t])"
    unfolding l hi using chain_snoc [OF wq_invD(1) [OF wq, of i] t] by auto
  moreover have "chain (\<lambda>u. th_wait_link (k_threads k' u)) (wl_head h' k' j) (W j)" if "j \<noteq> i" for j
  proof -
    have "th_wait_link (k_threads k' u) = ?l u" if "u \<in> set (W j)" for u
      using t [of j] wq_invD(2) [OF wq \<open>j \<noteq> i\<close> that] that by (auto simp: links dest: last_in_set)
    then show ?thesis using wq_invD(1) [OF wq, of j] hj [OF that] by (subst chain_cong [of _ _ ?l]) auto
  qed
  ultimately show ?thesis using wq t unfolding wq_inv_def by auto
qed

lemma wait_queue_enqueue_run:
  assumes wq: "wq_inv k h W" and t: "\<And>j. t \<notin> set (W j)"
  obtains k' where "wait_queue_enqueue_locked q t k = Some k'" and "wq_inv k' h (W(Inl q := W (Inl q) @ [t]))"
    and "reg_part k' = reg_part k" "preg_part k' = preg_part k" "ring_part k' = ring_part k" "rq_part k' = rq_part k"
      "g_last_user_thread_cpu k' = g_last_user_thread_cpu k" "run_part k' = run_part k"
      "\<And>u. th_process (k_threads k' u) = th_process (k_threads k u)" "\<And>u. th_state (k_threads k' u) = th_state (k_threads k u)"
      "k_completion_done k' = k_completion_done k"
proof (cases "W (Inl q)")
  case Nil
  let ?k = "wq_set_head q (Some t) (upd_thread t (\<lambda>x. x\<lparr>th_wait_link := None\<rparr>) k)"
  have "wq_head q k = None" using wq_invD(1) [OF wq, of "Inl q"] Nil by simp
  then have run: "wait_queue_enqueue_locked q t k = Some ?k" by (simp add: wait_queue_enqueue_locked_def)
  show ?thesis
    by (rule that [OF run wq_inv_append [OF wq t]])
      (auto simp: Nil wl_head_def split: sum.split)
next
  case (Cons x xs)
  let ?W = "W (Inl q)" and ?l = "\<lambda>u. th_wait_link (k_threads k u)"
  let ?k = "upd_thread (last ?W) (\<lambda>x. x\<lparr>th_wait_link := Some t\<rparr>) (upd_thread t (\<lambda>x. x\<lparr>th_wait_link := None\<rparr>) k)"
  have ch: "chain ?l (Some x) ?W" "wq_head q k = Some x" using wq_invD(1) [OF wq, of "Inl q"] Cons by auto
  have "find_from ?l (\<lambda>u. u = t) (Some x) (Some x) = Some (last_opt ?W, None)"
    using t [of "Inl q"] Cons by (subst find_from_miss [OF ch(1)]) auto
  then have run: "wait_queue_enqueue_locked q t k = Some ?k"
    using ch(2) Cons by (simp add: wait_queue_enqueue_locked_def last_opt_def)
  show ?thesis
    by (rule that [OF run wq_inv_append [OF wq t]])
      (use t [of "Inl q"] Cons in \<open>auto simp: wl_head_def split: sum.split\<close>)
qed

section \<open>Waking\<close>

lemma kernel_inv_clear_wait:
  "kernel_inv k h v \<Longrightarrow> kernel_inv (clear_thread_wait t k) h v"
  by (rule kernel_inv_same [OF _ only_state_links(4)]) (simp_all add: clear_thread_wait_def)

text \<open>The thread woken no longer waits and is ready, or runs if it is the current one.\<close>

definition woken :: "thread_ref \<Rightarrow> kernel \<Rightarrow> kernel \<Rightarrow> bool" where
  "woken t k k' \<longleftrightarrow> (\<forall>u. u \<noteq> t \<longrightarrow> th_state (k_threads k' u) = th_state (k_threads k u) \<and> th_wait (k_threads k' u) = th_wait (k_threads k u)) \<and>
     th_wait (k_threads k' t) = no_wait \<and>
     th_state (k_threads k' t) = (if Some t = current_thread k then Thread_Running else Thread_Ready)"

lemma wake_blocked_thread_inv:
  assumes inv: "kernel_inv k h v" and t: "t \<in> set (v_threads v)" "\<And>i. t \<notin> set (v_wait v i)" "\<And>c. cpu_idle_thread (k_cpus k c) \<noteq> Some t"
    and st: "th_state (k_threads k t) = Thread_Blocked"
  obtains k' Q where "wake_blocked_thread t target k = Some k'" and "kernel_inv k' h (v\<lparr>v_runq := Q\<rparr>)" and "keeps k k'" and "woken t k k'"
    and "Some t \<noteq> current_thread k \<Longrightarrow> \<exists>c. t \<in> set (Q c)"
proof (cases "Some t = current_thread k")
  case True
  let ?k = "set_process_state t Process_Running (upd_thread t (\<lambda>x. x\<lparr>th_state := Thread_Running\<rparr>) (clear_thread_wait t k))"
  have "t \<notin> set (v_runq v c)" for c using kernel_invD(9) [OF inv] st by force
  then have "kernel_inv ?k h v"
    by (intro kernel_inv_links [OF kernel_inv_clear_wait [OF inv] only_state_links(1)])
      (use t(2) kernel_invD(9,11) [OF inv] in \<open>auto simp: clear_thread_wait_def\<close>)
  moreover have "keeps k ?k" using st by (simp add: keeps_defs clear_thread_wait_def)
  moreover have "woken t k ?k" using True by (simp add: woken_def clear_thread_wait_def)
  moreover have "wake_blocked_thread t target k = Some ?k"
    using True by (simp add: wake_blocked_thread_def clear_thread_wait_def current_thread_def)
  ultimately show ?thesis using that [of ?k "v_runq v"] True by simp
next
  case False
  let ?k = "clear_thread_wait t k"
  have st': "th_state (k_threads ?k t) = Thread_Blocked" using st by (simp add: clear_thread_wait_def)
  obtain k' Q where r: "mark_thread_ready t target ?k = Some k'" "kernel_inv k' h (v\<lparr>v_runq := Q\<rparr>)" "steady ?k k'" "readied t ?k k'"
    and q: "\<exists>c. t \<in> set (Q c)"
    by (rule mark_thread_ready_inv [OF kernel_inv_clear_wait [OF inv] t(1,2), of t]) (use t(3) st' in \<open>auto simp: clear_thread_wait_def\<close>)
  have "keeps k k'" using r(3,4) st by (auto simp: keeps_defs readied_def clear_thread_wait_def)
  moreover have "woken t k k'" using r(4) st' False by (auto simp: readied_def woken_def clear_thread_wait_def)
  moreover have "wake_blocked_thread t target k = Some k'"
    using False r(1) by (simp add: wake_blocked_thread_def clear_thread_wait_def current_thread_def)
  ultimately show ?thesis using that [of k' Q] r(2) q by blast
qed

definition all_woken :: "thread_ref list \<Rightarrow> kernel \<Rightarrow> kernel \<Rightarrow> bool" where
  "all_woken ts k k' \<longleftrightarrow> (\<forall>u. if u \<in> set ts
     then th_wait (k_threads k' u) = no_wait \<and> th_state (k_threads k' u) = (if Some u = current_thread k then Thread_Running else Thread_Ready)
     else th_wait (k_threads k' u) = th_wait (k_threads k u) \<and> th_state (k_threads k' u) = th_state (k_threads k u))"

lemma keeps_current: "keeps k k' \<Longrightarrow> current_thread k' = current_thread k"
  by (auto simp: keeps_defs current_thread_def ring_part_def run_part_def fun_eq_iff)

text \<open>The first thread of a list an operation holds: unlinked, it waits in no list.\<close>

lemma unlink_waiter_inv:
  assumes inv: "kernel_inv k h v" and W: "v_wait v (Inr n) = t # ts"
  defines "k' \<equiv> upd_thread t (\<lambda>x. x\<lparr>th_wait_link := None\<rparr>) k"
  shows "kernel_inv k' (h(n := th_wait_link (k_threads k t))) (v\<lparr>v_wait := (v_wait v)(Inr n := ts)\<rparr>)"
    and "h n = Some t" "\<And>i. t \<notin> set (((v_wait v)(Inr n := ts)) i)" "t \<in> set (v_threads v)" "th_state (k_threads k' t) = Thread_Blocked"
    "\<And>c. cpu_idle_thread (k_cpus k' c) \<noteq> Some t" "keeps k k'" "\<And>u. th_wait (k_threads k' u) = th_wait (k_threads k u)"
    "\<And>u. th_state (k_threads k' u) = th_state (k_threads k u)"
proof -
  let ?W = "(v_wait v)(Inr n := ts)"
  have ch: "chain (\<lambda>t. th_wait_link (k_threads k t)) (h n) (t # ts)"
    using wq_invD(1) [OF kernel_invD(6) [OF inv], of "Inr n"] W by simp
  have "wq_inv k' (h(n := th_wait_link (k_threads k t))) ?W"
    by (rule wq_inv_pop [OF kernel_invD(6) [OF inv] W]) (auto simp: k'_def wl_head_def split: sum.split)
  then show "kernel_inv k' (h(n := th_wait_link (k_threads k t))) (v\<lparr>v_wait := ?W\<rparr>)"
  proof (rule kernel_inv_rewait [OF inv, rotated -3])
    fix i u assume "u \<in> set (?W i)"
    then have "u \<in> set (v_wait v i)" using W by (auto split: if_splits)
    then show "u \<in> set (v_threads v) \<and> th_state (k_threads k u) = Thread_Blocked \<and> (\<forall>d. cpu_idle_thread (k_cpus k d) \<noteq> Some u)"
      using kernel_invD(10,11,14) [OF inv] by blast
  qed (use kernel_invD(12) [OF inv] in \<open>auto simp: k'_def\<close>)
  show "h n = Some t" using ch by simp
  show "t \<notin> set (?W i)" for i
    using chain_distinct [OF ch] wq_invD(2) [OF kernel_invD(6) [OF inv], of "Inr n" i t] W by auto
  have t: "t \<in> set (v_wait v (Inr n))" using W by simp
  show "t \<in> set (v_threads v)" "th_state (k_threads k' t) = Thread_Blocked" "cpu_idle_thread (k_cpus k' c) \<noteq> Some t" for c
    using kernel_invD(10,11,14) [OF inv] t by (auto simp: k'_def)
qed (auto simp: k'_def keeps_defs)

lemma wake_all_loop_inv:
  "kernel_inv k h v \<Longrightarrow> v_wait v (Inr 0) = ts \<Longrightarrow>
   \<exists>k' Q. wake_all_loop target (h 0) n k = Some (n + of_nat (length ts), k') \<and>
     kernel_inv k' (h(0 := None)) (v\<lparr>v_wait := (v_wait v)(Inr 0 := []), v_runq := Q\<rparr>) \<and> keeps k k' \<and> all_woken ts k k'"
proof (induction ts arbitrary: k h v n)
  case Nil
  then have "h 0 = None" using wq_invD(1) [OF kernel_invD(6) [OF Nil(1)], of "Inr 0"] by simp
  then have "h(0 := None) = h" "(v_wait v)(Inr 0 := []) = v_wait v" using Nil(2) by auto
  then show ?case
    using Nil \<open>h 0 = None\<close> by (intro exI [of _ k] exI [of _ "v_runq v"]) (simp add: wake_all_loop.simps all_woken_def)
next
  case (Cons t ts)
  let ?k1 = "upd_thread t (\<lambda>x. x\<lparr>th_wait_link := None\<rparr>) k" and ?h = "h(0 := th_wait_link (k_threads k t))"
  let ?v = "v\<lparr>v_wait := (v_wait v)(Inr 0 := ts)\<rparr>"
  note u = unlink_waiter_inv [OF Cons.prems]
  have nw: "t \<notin> set (v_wait ?v i)" for i using u(3) by simp
  have inT: "t \<in> set (v_threads ?v)" using u(4) by simp
  obtain k2 Q where w: "wake_blocked_thread t target ?k1 = Some k2" "kernel_inv k2 ?h (?v\<lparr>v_runq := Q\<rparr>)" "keeps ?k1 k2" "woken t ?k1 k2"
    by (rule wake_blocked_thread_inv [OF u(1) inT nw u(6) u(5)])
  have "v_wait (?v\<lparr>v_runq := Q\<rparr>) (Inr 0) = ts" by simp
  from Cons.IH [OF w(2) this, of "n + 1"] obtain k3 Q' where r: "wake_all_loop target (?h 0) (n + 1) k2 = Some (n + 1 + of_nat (length ts), k3)"
    "kernel_inv k3 (?h(0 := None)) (?v\<lparr>v_runq := Q, v_wait := (v_wait (?v\<lparr>v_runq := Q\<rparr>))(Inr 0 := []), v_runq := Q'\<rparr>)"
    "keeps k2 k3" "all_woken ts k2 k3" by blast
  have keep: "keeps k k3" using keeps_trans [OF u(7)] keeps_trans [OF w(3) r(3)] by blast
  have "t \<notin> set ts" using nw [of "Inr 0"] by simp
  then have "all_woken (t # ts) k k3"
    using r(4) w(4) u(8,9) keeps_current [OF w(3)] keeps_current [OF u(7)] unfolding all_woken_def woken_def by auto
  moreover have "wake_all_loop target (h 0) n k = Some (n + of_nat (length (t # ts)), k3)"
    using u(2) w(1) r(1) by (subst wake_all_loop.simps) (simp add: algebra_simps)
  moreover have "kernel_inv k3 (h(0 := None)) (v\<lparr>v_wait := (v_wait v)(Inr 0 := []), v_runq := Q'\<rparr>)" using r(2) by (simp del: fun_upd_apply)
  ultimately show ?case using keep by blast
qed

end
