(* ===== verification/Process_Inv.thy ===== *)
theory Process_Inv
  imports Kernel_Inv
begin

text \<open>
  Process teardown, the wait for a child and the reaper keep the kernel invariant and end. After the
  reaper ran, the thread registry holds exactly the threads that are not dead.
\<close>

section \<open>Registry walks\<close>

lemma thread_chain:
  "list_view thread_registry k ts \<Longrightarrow> chain (next_thread k) (first_thread k) ts"
  by (simp add: list_view_def thread_registry_def next_thread_def [abs_def] first_thread_def)

lemma process_chain:
  "list_view process_registry k ps \<Longrightarrow> chain (next_process k) (first_process k) ps"
  by (simp add: list_view_def process_registry_def next_process_def [abs_def] first_process_def)

definition has_threads :: "kernel \<Rightarrow> thread_ref list \<Rightarrow> process_ref \<Rightarrow> bool" where
  "has_threads k ts p \<longleftrightarrow> (\<exists>t \<in> set ts. th_process (k_threads k t) = Some p \<and> th_state (k_threads k t) \<noteq> Thread_Free)"

lemma process_has_threads_run:
  assumes "kernel_inv k h v"
  shows "process_has_threads p k = Some (has_threads k (v_threads v) p)"
proof -
  let ?P = "\<lambda>t. th_process (k_threads k t) = Some p \<and> th_state (k_threads k t) \<noteq> Thread_Free"
  obtain prev where "find_from (next_thread k) ?P None (first_thread k) = Some (prev, List.find ?P (v_threads v))"
    using find_from_found [OF thread_chain [OF kernel_invD(1) [OF assms]], of ?P None] by blast
  moreover have "List.find ?P (v_threads v) \<noteq> None \<longleftrightarrow> (\<exists>t \<in> set (v_threads v). ?P t)"
    by (auto simp: find_None_iff)
  ultimately show ?thesis by (simp add: process_has_threads_def has_threads_def)
qed

section \<open>Reaping a process\<close>

text \<open>Two states that differ in processes and memory only.\<close>

definition same_threads :: "kernel \<Rightarrow> kernel \<Rightarrow> bool" where
  "same_threads k k' \<longleftrightarrow> k_threads k' = k_threads k \<and> k_cpus k' = k_cpus k \<and> k_cpu_cur k' = k_cpu_cur k \<and>
     g_cpu_boot k' = g_cpu_boot k \<and> g_thread_head k' = g_thread_head k \<and> g_thread_tail k' = g_thread_tail k \<and>
     g_last_user_thread_cpu k' = g_last_user_thread_cpu k \<and> k_completion_done k' = k_completion_done k"

lemma same_threads_refl [simp]: "same_threads k k"
  by (simp add: same_threads_def)

lemma same_threads_trans: "same_threads k k' \<Longrightarrow> same_threads k' k'' \<Longrightarrow> same_threads k k''"
  by (simp add: same_threads_def)

lemma same_threads_upd [simp]:
  "same_threads k (upd_process p f k)" "same_threads k (set_process_state t st k)" "same_threads k (kernel_record a b c d e g k)"
  by (auto simp: same_threads_def upd_process_def set_process_state_def kernel_record_def split: option.split)

lemma same_threads_keeps: "same_threads k k' \<Longrightarrow> keeps k k'"
  by (simp add: same_threads_def keeps_defs part_defs)

lemma kernel_inv_same_threads:
  assumes inv: "kernel_inv k h v" and same: "same_threads k k'" and ps: "list_view process_registry k' ps"
    and heads: "\<And>q. wq_head q k' = wq_head q k"
  shows "kernel_inv k' h (v\<lparr>v_processes := ps\<rparr>)"
proof -
  have "reg_part k' = reg_part k" "ring_part k' = ring_part k" "rq_part k' = rq_part k" "wq_part k' = wq_part k"
    using same heads by (simp_all add: same_threads_def part_defs)
  then have "list_view thread_registry k' (v_threads v)" "ring_inv k' (v_cpus v)" "rq_inv k' (v_runq v)" "wq_inv k' h (v_wait v)"
    using inv registry_cong [of k' k] ring_inv_cong [of k' k] rq_inv_cong [of k' k] wq_inv_cong [of k' k]
    by (auto simp: kernel_inv_def)
  then show ?thesis using inv same ps unfolding kernel_inv_def same_threads_def by simp
qed

lemma orphan_children_run:
  assumes ps: "list_view process_registry k ps"
  obtains k' where "orphan_children p k = Some k'" and "same_threads k k'" and "\<And>q. wq_head q k' = wq_head q k"
    and "list_view process_registry k' ps" and "\<And>r. pr_cr3 (k_processes k' r) = pr_cr3 (k_processes k r)"
    and "g_kernel_process k' = g_kernel_process k" "g_process_cache k' = g_process_cache k"
proof -
  let ?f = "\<lambda>r. upd_process r (\<lambda>x. if pr_parent x = Some p then x\<lparr>pr_parent := None\<rparr> else x)"
  have run: "orphan_children p k = Some (fold ?f ps k)"
    unfolding orphan_children_def
    by (rule fold_from_chain) (use ps in \<open>simp_all add: list_view_def process_registry_def\<close>)
  have heads: "wq_head q (?f r s) = wq_head q s" for q r s
    by (cases q) (simp_all add: upd_process_def)
  have "same_threads k (fold ?f xs k) \<and> (\<forall>q. wq_head q (fold ?f xs k) = wq_head q k) \<and> preg_part (fold ?f xs k) = preg_part k \<and>
      (\<forall>r. pr_cr3 (k_processes (fold ?f xs k) r) = pr_cr3 (k_processes k r)) \<and>
      g_kernel_process (fold ?f xs k) = g_kernel_process k \<and> g_process_cache (fold ?f xs k) = g_process_cache k" for xs
  proof (induction xs arbitrary: k)
    case (Cons x xs)
    have "same_threads k (?f x k)" "preg_part (?f x k) = preg_part k" "\<forall>r. pr_cr3 (k_processes (?f x k) r) = pr_cr3 (k_processes k r)"
      "g_kernel_process (?f x k) = g_kernel_process k" "g_process_cache (?f x k) = g_process_cache k"
      by simp_all (simp_all add: upd_process_def)
    moreover have "same_threads k (fold ?f xs (?f x k))"
      using same_threads_trans [OF calculation(1)] Cons.IH [of "?f x k"] by blast
    ultimately show ?case using Cons.IH [of "?f x k"] heads by simp
  qed simp
  from this [of ps] show ?thesis using that [OF run] processes_cong [of "fold ?f ps k" k] ps by blast
qed

lemma detach_process_frame:
  "same_threads k (list_detach process_registry prev p k)" "wq_head q (list_detach process_registry prev p k) = wq_head q k"
  "g_process_cache (list_detach process_registry prev p k) = g_process_cache k"
proof -
  show "wq_head q (list_detach process_registry prev p k) = wq_head q k"
    by (cases prev; cases q) (simp_all add: list_detach_def process_registry_def Let_def upd_process_def)
qed (cases prev; simp add: same_threads_def list_detach_def process_registry_def Let_def upd_process_def)+

lemma unlink_process_run:
  assumes ps: "list_view process_registry k ps"
  obtains k' where "unlink_process p k = Some k'" and "same_threads k k'" and "\<And>q. wq_head q k' = wq_head q k"
    and "list_view process_registry k' (remove1 p ps)" and "g_process_cache k' = g_process_cache k"
proof (rule preg.remove_view [OF ps, of p])
  fix k' assume r: "list_remove process_registry p k = Some (p \<in> set ps, k')" "list_view process_registry k' (remove1 p ps)"
  then have "same_threads k k' \<and> (\<forall>q. wq_head q k' = wq_head q k) \<and> g_process_cache k' = g_process_cache k"
    by (auto simp: list_remove_def detach_process_frame bind_eq_Some_conv split: option.splits)
  then show ?thesis using that [of k'] r by (simp add: unlink_process_def)
qed

lemma release_process_inv:
  assumes inv: "kernel_inv k h v" and p: "p \<notin> set (v_processes v)"
    and no: "\<not> has_threads k (v_threads v) p"
  shows "kernel_inv (release_process_record p k) h v"
proof (cases "g_process_cache k")
  case True
  have "v_wait v (Inl (ChildExitQueue p)) = []"
  proof (rule ccontr)
    assume "v_wait v (Inl (ChildExitQueue p)) \<noteq> []"
    then obtain t where "t \<in> set (v_wait v (Inl (ChildExitQueue p)))" by (meson last_in_set)
    then show False using kernel_invD(10,11,12) [OF inv] no by (fastforce simp: has_threads_def)
  qed
  then have "wq_head (ChildExitQueue p) k = None"
    using wq_invD(1) [OF kernel_invD(6) [OF inv], of "Inl (ChildExitQueue p)"] by simp
  then have heads: "wq_head q (upd_process p (\<lambda>_. zero_process) k) = wq_head q k" for q
    by (cases q) (auto simp: upd_process_def zero_process_def)
  have "list_view process_registry (upd_process p (\<lambda>_. zero_process) k) (v_processes v)"
    using kernel_invD(2) [OF inv] p by (subst list_view_cong [of _ _ _ process_registry k]) (auto simp: process_registry_def upd_process_def)
  then have "kernel_inv (upd_process p (\<lambda>_. zero_process) k) h (v\<lparr>v_processes := v_processes v\<rparr>)"
    by (rule kernel_inv_same_threads [OF inv same_threads_upd(1)]) (rule heads)
  then show ?thesis using True by (simp add: release_process_record_def)
qed (use inv in \<open>simp add: release_process_record_def\<close>)

lemma destroy_address_space_frame:
  "same_threads k (snd (destroy_address_space cr3 k))" "wq_head q (snd (destroy_address_space cr3 k)) = wq_head q k"
  "list_view process_registry (snd (destroy_address_space cr3 k)) ps = list_view process_registry k ps"
proof -
  have e: "\<exists>f m n. snd (destroy_address_space cr3 k) = k\<lparr>k_frames := f, k_mem := m, k_shootdowns := n\<rparr>"
    by (auto simp: destroy_address_space_def Let_def split: prod.split)
  show "same_threads k (snd (destroy_address_space cr3 k))" using e by (auto simp: same_threads_def)
  show "wq_head q (snd (destroy_address_space cr3 k)) = wq_head q k" using e by (cases q) auto
  show "list_view process_registry (snd (destroy_address_space cr3 k)) ps = list_view process_registry k ps"
    using e by (auto simp: list_view_def process_registry_def)
qed

lemma reap_process_inv:
  assumes inv: "kernel_inv k h v"
  obtains k' where "reap_process p k = Some (\<not> has_threads k (v_threads v) p, k')" and "same_threads k k'"
    and "kernel_inv k' h (v\<lparr>v_processes := (if has_threads k (v_threads v) p then v_processes v else remove1 p (v_processes v))\<rparr>)"
proof (cases "has_threads k (v_threads v) p")
  case True
  then show ?thesis using that [of k] inv process_has_threads_run [OF inv, of p] by (simp add: reap_process_def)
next
  case False
  define destroys where "destroys \<longleftrightarrow> Some p \<noteq> g_kernel_process k \<and> pr_cr3 (k_processes k p) \<noteq> 0"
  define cr3 where "cr3 = (if destroys then pr_cr3 (k_processes k p) else 0)"
  define k1 where "k1 = (if destroys then upd_process p (\<lambda>x. x\<lparr>pr_cr3 := 0\<rparr>) k else k)"
  have k1: "same_threads k k1" "wq_head q k1 = wq_head q k" "list_view process_registry k1 (v_processes v)" for q
  proof -
    have "preg_part k1 = preg_part k" by (simp add: k1_def)
    then show "list_view process_registry k1 (v_processes v)" using processes_cong kernel_invD(2) [OF inv] by blast
    show "wq_head q k1 = wq_head q k" by (cases q) (simp_all add: k1_def upd_process_def)
  qed (simp add: k1_def)
  obtain k2 where k2: "orphan_children p k1 = Some k2" "same_threads k1 k2" "\<And>q. wq_head q k2 = wq_head q k1" "list_view process_registry k2 (v_processes v)"
    by (rule orphan_children_run [OF k1(3)]) blast
  define k3 where "k3 = (if Some p = g_kernel_process k2 then k2\<lparr>g_kernel_process := None\<rparr> else k2)"
  have k3: "same_threads k2 k3" "wq_head q k3 = wq_head q k2" "list_view process_registry k3 (v_processes v)" for q
  proof -
    show "wq_head q k3 = wq_head q k2" by (cases q) (simp_all add: k3_def)
  qed (use k2(4) in \<open>simp_all add: k3_def same_threads_def list_view_def process_registry_def\<close>)
  obtain k4 where k4: "unlink_process p k3 = Some k4" "same_threads k3 k4" "\<And>q. wq_head q k4 = wq_head q k3" "list_view process_registry k4 (remove1 p (v_processes v))"
    by (rule unlink_process_run [OF k3(3)]) blast
  define k5 where "k5 = (if cr3 \<noteq> 0 \<and> Some p \<noteq> g_kernel_process k2 then snd (destroy_address_space cr3 k4) else k4)"
  have k5: "same_threads k4 k5" "wq_head q k5 = wq_head q k4" "list_view process_registry k5 (remove1 p (v_processes v))" for q
    using k4(4) by (simp_all add: k5_def destroy_address_space_frame)
  have same: "same_threads k k5" using k1(1) k2(2) k3(1) k4(2) k5(1) same_threads_trans by blast
  have "kernel_inv k5 h (v\<lparr>v_processes := remove1 p (v_processes v)\<rparr>)"
    by (rule kernel_inv_same_threads [OF inv same k5(3)]) (simp add: k1 k2 k3 k4 k5)
  moreover have "p \<notin> set (remove1 p (v_processes v))" using list_view_distinct [OF kernel_invD(2) [OF inv]] by simp
  ultimately have "kernel_inv (release_process_record p k5) h (v\<lparr>v_processes := remove1 p (v_processes v)\<rparr>)"
    using False same by (intro release_process_inv) (auto simp: has_threads_def same_threads_def)
  moreover have "reap_process p k = Some (True, release_process_record p k5)"
    using process_has_threads_run [OF inv, of p] False k2(1) k4(1)
    by (simp add: reap_process_def k5_def k3_def k1_def cr3_def destroys_def Let_def cong: if_cong)
  moreover have "same_threads k (release_process_record p k5)"
    using same same_threads_trans same_threads_upd(1) by (auto simp: release_process_record_def)
  ultimately show ?thesis using that False by simp
qed

section \<open>Waiting for a child\<close>

text \<open>The first child of a process that a wait for \<open>pid\<close> accepts.\<close>

definition child_matches :: "kernel \<Rightarrow> process_ref \<Rightarrow> u64 \<Rightarrow> bool \<Rightarrow> process_ref \<Rightarrow> bool" where
  "child_matches k parent pid zombie_only c \<longleftrightarrow>
     pr_parent (k_processes k c) = Some parent \<and> pr_state (k_processes k c) \<noteq> Process_Free \<and>
     pr_state (k_processes k c) \<noteq> Process_Dying \<and> (zombie_only \<longrightarrow> pr_state (k_processes k c) = Process_Zombie) \<and>
     (pid = 0 \<or> pr_pid (k_processes k c) = pid)"

lemma find_child_run:
  assumes "kernel_inv k h v"
  shows "find_child_process_locked parent pid z k = Some (List.find (child_matches k parent pid z) (v_processes v))"
proof -
  obtain prev where "find_from (next_process k) (child_matches k parent pid z) None (first_process k) =
      Some (prev, List.find (child_matches k parent pid z) (v_processes v))"
    using find_from_found [OF process_chain [OF kernel_invD(2) [OF assms]]] by blast
  then show ?thesis by (simp add: find_child_process_locked_def child_matches_def [abs_def] Let_def)
qed

lemma kernel_copy_frame:
  "same_threads k (snd (kernel_copy_to_user t p bs k))" "wq_head q (snd (kernel_copy_to_user t p bs k)) = wq_head q k"
  "k_processes (snd (kernel_copy_to_user t p bs k)) = k_processes k"
  "list_view process_registry (snd (kernel_copy_to_user t p bs k)) ps = list_view process_registry k ps"
proof -
  have e: "\<exists>m r. snd (kernel_copy_to_user t p bs k) = k\<lparr>k_mem := m, k_ring := r\<rparr>"
    by (auto simp: kernel_copy_to_user_def split: prod.split)
  show "same_threads k (snd (kernel_copy_to_user t p bs k))" "k_processes (snd (kernel_copy_to_user t p bs k)) = k_processes k"
    using e by (auto simp: same_threads_def)
  show "wq_head q (snd (kernel_copy_to_user t p bs k)) = wq_head q k" using e by (cases q) auto
  show "list_view process_registry (snd (kernel_copy_to_user t p bs k)) ps = list_view process_registry k ps"
    using e by (auto simp: list_view_def process_registry_def)
qed

lemma finish_wait_inv:
  assumes inv: "kernel_inv k h v"
  obtains r k' ps where "finish_wait t c usp k = Some (r, k')" and "same_threads k k'" and "kernel_inv k' h (v\<lparr>v_processes := ps\<rparr>)"
proof -
  define ck where "ck = (if usp \<noteq> 0 then kernel_copy_to_user t usp (int_bytes (pr_exit_status (k_processes k c))) k else (True, k))"
  have same: "same_threads k (snd ck)" by (simp add: ck_def kernel_copy_frame)
  have "kernel_inv (snd ck) h (v\<lparr>v_processes := v_processes v\<rparr>)"
    by (rule kernel_inv_same_threads [OF inv same]) (use kernel_invD(2) [OF inv] in \<open>auto simp: ck_def kernel_copy_frame\<close>)
  then have inv1: "kernel_inv (snd ck) h v" by simp
  have run: "finish_wait t c usp k = (if \<not> fst ck then Some (NOT 0, snd ck)
      else do { (reaped, k2) \<leftarrow> reap_process c (snd ck); Some (if reaped then pr_pid (k_processes k c) else NOT 0, k2) })"
    by (simp add: finish_wait_def Let_def ck_def split_beta)
  show ?thesis
  proof (cases "fst ck")
    case True
    obtain k2 where "reap_process c (snd ck) = Some (\<not> has_threads (snd ck) (v_threads v) c, k2)" "same_threads (snd ck) k2"
      "\<exists>ps. kernel_inv k2 h (v\<lparr>v_processes := ps\<rparr>)"
      by (rule reap_process_inv [OF inv1, of c]) blast
    then show ?thesis using that run True same_threads_trans [OF same] by auto
  next
    case False
    then show ?thesis using that [of "NOT 0" "snd ck" "v_processes v"] run same inv1 by simp
  qed
qed

lemma try_complete_wait_pid_inv:
  assumes inv: "kernel_inv k h v"
  obtains r k' ps where "try_complete_wait_pid t pid usp k = Some (r, k')" and "same_threads k k'" and "kernel_inv k' h (v\<lparr>v_processes := ps\<rparr>)"
proof (cases "th_process (k_threads k t) = None \<or> bit pid 63")
  case True
  then have "try_complete_wait_pid t pid usp k = Some (Some (NOT 0), k)"
    by (auto simp: try_complete_wait_pid_def split: option.split)
  then show ?thesis using that [of _ k "v_processes v"] inv by simp
next
  case False
  then obtain parent where p: "th_process (k_threads k t) = Some parent" "\<not> bit pid 63" by auto
  show ?thesis
  proof (cases "List.find (child_matches k parent pid True) (v_processes v)")
    case None
    then show ?thesis
      using that [of _ k "v_processes v"] inv p find_child_run [OF inv, of parent pid]
      by (simp add: try_complete_wait_pid_def)
  next
    case (Some c)
    obtain r k' ps where "finish_wait t c usp k = Some (r, k')" "same_threads k k'" "kernel_inv k' h (v\<lparr>v_processes := ps\<rparr>)"
      by (rule finish_wait_inv [OF inv])
    then show ?thesis
      using that [of None k "v_processes v"] that [of "Some r" k' ps] inv p Some
        find_child_run [OF inv, of parent pid] process_has_threads_run [OF inv, of c]
      by (cases "has_threads k (v_threads v) c") (simp_all add: try_complete_wait_pid_def)
  qed
qed

text \<open>Moving the unlinked thread to the end of the list of those that still wait.\<close>

lemma keep_waiting_inv:
  fixes n :: nat
  assumes inv: "kernel_inv k h v" and t: "t \<in> set (v_threads v)" "\<And>i. t \<notin> set (v_wait v i)" "\<And>c. cpu_idle_thread (k_cpus k c) \<noteq> Some t"
    "th_state (k_threads k t) = Thread_Blocked" "th_wait_link (k_threads k t) = None"
  defines "ss \<equiv> v_wait v (Inr n)"
  defines "k' \<equiv> (if ss = [] then k else upd_thread (last ss) (\<lambda>x. x\<lparr>th_wait_link := Some t\<rparr>) k)"
  shows "kernel_inv k' (h(n := if ss = [] then Some t else h n)) (v\<lparr>v_wait := (v_wait v)(Inr n := ss @ [t])\<rparr>)" and "keeps k k'"
    and "\<And>u. th_wait (k_threads k' u) = th_wait (k_threads k u)"
proof -
  let ?W = "(v_wait v)(Inr n := ss @ [t])" and ?h = "h(n := if ss = [] then Some t else h n)"
  have "wq_inv k' ?h ?W"
    unfolding ss_def
    by (rule wq_inv_append [OF kernel_invD(6) [OF inv] t(2)]) (use t(5) in \<open>auto simp: k'_def ss_def wl_head_def split: sum.split\<close>)
  then show "kernel_inv k' ?h (v\<lparr>v_wait := ?W\<rparr>)"
  proof (rule kernel_inv_rewait [OF inv, rotated -3])
    fix i u assume "u \<in> set (?W i)"
    then consider "u = t" | "u \<in> set (v_wait v i)" by (auto simp: ss_def split: if_splits)
    then show "u \<in> set (v_threads v) \<and> th_state (k_threads k u) = Thread_Blocked \<and> (\<forall>d. cpu_idle_thread (k_cpus k d) \<noteq> Some u)"
      using kernel_invD(10,11,14) [OF inv] t by cases blast+
  qed (use kernel_invD(12) [OF inv] in \<open>auto simp: k'_def\<close>)
  show "keeps k k'" "\<And>u. th_wait (k_threads k' u) = th_wait (k_threads k u)" by (auto simp: k'_def keeps_defs)
qed

text \<open>The waking loop: list 0 holds the threads to look at, list 1 those that still wait.\<close>

definition loop_views :: "views \<Rightarrow> views \<Rightarrow> bool" where
  "loop_views v v' \<longleftrightarrow> v_threads v' = v_threads v \<and> v_cpus v' = v_cpus v"

lemma loop_views_simps [simp]: "loop_views v v" "loop_views v (v'\<lparr>v_processes := ps\<rparr>) = loop_views v v'"
  "loop_views v (v'\<lparr>v_runq := Q\<rparr>) = loop_views v v'" "loop_views v (v'\<lparr>v_wait := W\<rparr>) = loop_views v v'"
  by (simp_all add: loop_views_def)

lemma loop_views_trans: "loop_views v v' \<Longrightarrow> loop_views v' v'' \<Longrightarrow> loop_views v v''"
  by (simp add: loop_views_def)

lemma wake_child_step:
  assumes inv: "kernel_inv k h v" and W: "v_wait v (Inr 0) = t # ts"
  obtains k' h' v' where "wake_child_loop (h 0) (h 1) (last_opt (v_wait v (Inr 1))) k =
      wake_child_loop (h' 0) (h' 1) (last_opt (v_wait v' (Inr 1))) k'"
    and "kernel_inv k' h' v'" and "keeps k k'" and "loop_views v v'" and "v_wait v' (Inr 0) = ts"
    and "set (v_wait v' (Inr 1)) \<subseteq> insert t (set (v_wait v (Inr 1)))"
    and "\<And>i. i \<noteq> Inr 0 \<Longrightarrow> i \<noteq> Inr 1 \<Longrightarrow> v_wait v' i = v_wait v i" "\<And>n. 1 < n \<Longrightarrow> h' n = h n"
proof -
  let ?k1 = "upd_thread t (\<lambda>x. x\<lparr>th_wait_link := None\<rparr>) k" and ?h = "h(0 := th_wait_link (k_threads k t))"
  let ?v = "v\<lparr>v_wait := (v_wait v)(Inr 0 := ts)\<rparr>" and ?w = "th_wait (k_threads k t)"
  note u = unlink_waiter_inv [OF inv W]
  obtain r k2 ps where c: "try_complete_wait_pid t (w_word1 ?w) (w_word0 ?w) ?k1 = Some (r, k2)" "same_threads ?k1 k2"
    "kernel_inv k2 ?h (?v\<lparr>v_processes := ps\<rparr>)"
    by (rule try_complete_wait_pid_inv [OF u(1)])
  let ?v2 = "?v\<lparr>v_processes := ps\<rparr>"
  have keep2: "keeps k k2" using keeps_trans [OF u(7) same_threads_keeps [OF c(2)]] .
  have t2: "t \<in> set (v_threads ?v2)" "\<And>i. t \<notin> set (v_wait ?v2 i)" "\<And>c. cpu_idle_thread (k_cpus k2 c) \<noteq> Some t"
    "th_state (k_threads k2 t) = Thread_Blocked" "th_wait_link (k_threads k2 t) = None"
    using u(3,4,5,6) c(2) by (simp_all add: same_threads_def)
  show ?thesis
  proof (cases r)
    case (Some res)
    let ?k3 = "upd_thread t (\<lambda>x. x\<lparr>th_frame := (th_frame x)\<lparr>tf_rax := res\<rparr>\<rparr>) k2"
    have inv3: "kernel_inv ?k3 ?h ?v2" using c(3) by (rule kernel_inv_same) (simp_all add: same_links_def)
    obtain k4 Q where w: "wake_blocked_thread t None ?k3 = Some k4" "kernel_inv k4 ?h (?v2\<lparr>v_runq := Q\<rparr>)" "keeps ?k3 k4"
      by (rule wake_blocked_thread_inv [OF inv3 t2(1,2)]) (use t2 in auto)
    have "keeps k2 ?k3" by (simp add: keeps_defs)
    then have keep: "keeps k k4" using keep2 w(3) keeps_trans by blast
    have run: "wake_child_loop (h 0) (h 1) (last_opt (v_wait v (Inr 1))) k = wake_child_loop (?h 0) (?h 1) (last_opt (v_wait (?v2\<lparr>v_runq := Q\<rparr>) (Inr 1))) k4"
      using u(2) c(1) w(1) Some by (subst wake_child_loop.simps) (simp add: Let_def)
    show ?thesis by (rule that [OF run w(2) keep]) auto
  next
    case None
    let ?ss = "v_wait ?v2 (Inr 1)"
    let ?k3 = "if ?ss = [] then k2 else upd_thread (last ?ss) (\<lambda>x. x\<lparr>th_wait_link := Some t\<rparr>) k2"
    let ?h3 = "?h(1 := if ?ss = [] then Some t else ?h 1)" and ?v3 = "?v2\<lparr>v_wait := (v_wait ?v2)(Inr 1 := ?ss @ [t])\<rparr>"
    note kw = keep_waiting_inv [OF c(3) t2, of 1]
    have "?h 1 = None \<longleftrightarrow> ?ss = []"
      using wq_invD(1) [OF kernel_invD(6) [OF c(3)], of "Inr 1"] by (cases ?ss) auto
    then have run: "wake_child_loop (h 0) (h 1) (last_opt (v_wait v (Inr 1))) k = wake_child_loop (?h3 0) (?h3 1) (last_opt (v_wait ?v3 (Inr 1))) ?k3"
      using u(2) c(1) None by (subst wake_child_loop.simps) (cases "h 1"; auto simp: Let_def last_opt_def)
    have keep: "keeps k ?k3" using keeps_trans [OF keep2 kw(2)] by simp
    show ?thesis by (rule that [OF run kw(1) keep]) auto
  qed
qed

lemma wake_child_loop_inv:
  "kernel_inv k h v \<Longrightarrow> v_wait v (Inr 0) = ts \<Longrightarrow>
   \<exists>k' h' v'. wake_child_loop (h 0) (h 1) (last_opt (v_wait v (Inr 1))) k = Some (h' 1, k') \<and> kernel_inv k' h' v' \<and> keeps k k' \<and>
     loop_views v v' \<and> v_wait v' (Inr 0) = [] \<and> set (v_wait v' (Inr 1)) \<subseteq> set ts \<union> set (v_wait v (Inr 1)) \<and>
     (\<forall>i. i \<noteq> Inr 0 \<and> i \<noteq> Inr 1 \<longrightarrow> v_wait v' i = v_wait v i) \<and> (\<forall>n > 1. h' n = h n)"
proof (induction ts arbitrary: k h v)
  case Nil
  then have "h 0 = None" using wq_invD(1) [OF kernel_invD(6) [OF Nil(1)], of "Inr 0"] by simp
  then have "wake_child_loop (h 0) (h 1) (last_opt (v_wait v (Inr 1))) k = Some (h 1, k)" by (simp add: wake_child_loop.simps)
  then show ?case using Nil by (intro exI [of _ k] exI [of _ h] exI [of _ v]) simp
next
  case (Cons t ts)
  obtain k1 h1 v1 where s: "wake_child_loop (h 0) (h 1) (last_opt (v_wait v (Inr 1))) k =
      wake_child_loop (h1 0) (h1 1) (last_opt (v_wait v1 (Inr 1))) k1"
    "kernel_inv k1 h1 v1" "keeps k k1" "loop_views v v1" "v_wait v1 (Inr 0) = ts" "set (v_wait v1 (Inr 1)) \<subseteq> insert t (set (v_wait v (Inr 1)))"
    "\<And>i. i \<noteq> Inr 0 \<Longrightarrow> i \<noteq> Inr 1 \<Longrightarrow> v_wait v1 i = v_wait v i" "\<And>n. 1 < n \<Longrightarrow> h1 n = h n"
    by (rule wake_child_step [OF Cons.prems]) (rule that)
  obtain k2 h2 v2 where r: "wake_child_loop (h1 0) (h1 1) (last_opt (v_wait v1 (Inr 1))) k1 = Some (h2 1, k2)"
    "kernel_inv k2 h2 v2" "keeps k1 k2" "loop_views v1 v2" "v_wait v2 (Inr 0) = []" "set (v_wait v2 (Inr 1)) \<subseteq> set ts \<union> set (v_wait v1 (Inr 1))"
    "\<And>i. i \<noteq> Inr 0 \<Longrightarrow> i \<noteq> Inr 1 \<Longrightarrow> v_wait v2 i = v_wait v1 i" "\<And>n. 1 < n \<Longrightarrow> h2 n = h1 n"
    using Cons.IH [OF s(2,5)] by blast
  have "set (v_wait v2 (Inr 1)) \<subseteq> set (t # ts) \<union> set (v_wait v (Inr 1))" using r(6) s(6) by auto
  moreover have "keeps k k2" "loop_views v v2" using keeps_trans [OF s(3) r(3)] loop_views_trans [OF s(4) r(4)] by blast+
  ultimately show ?case
    using s(1) r(1,2,5,7,8) s(7,8) by (intro exI [of _ k2] exI [of _ h2] exI [of _ v2]) simp
qed

text \<open>A blocked thread that waits nowhere joins a wait queue.\<close>

lemma enqueue_wait_inv:
  assumes inv: "kernel_inv k h v" and t: "t \<in> set (v_threads v)" "\<And>i. t \<notin> set (v_wait v i)" "\<And>c. cpu_idle_thread (k_cpus k c) \<noteq> Some t"
    "th_state (k_threads k t) = Thread_Blocked" and owner: "\<And>p. q = ChildExitQueue p \<Longrightarrow> th_process (k_threads k t) = Some p"
  obtains k' where "wait_queue_enqueue_locked q t k = Some k'"
    and "kernel_inv k' h (v\<lparr>v_wait := (v_wait v)(Inl q := v_wait v (Inl q) @ [t])\<rparr>)" and "keeps k k'"
    and "\<And>u. th_state (k_threads k' u) = th_state (k_threads k u)"
proof -
  let ?W = "(v_wait v)(Inl q := v_wait v (Inl q) @ [t])"
  obtain k' where e: "wait_queue_enqueue_locked q t k = Some k'" "wq_inv k' h ?W"
    "reg_part k' = reg_part k" "preg_part k' = preg_part k" "ring_part k' = ring_part k" "rq_part k' = rq_part k"
    "g_last_user_thread_cpu k' = g_last_user_thread_cpu k" "run_part k' = run_part k"
    "\<And>u. th_process (k_threads k' u) = th_process (k_threads k u)" "\<And>u. th_state (k_threads k' u) = th_state (k_threads k u)"
    "k_completion_done k' = k_completion_done k"
    by (rule wait_queue_enqueue_run [OF kernel_invD(6) [OF inv] t(2)]) (rule that)
  have "kernel_inv k' h (v\<lparr>v_wait := ?W\<rparr>)"
  proof (rule kernel_inv_rewait [OF inv e(3-10) e(2)])
    fix j x assume "x \<in> set (?W j)"
    then consider "x = t" | "x \<in> set (v_wait v j)" by (auto split: if_splits)
    then show "x \<in> set (v_threads v) \<and> th_state (k_threads k x) = Thread_Blocked \<and> (\<forall>d. cpu_idle_thread (k_cpus k d) \<noteq> Some x)"
      using kernel_invD(10,11,14) [OF inv] t by cases blast+
  next
    fix r x assume x: "x \<in> set (?W (Inl (ChildExitQueue r)))"
    then consider "x = t" "q = ChildExitQueue r" | "x \<in> set (v_wait v (Inl (ChildExitQueue r)))" by (auto split: if_splits)
    then show "th_process (k_threads k x) = Some r" using owner kernel_invD(12) [OF inv] by cases auto
  qed
  moreover have "keeps k k'" using e(5,8-11) by (simp add: keeps_defs)
  ultimately show ?thesis using that e(1,10) by blast
qed

lemma requeue_loop_inv:
  "kernel_inv k h v \<Longrightarrow> v_wait v (Inr 1) = ts \<Longrightarrow> (\<forall>t \<in> set ts. th_process (k_threads k t) = Some p) \<Longrightarrow>
   \<exists>k' v'. requeue_loop p (h 1) k = Some k' \<and> kernel_inv k' (h(1 := None)) v' \<and> keeps k k' \<and> loop_views v v' \<and>
     v_wait v' (Inr 1) = [] \<and> (\<forall>i. i \<noteq> Inl (ChildExitQueue p) \<and> i \<noteq> Inr 1 \<longrightarrow> v_wait v' i = v_wait v i)"
proof (induction ts arbitrary: k h v)
  case Nil
  then have "h 1 = None" using wq_invD(1) [OF kernel_invD(6) [OF Nil(1)], of "Inr 1"] by simp
  then have "requeue_loop p (h 1) k = Some k" "h(1 := None) = h" by (auto simp: requeue_loop.simps)
  then show ?case using Nil by (intro exI [of _ k] exI [of _ v]) simp
next
  case (Cons t ts)
  let ?k1 = "upd_thread t (\<lambda>x. x\<lparr>th_wait_link := None\<rparr>) k" and ?h = "h(1 := th_wait_link (k_threads k t))"
  let ?v = "v\<lparr>v_wait := (v_wait v)(Inr 1 := ts)\<rparr>" and ?i = "Inl (ChildExitQueue p)"
  note u = unlink_waiter_inv [OF Cons.prems(1,2)]
  let ?W = "(v_wait ?v)(?i := v_wait ?v ?i @ [t])"
  have nw: "t \<notin> set (v_wait ?v j)" and reg: "t \<in> set (v_threads ?v)" for j using u(3,4) by simp_all
  have owner: "ChildExitQueue p = ChildExitQueue r \<Longrightarrow> th_process (k_threads ?k1 t) = Some r" for r using Cons.prems(3) by simp
  obtain k2 where e: "wait_queue_enqueue_locked (ChildExitQueue p) t ?k1 = Some k2" "kernel_inv k2 ?h (?v\<lparr>v_wait := ?W\<rparr>)" "keeps ?k1 k2"
    by (rule enqueue_wait_inv [OF u(1) reg nw u(6,5) owner])
  have "\<forall>t \<in> set ts. th_process (k_threads k2 t) = Some p" using e(3) Cons.prems(3) by (simp add: keeps_defs)
  then obtain k3 v3 where r: "requeue_loop p (?h 1) k2 = Some k3" "kernel_inv k3 (?h(1 := None)) v3" "keeps k2 k3"
    "loop_views (?v\<lparr>v_wait := ?W\<rparr>) v3" "v_wait v3 (Inr 1) = []"
    "\<And>j. j \<noteq> ?i \<Longrightarrow> j \<noteq> Inr 1 \<Longrightarrow> v_wait v3 j = v_wait (?v\<lparr>v_wait := ?W\<rparr>) j"
    using Cons.IH [of k2 ?h "?v\<lparr>v_wait := ?W\<rparr>"] e(2) by (simp del: fun_upd_apply) auto
  have "keeps k k3" using u(7) e(3) r(3) keeps_trans by blast
  moreover have "requeue_loop p (h 1) k = Some k3"
    using u(2) e(1) r(1) by (subst requeue_loop.simps) simp
  moreover have "loop_views v v3" using loop_views_trans [OF _ r(4), of v] by simp
  moreover have "kernel_inv k3 (h(1 := None)) v3" using r(2) by (simp only: fun_upd_upd)
  moreover have "v_wait v3 j = v_wait v j" if "j \<noteq> ?i" "j \<noteq> Inr 1" for j using r(6) [OF that] that by simp
  ultimately show ?case using r(5) by blast
qed

lemma no_detached: "kernel_inv k (\<lambda>_. None) v \<Longrightarrow> v_wait v (Inr n) = []"
  using wq_invD(1) [OF kernel_invD(6), of k "\<lambda>_. None" v "Inr n"] by (cases "v_wait v (Inr n)") auto

lemma dequeue_all_inv:
  fixes q :: wait_queue
  assumes inv: "kernel_inv k (\<lambda>_. None) v"
  defines "W \<equiv> (v_wait v)(Inl q := [], Inr 0 := v_wait v (Inl q))"
  shows "kernel_inv (wq_set_head q None k) ((\<lambda>_. None)(0 := wq_head q k)) (v\<lparr>v_wait := W\<rparr>)" and "keeps k (wq_set_head q None k)"
proof -
  note d = no_detached [OF inv]
  have dis: "set (W i) \<inter> set (W j) = {}" if "i \<noteq> j" for i j
    using wq_invD(2) [OF kernel_invD(6) [OF inv]] that d by (auto simp: W_def)
  have "chain (\<lambda>t. th_wait_link (k_threads k t)) (wl_head ((\<lambda>_. None)(0 := wq_head q k)) (wq_set_head q None k) i) (W i)" for i
    using wq_invD(1) [OF kernel_invD(6) [OF inv], of i] wq_invD(1) [OF kernel_invD(6) [OF inv], of "Inl q"] d
    by (auto simp: W_def wl_head_def split: sum.split)
  with dis have "wq_inv (wq_set_head q None k) ((\<lambda>_. None)(0 := wq_head q k)) W" by (simp add: wq_inv_def)
  then show "kernel_inv (wq_set_head q None k) ((\<lambda>_. None)(0 := wq_head q k)) (v\<lparr>v_wait := W\<rparr>)"
  proof (rule kernel_inv_rewait [OF inv, rotated -3])
    fix i t assume "t \<in> set (W i)"
    then obtain j where "t \<in> set (v_wait v j)" by (auto simp: W_def split: if_splits)
    then show "t \<in> set (v_threads v) \<and> th_state (k_threads k t) = Thread_Blocked \<and> (\<forall>d. cpu_idle_thread (k_cpus k d) \<noteq> Some t)"
      using kernel_invD(10,11,14) [OF inv] by blast
  qed (use kernel_invD(12) [OF inv] in \<open>auto simp: W_def split: if_splits\<close>)
  show "keeps k (wq_set_head q None k)" by (cases q) (auto simp: keeps_defs, auto simp: part_defs)
qed

lemma wake_child_waiters_inv:
  assumes inv: "kernel_inv k (\<lambda>_. None) v"
  obtains k' v' where "wake_child_waiters parent k = Some k'" and "kernel_inv k' (\<lambda>_. None) v'" and "keeps k k'" and "loop_views v v'"
    and "\<And>q. (\<forall>p. q \<noteq> ChildExitQueue p) \<Longrightarrow> v_wait v' (Inl q) = v_wait v (Inl q)"
proof (cases parent)
  case None
  then show ?thesis using that [of k v] inv by (simp add: wake_child_waiters_def)
next
  case (Some p)
  let ?q = "ChildExitQueue p" and ?h = "(\<lambda>_. None)(0 := wq_head (ChildExitQueue p) k)"
  let ?k1 = "wq_set_head ?q None k" and ?v1 = "v\<lparr>v_wait := (v_wait v)(Inl ?q := [], Inr 0 := v_wait v (Inl ?q))\<rparr>"
  note d = dequeue_all_inv [OF inv, of ?q]
  have "v_wait ?v1 (Inr 0) = v_wait v (Inl ?q)" "v_wait ?v1 (Inr 1) = []" using no_detached [OF inv, of 1] by auto
  with wake_child_loop_inv [OF d(1) this(1)] obtain k2 h2 v2 where w: "wake_child_loop (wq_head ?q k) None None ?k1 = Some (h2 1, k2)"
    "kernel_inv k2 h2 v2" "keeps ?k1 k2" "loop_views ?v1 v2" "v_wait v2 (Inr 0) = []" "set (v_wait v2 (Inr 1)) \<subseteq> set (v_wait v (Inl ?q))"
    "\<forall>n > 1. h2 n = None" "\<forall>i. i \<noteq> Inr 0 \<and> i \<noteq> Inr 1 \<longrightarrow> v_wait v2 i = v_wait ?v1 i"
    by (auto simp del: wq_set_head.simps wq_head.simps)
  have "h2 0 = None" using wq_invD(1) [OF kernel_invD(6) [OF w(2)], of "Inr 0"] w(5) by simp
  then have h: "h2(1 := None) = (\<lambda>_. None)" using w(7) by (auto simp: fun_eq_iff) (metis One_nat_def less_one linorder_neqE_nat)
  have "th_process (k_threads k2 t) = Some p" if "t \<in> set (v_wait v2 (Inr 1))" for t
    using kernel_invD(12) [OF inv] w(6) that keeps_trans [OF d(2) w(3)] by (auto simp: keeps_defs)
  then obtain k3 v3 where r: "requeue_loop p (h2 1) k2 = Some k3" "kernel_inv k3 (h2(1 := None)) v3" "keeps k2 k3" "loop_views v2 v3"
    "\<forall>i. i \<noteq> Inl ?q \<and> i \<noteq> Inr 1 \<longrightarrow> v_wait v3 i = v_wait v2 i"
    using requeue_loop_inv [OF w(2) refl, of p] by blast
  have "wake_child_waiters parent k = Some k3"
    using Some w(1) r(1) by (simp add: wake_child_waiters_def wait_queue_dequeue_all_locked_def del: wq_set_head.simps wq_head.simps)
  moreover have "keeps k k3" using keeps_trans [OF keeps_trans [OF d(2) w(3)] r(3)] .
  moreover have "loop_views v v3" using loop_views_trans [OF w(4) r(4)] by (simp add: loop_views_def)
  moreover have "v_wait v3 (Inl q) = v_wait v (Inl q)" if "\<forall>p. q \<noteq> ChildExitQueue p" for q using r(5) w(8) that by simp
  ultimately show ?thesis using that r(2) unfolding h by blast
qed

section \<open>Removing a thread\<close>

text \<open>Threads other than those of \<open>S\<close> keep their owner and whether they are dying; only blocked ones change state; the CPUs keep what they run.\<close>

definition spares :: "thread_ref set \<Rightarrow> kernel \<Rightarrow> kernel \<Rightarrow> bool" where
  "spares S k k' \<longleftrightarrow> ring_part k' = ring_part k \<and> (\<forall>c. cpu_current_thread (k_cpus k' c) = cpu_current_thread (k_cpus k c)) \<and>
     (\<forall>u. u \<notin> S \<longrightarrow> th_process (k_threads k' u) = th_process (k_threads k u) \<and>
        (th_state (k_threads k' u) = Thread_Dying \<longleftrightarrow> th_state (k_threads k u) = Thread_Dying) \<and>
        (th_state (k_threads k u) \<noteq> Thread_Blocked \<longrightarrow> th_state (k_threads k' u) = th_state (k_threads k u))) \<and>
     (\<forall>c. cpu_idle_thread (k_cpus k c) \<notin> Some ` S \<longrightarrow> cpu_idle_thread (k_cpus k' c) = cpu_idle_thread (k_cpus k c)) \<and>
     (\<forall>c. cpu_idle_thread (k_cpus k' c) \<in> {None, cpu_idle_thread (k_cpus k c)}) \<and>
     k_completion_done k' = k_completion_done k"

lemma spares_trans: "spares S k k' \<Longrightarrow> spares T k' k'' \<Longrightarrow> spares (S \<union> T) k k''"
  unfolding spares_def image_Un by (auto, metis)

lemma spares_keeps: "spares S k k' \<Longrightarrow> keeps k' k'' \<Longrightarrow> spares S k k''"
  by (auto simp: spares_def keeps_defs run_part_def fun_eq_iff)

lemma clear_idle_run:
  fixes t :: thread_ref
  assumes inv: "kernel_inv k h v"
  defines "f \<equiv> \<lambda>c. upd_cpu c (\<lambda>x. if Some t = cpu_idle_thread x then x\<lparr>cpu_idle_thread := None\<rparr> else x)"
  obtains k' where "fold_from (\<lambda>k c. cpu_next (k_cpus k c)) f (g_cpu_boot k) k = Some k'" and "kernel_inv k' h v"
    and "k_threads k' = k_threads k" and "ring_part k' = ring_part k" and "\<And>c. cpu_current_thread (k_cpus k' c) = cpu_current_thread (k_cpus k c)"
    and "k_processes k' = k_processes k" and "g_thread_cache k' = g_thread_cache k" and "k_completion_done k' = k_completion_done k"
    and "\<And>c. cpu_idle_thread (k_cpus k c) \<noteq> Some t \<Longrightarrow> cpu_idle_thread (k_cpus k' c) = cpu_idle_thread (k_cpus k c)"
    and "\<And>c. cpu_idle_thread (k_cpus k' c) \<in> {None, cpu_idle_thread (k_cpus k c)}"
proof -
  have "fold_from (\<lambda>k c. cpu_next (k_cpus k c)) f (g_cpu_boot k) k = Some (fold f (v_cpus v) k)"
    by (rule fold_from_chain) (use kernel_invD(3) [OF inv] in \<open>auto simp: ring_inv_def f_def\<close>)
  moreover have "rq_part (fold f cs k) = rq_part k \<and> reg_part (fold f cs k) = reg_part k \<and> preg_part (fold f cs k) = preg_part k \<and>
      ring_part (fold f cs k) = ring_part k \<and> wq_part (fold f cs k) = wq_part k \<and> k_threads (fold f cs k) = k_threads k \<and>
      k_processes (fold f cs k) = k_processes k \<and> g_last_user_thread_cpu (fold f cs k) = g_last_user_thread_cpu k \<and>
      g_thread_cache (fold f cs k) = g_thread_cache k \<and> k_completion_done (fold f cs k) = k_completion_done k \<and>
      (\<forall>c. cpu_current_thread (k_cpus (fold f cs k) c) = cpu_current_thread (k_cpus k c))" for cs
  proof (induction cs arbitrary: k)
    case (Cons c cs)
    have "g_thread_cache (f c k) = g_thread_cache k" by (simp add: f_def upd_cpu_def)
    then show ?case using Cons.IH [of "f c k"] by (auto simp: f_def split: if_splits)
  qed simp
  note this [of "v_cpus v"]
  moreover have idle: "cpu_idle_thread (k_cpus (fold f cs k) c) =
      (if c \<in> set cs \<and> cpu_idle_thread (k_cpus k c) = Some t then None else cpu_idle_thread (k_cpus k c))" for cs c
    by (induction cs arbitrary: k) (auto simp: f_def)
  moreover have "kernel_inv (fold f (v_cpus v) k) h v"
  proof -
    let ?k = "fold f (v_cpus v) k"
    have "list_view thread_registry ?k (v_threads v)" "list_view process_registry ?k (v_processes v)"
      "ring_inv ?k (v_cpus v)" "rq_inv ?k (v_runq v)" "wq_inv ?k h (v_wait v)"
      using inv \<open>rq_part ?k = rq_part k \<and> _\<close> registry_cong [of ?k k] processes_cong [of ?k k] ring_inv_cong [of ?k k] rq_inv_cong [of ?k k] wq_inv_cong [of ?k k]
      by (auto simp: kernel_inv_def)
    moreover have "(\<forall>d. u \<notin> set (v_runq v d)) \<and> (\<forall>i. u \<notin> set (v_wait v i))" if "cpu_idle_thread (k_cpus ?k c) = Some u" for c u
      using kernel_invD(13,14) [OF inv, of c u] that by (auto simp: idle split: if_splits)
    ultimately show ?thesis
      using inv \<open>rq_part ?k = rq_part k \<and> _\<close> unfolding kernel_inv_def by simp
  qed
  moreover have "cpu_idle_thread (k_cpus (fold f (v_cpus v) k) c) = cpu_idle_thread (k_cpus k c)" if "cpu_idle_thread (k_cpus k c) \<noteq> Some t" for c
    using that by (simp add: idle)
  moreover have "cpu_idle_thread (k_cpus (fold f (v_cpus v) k) c) \<in> {None, cpu_idle_thread (k_cpus k c)}" for c
    by (simp add: idle)
  ultimately show ?thesis using that by blast
qed

lemma detach_thread_frame:
  "rq_part (list_detach thread_registry prev t k) = rq_part k" "preg_part (list_detach thread_registry prev t k) = preg_part k"
  "ring_part (list_detach thread_registry prev t k) = ring_part k" "wq_part (list_detach thread_registry prev t k) = wq_part k"
  "run_part (list_detach thread_registry prev t k) = run_part k" "k_processes (list_detach thread_registry prev t k) = k_processes k"
  "g_last_user_thread_cpu (list_detach thread_registry prev t k) = g_last_user_thread_cpu k"
  "g_thread_cache (list_detach thread_registry prev t k) = g_thread_cache k"
  "k_completion_done (list_detach thread_registry prev t k) = k_completion_done k"
  "th_process (k_threads (list_detach thread_registry prev t k) u) = th_process (k_threads k u)"
  "th_state (k_threads (list_detach thread_registry prev t k) u) = th_state (k_threads k u)"
proof -
  have "wq_head q (list_detach thread_registry prev t k) = wq_head q k" for q
    by (cases prev; cases q) (simp_all add: list_detach_def thread_registry_def Let_def upd_thread_def)
  then show "wq_part (list_detach thread_registry prev t k) = wq_part k"
    by (cases prev) (auto simp: wq_part_def list_detach_def thread_registry_def Let_def upd_thread_def fun_eq_iff)
qed (cases prev; auto simp: part_defs list_detach_def thread_registry_def Let_def upd_thread_def fun_eq_iff)+

lemma forget_thread_inv:
  assumes inv: "kernel_inv k h v" and t: "\<And>c. t \<notin> set (v_runq v c)" "\<And>i. t \<notin> set (v_wait v i)"
  obtains k' where "map_option (release_thread_record t) (unlink_thread t k) = Some k'"
    and "kernel_inv k' h (v\<lparr>v_threads := remove1 t (v_threads v)\<rparr>)" and "spares {t} k k'"
    and "k_processes k' = k_processes k"
proof (rule reg.remove_view [OF kernel_invD(1) [OF inv], of t])
  fix k1 assume r: "list_remove thread_registry t k = Some (t \<in> set (v_threads v), k1)" "list_view thread_registry k1 (remove1 t (v_threads v))"
  let ?k' = "release_thread_record t k1" and ?v' = "v\<lparr>v_threads := remove1 t (v_threads v)\<rparr>"
  have f: "rq_part k1 = rq_part k" "preg_part k1 = preg_part k" "ring_part k1 = ring_part k" "wq_part k1 = wq_part k" "run_part k1 = run_part k"
    "k_processes k1 = k_processes k" "g_last_user_thread_cpu k1 = g_last_user_thread_cpu k"
    "th_process (k_threads k1 u) = th_process (k_threads k u)" "th_state (k_threads k1 u) = th_state (k_threads k u)"
    "k_completion_done k1 = k_completion_done k" for u
    using r(1) by (auto simp: list_remove_def detach_thread_frame bind_eq_Some_conv split: option.splits)
  have "t \<notin> set (remove1 t (v_threads v))" using list_view_distinct [OF kernel_invD(1) [OF inv]] by simp
  then have "list_view thread_registry ?k' (remove1 t (v_threads v))"
    using r(2) by (subst list_view_cong [of _ _ _ thread_registry k1]) (auto simp: thread_registry_def release_thread_record_def upd_thread_def)
  moreover have "rq_inv ?k' (v_runq v)"
  proof -
    have rq: "rq_inv k1 (v_runq v)" using kernel_invD(5) [OF inv] rq_inv_cong [OF f(1)] by blast
    have "list_view (run_queue c) ?k' (v_runq v c) = list_view (run_queue c) k1 (v_runq v c)" for c
      using t(1) by (intro list_view_cong) (auto simp: run_queue_def release_thread_record_def)
    then show ?thesis
      using rq t(1) not_queued [OF rq, of t] unfolding rq_inv_def lists_view_def
      by (auto simp: release_thread_record_def zero_thread_def)
  qed
  moreover have "wq_inv ?k' h (v_wait v)"
  proof -
    have wq: "wq_inv k1 h (v_wait v)" using kernel_invD(6) [OF inv] wq_inv_cong [OF f(4)] by blast
    have "wl_head h ?k' i = wl_head h k1 i" for i by (cases i) (simp_all add: release_thread_record_def)
    moreover have "th_wait_link (k_threads ?k' u) = th_wait_link (k_threads k1 u)" if "u \<in> set (v_wait v i)" for u i
      using t(2) that by (auto simp: release_thread_record_def)
    ultimately have "chain (\<lambda>u. th_wait_link (k_threads ?k' u)) (wl_head h ?k' i) (v_wait v i)" for i
      using wq_invD(1) [OF wq, of i] by (subst chain_cong [of _ _ "\<lambda>u. th_wait_link (k_threads k1 u)"]) auto
    then show ?thesis using wq unfolding wq_inv_def by blast
  qed
  moreover have "list_view process_registry ?k' (v_processes v)" "ring_inv ?k' (v_cpus v)"
    using kernel_invD(2,3) [OF inv] processes_cong [OF f(2)] ring_inv_cong [OF f(3)]
    by (auto simp: release_thread_record_def processes_cong [OF upd_thread_part(3)] ring_inv_cong [OF upd_thread_part(4)])
  moreover have idle: "cpu_idle_thread (k_cpus ?k' c) = cpu_idle_thread (k_cpus k c)" "cpu_current_thread (k_cpus ?k' c) = cpu_current_thread (k_cpus k c)" for c
    using f(5) by (auto simp: run_part_def release_thread_record_def fun_eq_iff)
  moreover have o: "th_process (k_threads ?k' u) = th_process (k_threads k u)" "th_state (k_threads ?k' u) = th_state (k_threads k u)" if "u \<noteq> t" for u
    using that f(8,9) by (auto simp: release_thread_record_def)
  moreover have "g_last_user_thread_cpu ?k' = g_last_user_thread_cpu k" using f(7) by (simp add: release_thread_record_def)
  moreover have mem: "u \<in> set (remove1 t (v_threads v))" if "u \<in> set (v_threads v)" "u \<noteq> t" for u
    using that by (simp add: in_set_remove1)
  moreover have "u \<in> set (remove1 t (v_threads v)) \<and> th_state (k_threads ?k' u) = Thread_Ready" if "u \<in> set (v_runq v c)" for u c
    using kernel_invD(8,9) [OF inv that] mem o(2) t(1) that by metis
  moreover have "u \<in> set (remove1 t (v_threads v)) \<and> th_state (k_threads ?k' u) = Thread_Blocked" if "u \<in> set (v_wait v i)" for u i
    using kernel_invD(10,11) [OF inv that] mem o(2) t(2) that by metis
  moreover have "th_process (k_threads ?k' u) = Some p" if "u \<in> set (v_wait v (Inl (ChildExitQueue p)))" for u p
    using kernel_invD(12) [OF inv that] o(1) t(2) that by metis
  moreover have "0 \<notin> set (remove1 t (v_threads v))" using kernel_invD(7) [OF inv] notin_set_remove1 by fast
  moreover note kernel_invD(4,13,14) [OF inv]
  ultimately have "kernel_inv ?k' h ?v'" unfolding kernel_inv_def by simp
  moreover have "spares {t} k ?k'"
    using f(3) idle o f(10) by (simp add: spares_def release_thread_record_def)
  ultimately show ?thesis using that [of ?k'] r(1) f(6) by (simp add: unlink_thread_def release_thread_record_def)
qed

end
