(* ===== verification/Reaper_Spec.thy ===== *)
theory Reaper_Spec
  imports Process_Inv
begin

text \<open>
  The reaper of \<^verbatim>\<open>proc/reaper.cpp\<close> ends and removes exactly the dead threads. Waking the waiters of a
  queue wakes each of them once, in order.
\<close>

section \<open>The reaper\<close>

definition dead :: "kernel \<Rightarrow> cpu_ref list \<Rightarrow> thread_ref \<Rightarrow> bool" where
  "dead k cs t \<longleftrightarrow> th_state (k_threads k t) = Thread_Dying \<and> (\<forall>c \<in> set cs. cpu_current_thread (k_cpus k c) \<noteq> Some t)"

lemma thread_is_current_run:
  assumes "ring_inv k cs"
  shows "thread_is_current_on_any_cpu k t = Some (\<exists>c \<in> set cs. cpu_current_thread (k_cpus k c) = Some t)"
proof -
  let ?P = "\<lambda>c. cpu_current_thread (k_cpus k c) = Some t"
  obtain prev where "find_from (\<lambda>c. cpu_next (k_cpus k c)) ?P None (g_cpu_boot k) = Some (prev, List.find ?P cs)"
    using find_from_found [of "\<lambda>c. cpu_next (k_cpus k c)" "g_cpu_boot k" cs ?P None] assms by (auto simp: ring_inv_def)
  moreover have "List.find ?P cs \<noteq> None \<longleftrightarrow> (\<exists>c \<in> set cs. ?P c)" by (auto simp: find_None_iff)
  ultimately show ?thesis by (simp add: thread_is_current_on_any_cpu_def)
qed

lemma find_dead_run:
  assumes ring: "ring_inv k cs"
  shows "chain (next_thread k) cur ts \<Longrightarrow> find_dead_thread k cur = Some (List.find (dead k cs) ts)"
proof (induction ts arbitrary: cur)
  case Nil
  then show ?case by (simp add: find_dead_thread.simps)
next
  case (Cons t ts)
  then show ?case
    by (subst find_dead_thread.simps) (auto simp: thread_is_current_run [OF ring] dead_def [abs_def])
qed

lemma free_stack_frame: "\<exists>f. free_stack base k = k\<lparr>k_frames := f\<rparr>"
proof -
  have "\<exists>f. fold (\<lambda>page k. k\<lparr>k_frames := snd (pf_free (k_frames k) (base + of_nat page * kPageSize))\<rparr>) ps k = k\<lparr>k_frames := f\<rparr>" for ps
  proof (induction ps arbitrary: k)
    case Nil
    then show ?case by (intro exI [of _ "k_frames k"]) simp
  next
    case (Cons p ps)
    from Cons.IH [of "k\<lparr>k_frames := snd (pf_free (k_frames k) (base + of_nat p * kPageSize))\<rparr>"] show ?case by auto
  qed
  then show ?thesis by (simp add: free_stack_def)
qed

lemma free_stack_inv: "kernel_inv k h v \<Longrightarrow> kernel_inv (free_stack base k) h v" and free_stack_same: "same_threads k (free_stack base k)"
  and free_stack_processes: "k_processes (free_stack base k) = k_processes k"
proof -
  obtain f where f: "free_stack base k = k\<lparr>k_frames := f\<rparr>" using free_stack_frame by blast
  show same: "same_threads k (free_stack base k)" by (simp add: f same_threads_def)
  show "k_processes (free_stack base k) = k_processes k" by (simp add: f)
  assume inv: "kernel_inv k h v"
  have "wq_head q (k\<lparr>k_frames := f\<rparr>) = wq_head q k" for q by (cases q) simp_all
  then have "kernel_inv (free_stack base k) h (v\<lparr>v_processes := v_processes v\<rparr>)"
    using kernel_invD(2) [OF inv] by (intro kernel_inv_same_threads [OF inv same]) (auto simp: f list_view_def process_registry_def)
  then show "kernel_inv (free_stack base k) h v" by simp
qed

lemma clear_thread_inv:
  assumes inv: "kernel_inv k h v" and st: "th_state (k_threads k t) = Thread_Dying"
  obtains k' where "clear_thread t k = Some k'" and "kernel_inv k' h (v\<lparr>v_threads := remove1 t (v_threads v)\<rparr>)" and "spares {t} k k'"
    and "k_processes k' = k_processes k"
proof -
  have q: "t \<notin> set (v_runq v c)" and w: "t \<notin> set (v_wait v i)" for c i
    using kernel_invD(9,11) [OF inv] st by fastforce+
  have d: "dequeue_thread_if_queued t k = Some k"
    using not_queued [OF kernel_invD(5) [OF inv], of t] q by (simp add: dequeue_thread_if_queued_def)
  obtain k2 where k2: "fold_from (\<lambda>k c. cpu_next (k_cpus k c))
      (\<lambda>c. upd_cpu c (\<lambda>x. if Some t = cpu_idle_thread x then x\<lparr>cpu_idle_thread := None\<rparr> else x)) (g_cpu_boot k) k = Some k2"
    "kernel_inv k2 h v" "k_threads k2 = k_threads k" "ring_part k2 = ring_part k"
    "\<And>c. cpu_current_thread (k_cpus k2 c) = cpu_current_thread (k_cpus k c)" "k_processes k2 = k_processes k"
    "k_completion_done k2 = k_completion_done k"
    "\<And>c. cpu_idle_thread (k_cpus k c) \<noteq> Some t \<Longrightarrow> cpu_idle_thread (k_cpus k2 c) = cpu_idle_thread (k_cpus k c)"
    "\<And>c. cpu_idle_thread (k_cpus k2 c) \<in> {None, cpu_idle_thread (k_cpus k c)}"
    by (rule clear_idle_run [OF inv, of t]) (rule that)
  obtain k3 where k3: "map_option (release_thread_record t) (unlink_thread t k2) = Some k3"
    "kernel_inv k3 h (v\<lparr>v_threads := remove1 t (v_threads v)\<rparr>)" "spares {t} k2 k3" "k_processes k3 = k_processes k2"
    by (rule forget_thread_inv [OF k2(2) q w])
  have "clear_thread t k = Some k3" using d k2(1) k3(1) by (auto simp: clear_thread_def)
  moreover have "spares {t} k k2" using k2(3,4,5,7,8,9) by (auto simp: spares_def)
  then have "spares {t} k k3" using spares_trans [OF _ k3(3), of "{t}" k] by simp
  ultimately show ?thesis using that k3(2,4) k2(6) by simp
qed

text \<open>Reaping leaves the wait queues alone, but for the waits for a child.\<close>

definition same_waits :: "views \<Rightarrow> views \<Rightarrow> bool" where
  "same_waits v v' \<longleftrightarrow> (\<forall>q. (\<forall>p. q \<noteq> ChildExitQueue p) \<longrightarrow> v_wait v' (Inl q) = v_wait v (Inl q))"

lemma same_waits_trans: "same_waits v v' \<Longrightarrow> same_waits v' v'' \<Longrightarrow> same_waits v v''"
  by (simp add: same_waits_def)

lemma reap_thread_inv:
  assumes inv: "kernel_inv k (\<lambda>_. None) v" and st: "th_state (k_threads k t) = Thread_Dying"
  obtains k' v' where "reap_thread t k = Some k'" and "kernel_inv k' (\<lambda>_. None) v'" and "spares {t} k k'"
    and "v_threads v' = remove1 t (v_threads v)" "v_cpus v' = v_cpus v" "same_waits v v'"
proof -
  let ?k1 = "free_stack (th_kernel_stack_base (k_threads k t)) k"
  have st1: "th_state (k_threads ?k1 t) = Thread_Dying" using st free_stack_same by (simp add: same_threads_def)
  obtain k2 where k2: "clear_thread t ?k1 = Some k2" "kernel_inv k2 (\<lambda>_. None) (v\<lparr>v_threads := remove1 t (v_threads v)\<rparr>)"
    "spares {t} ?k1 k2"
    by (rule clear_thread_inv [OF free_stack_inv [OF inv] st1]) blast
  have d: "k_completion_done ?k1 = k_completion_done k" using free_stack_frame [of "th_kernel_stack_base (k_threads k t)" k] by auto
  have sp: "spares {t} k k2" using k2(3) free_stack_same [of k] d by (simp add: spares_def same_threads_def ring_part_def)
  let ?v = "v\<lparr>v_threads := remove1 t (v_threads v)\<rparr>"
  show ?thesis
  proof (cases "th_process (k_threads ?k1 t)")
    case None
    then show ?thesis using that [of k2 ?v] k2 sp by (simp add: reap_thread_def Let_def same_waits_def)
  next
    case (Some owner)
    note busy = process_has_threads_run [OF k2(2), of owner]
    obtain k3 v3 where w: "wake_child_waiters (pr_parent (k_processes k2 owner)) k2 = Some k3" "kernel_inv k3 (\<lambda>_. None) v3" "keeps k2 k3" "loop_views ?v v3"
      "same_waits ?v v3"
      by (rule wake_child_waiters_inv [OF k2(2), of "pr_parent (k_processes k2 owner)"]) (auto simp: same_waits_def intro: that)
    obtain b k4 ps where r: "reap_process owner k2 = Some (b, k4)" "same_threads k2 k4" "kernel_inv k4 (\<lambda>_. None) (?v\<lparr>v_processes := ps\<rparr>)"
      by (rule reap_process_inv [OF k2(2), of owner]) blast
    consider "has_threads k2 (v_threads ?v) owner" | "\<not> has_threads k2 (v_threads ?v) owner" "pr_state (k_processes k2 owner) = Process_Zombie"
      | "\<not> has_threads k2 (v_threads ?v) owner" "pr_state (k_processes k2 owner) \<noteq> Process_Zombie" by blast
    then show ?thesis
    proof cases
      case 1
      then show ?thesis using that [of k2 ?v] k2 sp Some busy by (simp add: reap_thread_def Let_def same_waits_def)
    next
      case 2
      then have "reap_thread t k = Some k3" using k2(1) Some busy w(1) by (simp add: reap_thread_def Let_def)
      then show ?thesis using that [of k3 v3] w(2,4,5) spares_keeps [OF sp w(3)] by (simp add: loop_views_def same_waits_def)
    next
      case 3
      then have "reap_thread t k = Some k4" using k2(1) Some busy r(1) by (simp add: reap_thread_def Let_def)
      then show ?thesis using that [of k4 "?v\<lparr>v_processes := ps\<rparr>"] r(3) spares_keeps [OF sp same_threads_keeps [OF r(2)]] by (simp add: same_waits_def)
    qed
  qed
qed

lemma reap_dead_threads_inv:
  "kernel_inv k (\<lambda>_. None) v \<Longrightarrow>
   \<exists>k' v'. reap_dead_threads k = Some k' \<and> kernel_inv k' (\<lambda>_. None) v' \<and> v_cpus v' = v_cpus v \<and>
     v_threads v' = filter (\<lambda>t. \<not> dead k (v_cpus v) t) (v_threads v) \<and> spares {t. dead k (v_cpus v) t} k k' \<and> same_waits v v'"
proof (induction "length (v_threads v)" arbitrary: k v rule: less_induct)
  case less
  let ?cs = "v_cpus v"
  note ring = kernel_invD(3) [OF less.prems]
  note find = find_dead_run [OF ring thread_chain [OF kernel_invD(1) [OF less.prems]]]
  show ?case
  proof (cases "List.find (dead k ?cs) (v_threads v)")
    case None
    then have "filter (\<lambda>t. \<not> dead k ?cs t) (v_threads v) = v_threads v" by (simp add: find_None_iff filter_id_conv)
    moreover have "reap_dead_threads k = Some k" using find None by (subst reap_dead_threads.simps) simp
    ultimately show ?thesis using less.prems by (intro exI [of _ k] exI [of _ v]) (simp add: spares_def same_waits_def)
  next
    case (Some t)
    then have t: "t \<in> set (v_threads v)" "dead k ?cs t" by (auto simp: find_Some_iff)
    then have "th_state (k_threads k t) = Thread_Dying" by (simp add: dead_def)
    then obtain k1 v1 where r: "reap_thread t k = Some k1" "kernel_inv k1 (\<lambda>_. None) v1" "spares {t} k k1"
      "v_threads v1 = remove1 t (v_threads v)" "v_cpus v1 = ?cs" "same_waits v v1"
      using reap_thread_inv [OF less.prems] by metis
    have "length (v_threads v1) < length (v_threads v)" using t(1) length_pos_if_in_set [OF t(1)] by (simp add: r(4) length_remove1)
    from less.hyps [OF this r(2)] obtain k2 v2 where i: "reap_dead_threads k1 = Some k2" "kernel_inv k2 (\<lambda>_. None) v2" "v_cpus v2 = ?cs"
      "v_threads v2 = filter (\<lambda>t. \<not> dead k1 ?cs t) (v_threads v1)" "spares {t. dead k1 ?cs t} k1 k2" "same_waits v1 v2"
      using r(5) by auto
    have dis: "distinct (v_threads v)" by (rule list_view_distinct [OF kernel_invD(1) [OF less.prems]])
    have nt: "u \<noteq> t" if "u \<in> set (v_threads v1)" for u using that r(4) dis by auto
    have same: "dead k1 ?cs u = dead k ?cs u" if "u \<noteq> t" for u using r(3) that by (simp add: dead_def spares_def)
    have "u \<in> {t} \<union> {u. dead k1 ?cs u} \<longleftrightarrow> u \<in> {u. dead k ?cs u}" for u using same [of u] t(2) by (cases "u = t") simp_all
    then have "{t} \<union> {u. dead k1 ?cs u} = {u. dead k ?cs u}" by blast
    then have "spares {u. dead k ?cs u} k k2" using spares_trans [OF r(3) i(5)] by simp
    moreover have "v_threads v2 = filter (\<lambda>u. \<not> dead k ?cs u) (v_threads v1)" unfolding i(4) using same nt by (auto intro: filter_cong)
    then have "v_threads v2 = filter (\<lambda>u. \<not> dead k ?cs u) (v_threads v)"
      unfolding r(4) using t dis by (simp add: distinct_remove1_removeAll removeAll_filter_not_eq) (rule filter_cong, auto)
    moreover have "reap_dead_threads k = Some k2" using find Some r(1) i(1) by (subst reap_dead_threads.simps) simp
    ultimately show ?thesis using i(2,3) same_waits_trans [OF r(6) i(6)] by (intro exI [of _ k2] exI [of _ v2]) simp
  qed
qed

end
