(* ===== verification/Balance_Spec.thy ===== *)
theory Balance_Spec
  imports Reaper_Spec
begin

text \<open>
  The balancer of \<^verbatim>\<open>sched/scheduler.cpp\<close>: it moves at most one thread, from a longest queue of the
  other CPUs to the end of the local queue, and only if the local queue stays the shorter one.
\<close>

section \<open>The scan of the queues\<close>

definition scan_step :: "kernel \<Rightarrow> cpu_ref \<Rightarrow> cpu_ref \<Rightarrow> balance_depths \<Rightarrow> balance_depths" where
  "scan_step k target_cpu c d =
     (if \<not> cpu_is_schedulable k c then d
      else
        let depth = cpu_runq_length (k_cpus k c);
            d1 = d\<lparr>bd_total := bd_total d + depth\<rparr>
        in if c = target_cpu then d1\<lparr>bd_local := depth\<rparr>
           else if bd_donor_depth d1 < depth then d1\<lparr>bd_donor := Some c, bd_donor_depth := depth\<rparr>
           else d1)"

text \<open>What the scan knows after the CPUs \<open>S\<close>.\<close>

definition scanned :: "kernel \<Rightarrow> cpu_ref \<Rightarrow> cpu_ref set \<Rightarrow> balance_depths \<Rightarrow> bool" where
  "scanned k target_cpu S d \<longleftrightarrow>
     (target_cpu \<in> S \<and> cpu_is_schedulable k target_cpu \<longrightarrow> bd_local d = cpu_runq_length (k_cpus k target_cpu)) \<and>
     (\<forall>c \<in> S - {target_cpu}. cpu_is_schedulable k c \<longrightarrow> cpu_runq_length (k_cpus k c) \<le> bd_donor_depth d) \<and>
     (case bd_donor d of
        None \<Rightarrow> bd_donor_depth d = 0
      | Some c \<Rightarrow> c \<in> S - {target_cpu} \<and> cpu_is_schedulable k c \<and> bd_donor_depth d = cpu_runq_length (k_cpus k c))"

lemma scan_step_scanned: "scanned k target_cpu S d \<Longrightarrow> scanned k target_cpu (insert c S) (scan_step k target_cpu c d)"
  unfolding scanned_def scan_step_def Let_def by (auto simp: word_gt_0 split: option.splits)

lemma scan_fold_scanned: "scanned k target_cpu S d \<Longrightarrow> scanned k target_cpu (S \<union> set cs) (fold (scan_step k target_cpu) cs d)"
proof (induction cs arbitrary: S d)
  case (Cons c cs)
  from Cons.IH [OF scan_step_scanned [OF Cons.prems, of c]] show ?case by simp
qed simp

lemma balance_scan_run:
  assumes "ring_inv k cs"
  obtains d where "balance_scan k target_cpu = Some d" and "scanned k target_cpu (set cs) d"
proof -
  let ?d = "\<lparr>bd_total = 0, bd_local = 0, bd_donor = None, bd_donor_depth = 0\<rparr>"
  have "balance_scan k target_cpu = Some (fold (scan_step k target_cpu) cs ?d)"
    unfolding balance_scan_def scan_step_def [symmetric] using assms by (intro fold_from_chain) (auto simp: ring_inv_def)
  moreover have "scanned k target_cpu {} ?d" by (simp add: scanned_def)
  ultimately show ?thesis using that scan_fold_scanned [of k target_cpu "{}"] by fastforce
qed

lemma schedulable_count_run: "ring_inv k cs \<Longrightarrow> \<exists>n. schedulable_cpu_count k = Some n"
  unfolding schedulable_cpu_count_def using fold_from_chain by (fastforce simp: ring_inv_def)

section \<open>The thread to move\<close>

lemma find_append: "List.find P (xs @ ys) = (case List.find P xs of None \<Rightarrow> List.find P ys | Some x \<Rightarrow> Some x)"
  by (induction xs) simp_all

lemma find_split: "List.find P xs = Some x \<Longrightarrow> \<exists>ys zs. xs = ys @ x # zs \<and> P x \<and> (\<forall>y \<in> set ys. \<not> P y)"
proof (induction xs)
  case (Cons a xs)
  show ?case
  proof (cases "P a")
    case False
    then obtain ys zs where "xs = ys @ x # zs" "P x" "\<forall>y \<in> set ys. \<not> P y" using Cons by auto
    then show ?thesis using False by (intro exI [of _ "a # ys"] exI [of _ zs]) simp
  next
    case True
    then show ?thesis using Cons.prems by (intro exI [of _ "[]"] exI [of _ xs]) simp
  qed
qed simp

lemma last_migratable_run:
  "chain (\<lambda>t. th_next (k_threads k t)) cur ts \<Longrightarrow>
   last_migratable_loop k receiver now prev cand cur =
     Some (case List.find (\<lambda>t. thread_is_migratable k t receiver now) (rev ts) of
             None \<Rightarrow> cand
           | Some t \<Rightarrow> Some (last_opt (case prev of None \<Rightarrow> takeWhile (\<lambda>x. x \<noteq> t) ts | Some p \<Rightarrow> p # takeWhile (\<lambda>x. x \<noteq> t) ts), t))"
proof (induction ts arbitrary: cur prev cand)
  case (Cons x xs)
  have x: "x \<notin> set xs" using chain_distinct [OF Cons.prems] by simp
  have IH: "last_migratable_loop k receiver now (Some x) c (th_next (k_threads k x)) =
     Some (case List.find (\<lambda>t. thread_is_migratable k t receiver now) (rev xs) of None \<Rightarrow> c
           | Some t \<Rightarrow> Some (last_opt (x # takeWhile (\<lambda>y. y \<noteq> t) xs), t))" for c
    using Cons.IH [of "th_next (k_threads k x)" "Some x" c] Cons.prems by (simp cong: option.case_cong)
  have step: "last_migratable_loop k receiver now prev cand cur =
      last_migratable_loop k receiver now (Some x) (if thread_is_migratable k x receiver now then Some (prev, x) else cand) (th_next (k_threads k x))"
    using Cons.prems by (subst last_migratable_loop.simps) simp
  show ?case
  proof (cases "List.find (\<lambda>t. thread_is_migratable k t receiver now) (rev xs)")
    case None
    then show ?thesis unfolding step IH by (simp add: find_append last_opt_def split: option.split)
  next
    case (Some t)
    then have "x \<noteq> t" using x find_split [OF Some] by (metis in_set_conv_decomp set_rev)
    then show ?thesis unfolding step IH using Some by (simp add: find_append last_opt_def split: option.split)
  qed
qed (simp add: last_migratable_loop.simps)

lemma detach_last_migratable_inv:
  assumes inv: "rq_inv k Q"
  obtains "detach_last_migratable_thread_locked donor receiver now k = Some (None, k)" "\<forall>t \<in> set (Q donor). \<not> thread_is_migratable k t receiver now"
  | as t bs k' where "Q donor = as @ t # bs" "thread_is_migratable k t receiver now" "\<forall>u \<in> set bs. \<not> thread_is_migratable k u receiver now"
      "detach_last_migratable_thread_locked donor receiver now k = Some (Some t, k')" "rq_inv k' (Q(donor := as @ bs))"
      "k' = run_queue_left donor t (list_detach (run_queue donor) (last_opt as) t k)"
proof (cases "List.find (\<lambda>t. thread_is_migratable k t receiver now) (rev (Q donor))")
  case None
  have ch: "chain (\<lambda>t. th_next (k_threads k t)) (cpu_runq_head (k_cpus k donor)) (Q donor)"
    using inv by (auto simp: rq_inv_def lists_view_def list_view_def run_queue_def)
  show ?thesis
    by (rule that(1)) (simp add: detach_last_migratable_thread_locked_def last_migratable_run [OF ch] None, use None in \<open>auto simp: find_None_iff\<close>)
next
  case (Some t)
  have ch: "chain (\<lambda>t. th_next (k_threads k t)) (cpu_runq_head (k_cpus k donor)) (Q donor)"
    using inv by (auto simp: rq_inv_def lists_view_def list_view_def run_queue_def)
  obtain ys zs where yz: "rev (Q donor) = ys @ t # zs" "thread_is_migratable k t receiver now" "\<forall>u \<in> set ys. \<not> thread_is_migratable k u receiver now"
    using find_split [OF Some] by auto
  have q: "Q donor = rev zs @ t # rev ys" using arg_cong [OF yz(1), of rev] by simp
  have "t \<notin> set (rev zs)" using chain_distinct [OF ch] q by simp
  then have tw: "takeWhile (\<lambda>x. x \<noteq> t) (Q donor) = rev zs" unfolding q by (auto simp: takeWhile_append takeWhile_eq_all_conv)
  show ?thesis
    by (rule that(2) [OF q yz(2) _ _ run_queue_detach_inv [OF inv q] refl])
      (use yz(3) in simp, simp add: detach_last_migratable_thread_locked_def last_migratable_run [OF ch] Some tw)
qed

section \<open>One attempt\<close>

lemma record_depth_frame:
  fixes owner depth k
  defines "k' \<equiv> record_run_queue_depth owner depth k"
  shows "same_links k k'" "k_threads k' = k_threads k" "k_completion_done k' = k_completion_done k" "run_part k' = run_part k"
    "cpu_runq_length (k_cpus k' c) = cpu_runq_length (k_cpus k c)" "cpu_id (k_cpus k' c) = cpu_id (k_cpus k c)"
  by (auto simp: k'_def record_run_queue_depth_def Let_def same_links_def)

lemma record_depth_inv:
  assumes "kernel_inv k h v"
  shows "kernel_inv (record_run_queue_depth owner depth k) h v" and "keeps k (record_run_queue_depth owner depth k)"
  using assms record_depth_frame [where k = k and owner = owner and depth = depth] by (auto intro: kernel_inv_same simp: keeps_defs same_links_def)

lemma migratable_cong:
  "k_threads k' = k_threads k \<Longrightarrow> cpu_id (k_cpus k' c) = cpu_id (k_cpus k c) \<Longrightarrow> thread_is_migratable k' t c now = thread_is_migratable k t c now"
  by (simp add: thread_is_migratable_def thread_allows_cpu_def)

text \<open>Two queues together have fewer threads than there are addresses.\<close>

lemma two_queues_bound:
  assumes inv: "rq_inv k Q" and ne: "c \<noteq> d"
  shows "length (Q c) + length (Q d) < 2 ^ 64"
proof -
  have q: "distinct (Q c)" "distinct (Q d)" "0 \<notin> set (Q c)" "0 \<notin> set (Q d)"
    using inv by (auto simp: rq_inv_def dest: lists_viewD(1) list_view_distinct)
  have dis: "set (Q c) \<inter> set (Q d) = {}" using inv ne unfolding rq_inv_def by (metis disjoint_iff option.inject)
  have "length (Q c) + length (Q d) = card (set (Q c) \<union> set (Q d))" using q(1,2) dis by (simp add: card_Un_disjoint distinct_card)
  also have "\<dots> \<le> card (UNIV - {0 :: u64})" using q(3,4) by (intro card_mono) auto
  also have "\<dots> < 2 ^ 64" by (simp add: card_word)
  finally show ?thesis .
qed

lemma depth_gap:
  assumes inv: "rq_inv k Q" and ne: "donor \<noteq> target_cpu"
    and gap: "cpu_runq_length (k_cpus k donor) \<noteq> 0" "\<not> cpu_runq_length (k_cpus k donor) \<le> cpu_runq_length (k_cpus k target_cpu) + 1"
  shows "length (Q target_cpu) + 1 < length (Q donor)"
proof -
  note len = unat_queue_length [OF inv]
  have "length (Q donor) \<noteq> 0" using gap(1) len [of donor] by (metis unat_eq_zero)
  then have small: "length (Q target_cpu) + 1 < 2 ^ 64" using two_queues_bound [OF inv ne] by linarith
  have "unat (cpu_runq_length (k_cpus k target_cpu) + 1) = length (Q target_cpu) + 1"
    using len [of target_cpu] small by (subst unat_add_lem [THEN iffD1]) auto
  then show ?thesis using gap(2) len [of donor] by (simp add: word_le_nat_alt)
qed

text \<open>The move itself: the last migratable thread of the donor goes to the end of the target's queue.\<close>

lemma migrate_inv:
  assumes inv: "kernel_inv k h v" and q: "v_runq v donor = as @ t # bs" and ne: "donor \<noteq> target_cpu"
  defines "k2 \<equiv> run_queue_left donor t (list_detach (run_queue donor) (last_opt as) t k)"
  defines "k3 \<equiv> append_ready_thread_locked target_cpu t k2"
  shows "kernel_inv k3 h (v\<lparr>v_runq := (v_runq v)(donor := as @ bs, target_cpu := v_runq v target_cpu @ [t])\<rparr>)" and "keeps k k3"
proof -
  let ?Q1 = "(v_runq v)(donor := as @ bs)" and ?Q2 = "(v_runq v)(donor := as @ bs, target_cpu := v_runq v target_cpu @ [t])"
  have rq1: "rq_inv k2 ?Q1" unfolding k2_def by (rule run_queue_detach_inv [OF kernel_invD(5) [OF inv] q])
  have same1: "same_but_queues k k2" unfolding k2_def by (rule run_queue_left_same)
  have Q1: "u \<in> set (v_threads v) \<and> th_state (k_threads k u) = Thread_Ready \<and> (\<forall>d. cpu_idle_thread (k_cpus k d) \<noteq> Some u)"
    if "u \<in> set (?Q2 c)" for u c
  proof -
    have "\<exists>c'. u \<in> set (v_runq v c')" using that q by (auto split: if_splits intro: exI [of _ donor])
    then show ?thesis using kernel_invD(8,9,13) [OF inv] by blast
  qed
  have "t \<notin> set (?Q1 c)" for c
  proof -
    have "distinct (v_runq v donor)" using kernel_invD(5) [OF inv] by (auto simp: rq_inv_def dest: lists_viewD(1) list_view_distinct)
    moreover have on: "th_run_queue_cpu (k_threads k t) = Some donor" using kernel_invD(5) [OF inv] q by (simp add: rq_inv_def)
    have "t \<notin> set (v_runq v c)" if "c \<noteq> donor" using kernel_invD(5) [OF inv] on that unfolding rq_inv_def by (metis option.inject)
    ultimately show ?thesis using q by auto
  qed
  then have free: "th_run_queue_cpu (k_threads k2 t) = None" using not_queued [OF rq1] by blast
  have "t \<in> set (v_threads v)" using kernel_invD(8) [OF inv, of t donor] q by simp
  then have "t \<noteq> 0" using kernel_invD(7) [OF inv] by metis
  then have rq2: "rq_inv k3 ?Q2" using run_queue_append_inv [OF rq1 free, of target_cpu] ne free by (simp add: k3_def append_ready_eq)
  have k3: "k3 = run_queue_append_locked target_cpu t k2" using free by (simp add: k3_def append_ready_eq)
  have same: "same_but_queues k k3" using same_but_queues_trans [OF same1 run_queue_append_same] by (simp add: k3)
  have "g_last_user_thread_cpu k3 = g_last_user_thread_cpu k" "k_completion_done k3 = k_completion_done k" by (simp_all add: k3 k2_def)
  then show "kernel_inv k3 h (v\<lparr>v_runq := ?Q2\<rparr>)" "keeps k k3"
    using kernel_inv_requeue [OF inv same _ rq2] Q1 same_but_queues_keeps [OF same] by blast+
qed

lemma finish_migration_inv:
  assumes inv: "kernel_inv (append_ready_thread_locked target_cpu t k) h v"
  shows "kernel_inv (finish_migration target_cpu donor t now k) h v"
    and "keeps (append_ready_thread_locked target_cpu t k) (finish_migration target_cpu donor t now k)"
proof -
  let ?k = "append_ready_thread_locked target_cpu t k"
  have "same_links ?k (finish_migration target_cpu donor t now k)" by (simp add: finish_migration_def Let_def same_links_def)
  moreover have "th_state (k_threads (finish_migration target_cpu donor t now k) u) = th_state (k_threads ?k u)" for u
    by (simp add: finish_migration_def Let_def)
  ultimately show "kernel_inv (finish_migration target_cpu donor t now k) h v" using inv by (blast intro: kernel_inv_same)
  show "keeps ?k (finish_migration target_cpu donor t now k)" by (simp add: keeps_defs finish_migration_def Let_def)
qed

text \<open>What an attempt may do: nothing, or the move of one thread from a longest queue.\<close>

definition balanced :: "kernel \<Rightarrow> views \<Rightarrow> cpu_ref \<Rightarrow> u64 \<Rightarrow> (cpu_ref \<Rightarrow> thread_ref list) \<Rightarrow> bool" where
  "balanced k v target_cpu now Q \<longleftrightarrow>
     (\<exists>donor as t bs. donor \<in> set (v_cpus v) \<and> donor \<noteq> target_cpu \<and> cpu_is_schedulable k donor \<and>
        v_runq v donor = as @ t # bs \<and> Q = (v_runq v)(donor := as @ bs, target_cpu := v_runq v target_cpu @ [t]) \<and>
        thread_is_migratable k t target_cpu now \<and> (\<forall>u \<in> set bs. \<not> thread_is_migratable k u target_cpu now) \<and>
        (\<forall>c \<in> set (v_cpus v) - {target_cpu}. cpu_is_schedulable k c \<longrightarrow> length (v_runq v c) \<le> length (v_runq v donor)) \<and>
        length (Q target_cpu) \<le> length (Q donor))"

lemma balanceI:
  assumes inv: "kernel_inv k h v" and sc: "scanned k target_cpu (set (v_cpus v)) d" "bd_donor d = Some donor"
    and gap: "cpu_runq_length (k_cpus k donor) \<noteq> 0" "\<not> cpu_runq_length (k_cpus k donor) \<le> cpu_runq_length (k_cpus k target_cpu) + 1"
    and q: "v_runq v donor = as @ t # bs" "thread_is_migratable k t target_cpu now" "\<forall>u \<in> set bs. \<not> thread_is_migratable k u target_cpu now"
  shows "balanced k v target_cpu now ((v_runq v)(donor := as @ bs, target_cpu := v_runq v target_cpu @ [t]))"
proof -
  note rq = kernel_invD(5) [OF inv] and len = unat_queue_length [OF kernel_invD(5) [OF inv]]
  have d: "donor \<in> set (v_cpus v)" "donor \<noteq> target_cpu" "cpu_is_schedulable k donor"
    "\<forall>c \<in> set (v_cpus v) - {target_cpu}. cpu_is_schedulable k c \<longrightarrow> cpu_runq_length (k_cpus k c) \<le> cpu_runq_length (k_cpus k donor)"
    using sc by (auto simp: scanned_def)
  have "length (v_runq v target_cpu) + 1 < length (v_runq v donor)" by (rule depth_gap [OF rq d(2) gap])
  then show ?thesis
    unfolding balanced_def
    by (intro exI [of _ donor] exI [of _ as] exI [of _ t] exI [of _ bs] conjI) (use d q in \<open>auto simp: word_le_nat_alt len\<close>)
qed

lemma scheduler_balance_inv:
  assumes inv: "kernel_inv k h v" and tgt: "target_cpu \<in> set (v_cpus v)"
  obtains moved k' Q where "scheduler_balance_cpu target_cpu now force k = Some (moved, k')" and "kernel_inv k' h (v\<lparr>v_runq := Q\<rparr>)"
    and "keeps k k'" and "if moved then balanced k v target_cpu now Q else Q = v_runq v"
proof -
  obtain n where n: "schedulable_cpu_count k = Some n" using schedulable_count_run [OF kernel_invD(3) [OF inv]] by blast
  obtain d where d: "balance_scan k target_cpu = Some d" "scanned k target_cpu (set (v_cpus v)) d"
    by (rule balance_scan_run [OF kernel_invD(3) [OF inv]])
  let ?len = "\<lambda>c. cpu_runq_length (k_cpus k c)" and ?k1 = "record_run_queue_depth target_cpu (bd_local d) k"
  note k1 = record_depth_inv [OF inv, of target_cpu "bd_local d"] and f = record_depth_frame [where k = k and owner = target_cpu and depth = "bd_local d"]
  have len1: "cpu_runq_length (k_cpus ?k1 c) = ?len c" for c using f(5) .
  have run: "scheduler_balance_cpu target_cpu now force k =
      (if \<not> g_smp_balancer_enabled k \<or> \<not> cpu_is_schedulable k target_cpu \<or> n < 2 then Some (False, k)
       else case bd_donor d of
              None \<Rightarrow> Some (False, ?k1)
            | Some donor \<Rightarrow>
                if ?len donor = 0 \<or> ?len donor \<le> ?len target_cpu + 1 \<or> (\<not> force \<and> (bd_total d + n - 1) div n \<le> ?len target_cpu + 1)
                then Some (False, ?k1)
                else do { (migrated, k2) \<leftarrow> detach_last_migratable_thread_locked donor target_cpu now ?k1;
                          case migrated of None \<Rightarrow> Some (False, k2) | Some t \<Rightarrow> Some (True, finish_migration target_cpu donor t now k2) })"
  proof -
    have "bd_local d = ?len target_cpu" if "cpu_is_schedulable k target_cpu" using d(2) tgt that by (simp add: scanned_def)
    moreover have "bd_donor_depth d = ?len donor" if "bd_donor d = Some donor" for donor using d(2) that by (simp add: scanned_def)
    ultimately show ?thesis by (cases "bd_donor d") (auto simp: scheduler_balance_cpu_def Let_def n d(1) record_depth_frame(5))
  qed
  show ?thesis
  proof (cases "scheduler_balance_cpu target_cpu now force k \<in> {Some (False, k), Some (False, ?k1)}")
    case True
    then show ?thesis using that [of False _ "v_runq v"] inv k1 by auto
  next
    case False
    then obtain donor where m: "bd_donor d = Some donor" "?len donor \<noteq> 0" "\<not> ?len donor \<le> ?len target_cpu + 1"
      and run': "scheduler_balance_cpu target_cpu now force k =
        do { (migrated, k2) \<leftarrow> detach_last_migratable_thread_locked donor target_cpu now ?k1;
             case migrated of None \<Rightarrow> Some (False, k2) | Some t \<Rightarrow> Some (True, finish_migration target_cpu donor t now k2) }"
      unfolding run by (auto split: if_splits option.splits)
    have ne: "donor \<noteq> target_cpu" using d(2) m(1) by (auto simp: scanned_def)
    show ?thesis
    proof (rule detach_last_migratable_inv [OF kernel_invD(5) [OF k1(1)], of donor target_cpu now])
      assume "detach_last_migratable_thread_locked donor target_cpu now ?k1 = Some (None, ?k1)"
      then show ?thesis using False run' by simp
    next
      fix as t bs k2
      assume q: "v_runq v donor = as @ t # bs" "thread_is_migratable ?k1 t target_cpu now" "\<forall>u \<in> set bs. \<not> thread_is_migratable ?k1 u target_cpu now"
        and k2: "detach_last_migratable_thread_locked donor target_cpu now ?k1 = Some (Some t, k2)"
          "k2 = run_queue_left donor t (list_detach (run_queue donor) (last_opt as) t ?k1)"
      let ?Q = "(v_runq v)(donor := as @ bs, target_cpu := v_runq v target_cpu @ [t])"
      note mig = migrate_inv [OF k1(1) q(1) ne, folded k2(2)]
      note fin = finish_migration_inv [OF mig(1), of donor now]
      have "balanced k v target_cpu now ?Q"
        using q migratable_cong [OF f(2) f(6)] by (intro balanceI [OF inv d(2) m]) simp_all
      then show ?thesis
        using that [OF _ fin(1) keeps_trans [OF keeps_trans [OF k1(2) mig(2)] fin(2)]] run' k2(1) by simp
    qed
  qed
qed

end
