(* ===== verification/Switch_Spec.thy ===== *)
theory Switch_Spec
  imports Balance_Spec
begin

text \<open>
  Switching threads: \<^verbatim>\<open>schedule_next\<close> of \<^verbatim>\<open>sched/scheduler.cpp\<close> followed by the return from the trap
  in \<^verbatim>\<open>arch/x86_64/interrupt/irqhandler.asm\<close>. Every CPU runs one thread, no two CPUs the same one, and
  the threads of a queue take turns.
\<close>

section \<open>The return from a trap\<close>

text \<open>
  The trap returns to the chosen thread; the same thread in kernel mode goes on with its interrupted
  frame. No chosen thread means the interrupted frame as well.
\<close>

definition trap_return :: "bool \<Rightarrow> thread_ref option \<Rightarrow> kernel \<Rightarrow> kernel" where
  "trap_return user_frame chosen k =
     (case chosen of
        None \<Rightarrow> k
      | Some t \<Rightarrow> if Some t = current_thread k \<and> \<not> user_frame then k else restore_thread t k)"

definition switch_thread :: "bool \<Rightarrow> bool \<Rightarrow> kernel \<Rightarrow> kernel option" where
  "switch_thread user_frame keep_current k =
     do { (chosen, k1) \<leftarrow> schedule_next keep_current k; Some (trap_return user_frame chosen k1) }"

section \<open>What the CPUs run\<close>

text \<open>
  Every CPU has a registered idle thread and runs a registered thread, a running one unless the CPU
  is of \<open>D\<close>, the CPUs inside a trap. No thread runs on two CPUs.
\<close>

definition runs_inv :: "kernel \<Rightarrow> views \<Rightarrow> cpu_ref set \<Rightarrow> bool" where
  "runs_inv k v D \<longleftrightarrow>
     (\<forall>c \<in> set (v_cpus v). \<exists>i t. cpu_idle_thread (k_cpus k c) = Some i \<and> i \<in> set (v_threads v) \<and>
        th_state (k_threads k i) \<in> {Thread_Ready, Thread_Running} \<and>
        cpu_current_thread (k_cpus k c) = Some t \<and> t \<in> set (v_threads v) \<and> (c \<notin> D \<longrightarrow> th_state (k_threads k t) = Thread_Running)) \<and>
     (\<forall>c \<in> set (v_cpus v). \<forall>d \<in> set (v_cpus v). c \<noteq> d \<longrightarrow>
        cpu_current_thread (k_cpus k c) \<noteq> cpu_current_thread (k_cpus k d)) \<and>
     (\<forall>c \<in> set (v_cpus v). \<forall>d. c \<noteq> d \<longrightarrow>
        cpu_idle_thread (k_cpus k c) \<noteq> cpu_idle_thread (k_cpus k d) \<and> cpu_current_thread (k_cpus k c) \<noteq> cpu_idle_thread (k_cpus k d))"

lemma runs_invE:
  assumes "runs_inv k v D" and "c \<in> set (v_cpus v)"
  obtains i t where "cpu_idle_thread (k_cpus k c) = Some i" "i \<in> set (v_threads v)" "th_state (k_threads k i) \<in> {Thread_Ready, Thread_Running}"
    "cpu_current_thread (k_cpus k c) = Some t" "t \<in> set (v_threads v)" "c \<notin> D \<Longrightarrow> th_state (k_threads k t) = Thread_Running"
  using assms unfolding runs_inv_def by blast

lemma runs_inv_distinct:
  assumes "runs_inv k v D" and "c \<in> set (v_cpus v)" and "c \<noteq> d"
  shows "d \<in> set (v_cpus v) \<Longrightarrow> cpu_current_thread (k_cpus k c) \<noteq> cpu_current_thread (k_cpus k d)"
    "cpu_idle_thread (k_cpus k c) \<noteq> cpu_idle_thread (k_cpus k d)" "cpu_current_thread (k_cpus k c) \<noteq> cpu_idle_thread (k_cpus k d)"
  using assms unfolding runs_inv_def by blast+

lemma runs_inv_keeps:
  assumes runs: "runs_inv k v D" and keep: "keeps k k'" and v: "v_threads v' = v_threads v" "v_cpus v' = v_cpus v"
  shows "runs_inv k' v' D"
proof -
  have c: "cpu_current_thread (k_cpus k' c) = cpu_current_thread (k_cpus k c)" "cpu_idle_thread (k_cpus k' c) = cpu_idle_thread (k_cpus k c)" for c
    using keep by (auto simp: keeps_defs run_part_def fun_eq_iff)
  have "th_state (k_threads k' t) = th_state (k_threads k t)" if "th_state (k_threads k t) \<in> {Thread_Ready, Thread_Running}" for t
    using keep that by (auto simp: keeps_defs)
  then show ?thesis using runs unfolding runs_inv_def c v by fastforce
qed

lemma runs_inv_weaken: "runs_inv k v D \<Longrightarrow> D \<subseteq> E \<Longrightarrow> runs_inv k v E"
  unfolding runs_inv_def by fast

lemma runs_inv_reap:
  assumes runs: "runs_inv k v D" and sp: "spares {t. dead k (v_cpus v) t} k k'" and cpus: "v_cpus v' = v_cpus v"
    and threads: "v_threads v' = filter (\<lambda>t. \<not> dead k (v_cpus v) t) (v_threads v)"
  shows "runs_inv k' v' D"
proof -
  have cur: "cpu_current_thread (k_cpus k' c) = cpu_current_thread (k_cpus k c)" for c using sp by (simp add: spares_def)
  have st: "th_state (k_threads k' u) = th_state (k_threads k u)"
    if "\<not> dead k (v_cpus v) u" "th_state (k_threads k u) \<in> {Thread_Ready, Thread_Running}" for u
    using sp that by (auto simp: spares_def)
  have part: "cpu_idle_thread (k_cpus k' c) = cpu_idle_thread (k_cpus k c) \<and>
      (\<exists>i t. cpu_idle_thread (k_cpus k c) = Some i \<and> i \<in> set (v_threads v') \<and> th_state (k_threads k' i) \<in> {Thread_Ready, Thread_Running} \<and>
        cpu_current_thread (k_cpus k c) = Some t \<and> t \<in> set (v_threads v') \<and> (c \<notin> D \<longrightarrow> th_state (k_threads k' t) = Thread_Running))"
    if c: "c \<in> set (v_cpus v)" for c
  proof (rule runs_invE [OF runs c])
    fix i t
    assume a: "cpu_idle_thread (k_cpus k c) = Some i" "i \<in> set (v_threads v)" "th_state (k_threads k i) \<in> {Thread_Ready, Thread_Running}"
      "cpu_current_thread (k_cpus k c) = Some t" "t \<in> set (v_threads v)" "c \<notin> D \<Longrightarrow> th_state (k_threads k t) = Thread_Running"
    have alive: "\<not> dead k (v_cpus v) i" "\<not> dead k (v_cpus v) t" using a(3,4) c by (auto simp: dead_def)
    then have "cpu_idle_thread (k_cpus k c) \<notin> Some ` {t. dead k (v_cpus v) t}" using a(1) by auto
    then show ?thesis using sp a alive st threads by (simp add: spares_def)
  qed
  have idle: "cpu_idle_thread (k_cpus k' c) \<in> {None, cpu_idle_thread (k_cpus k c)}" for c using sp by (simp add: spares_def)
  have "cpu_idle_thread (k_cpus k' c) \<noteq> cpu_idle_thread (k_cpus k' d) \<and> cpu_current_thread (k_cpus k c) \<noteq> cpu_idle_thread (k_cpus k' d)"
    if "c \<in> set (v_cpus v)" "c \<noteq> d" for c d
    using runs_inv_distinct(2,3) [OF runs that] part [OF that(1)] idle [of d] by auto
  moreover have "\<exists>i t. cpu_idle_thread (k_cpus k' c) = Some i \<and> i \<in> set (v_threads v') \<and> th_state (k_threads k' i) \<in> {Thread_Ready, Thread_Running} \<and>
      cpu_current_thread (k_cpus k c) = Some t \<and> t \<in> set (v_threads v') \<and> (c \<notin> D \<longrightarrow> th_state (k_threads k' t) = Thread_Running)"
    if "c \<in> set (v_cpus v)" for c using part [OF that] by simp
  ultimately show ?thesis unfolding runs_inv_def cpus cur using runs_inv_distinct(1) [OF runs] by (intro conjI ballI allI impI) blast+
qed

section \<open>Choosing a thread\<close>

text \<open>\<^verbatim>\<open>schedule_next\<close> after the reaping.\<close>

definition schedule_rest :: "bool \<Rightarrow> kernel \<Rightarrow> (thread_ref option \<times> kernel) option" where
  "schedule_rest keep_current k =
     (let current = current_thread k; local_cpu = k_cpu_cur k
      in do { k2 \<leftarrow> (case current of
                        Some t \<Rightarrow>
                          if keep_current \<and> Some t \<noteq> idle_thread k \<and> th_state (k_threads k t) = Thread_Running
                          then mark_thread_ready t (Some local_cpu) k else Some k
                      | None \<Rightarrow> Some k);
              let (ready, k3) = next_runnable_thread (upd_cpu local_cpu (\<lambda>c. c\<lparr>cpu_reschedule_pending := 0\<rparr>) k2);
                  next = (case ready of None \<Rightarrow> cpu_idle_thread (k_cpus k3 local_cpu) | Some t \<Rightarrow> Some t);
                  k4 = (case next of
                          None \<Rightarrow> k3
                        | Some t \<Rightarrow> set_process_state t Process_Running (upd_thread t (\<lambda>x. x\<lparr>th_state := Thread_Running\<rparr>) k3))
              in Some (next,
                   if next \<noteq> current
                   then kernel_record 2 0 (thread_pid k4 current) (thread_tid k4 current) (thread_pid k4 next) (thread_tid k4 next) k4
                   else k4) })"

lemma schedule_next_eq:
  "schedule_next keep_current k = do { k1 \<leftarrow> (if cpu_on_boot k then reap_dead_threads k else Some k); schedule_rest keep_current k1 }"
  by (simp add: schedule_next_def schedule_rest_def)

text \<open>The current thread goes to the end of the local queue if it keeps running.\<close>

definition rotated :: "bool \<Rightarrow> kernel \<Rightarrow> thread_ref list" where
  "rotated keep_current k =
     (case current_thread k of
        Some t \<Rightarrow> if keep_current \<and> Some t \<noteq> idle_thread k \<and> th_state (k_threads k t) = Thread_Running then [t] else []
      | None \<Rightarrow> [])"

lemma g_last_dequeue: "g_last_user_thread_cpu (snd (dequeue_ready_thread c k)) = g_last_user_thread_cpu k"
  by (auto simp: dequeue_ready_thread_def Let_def run_queue_left_def split: option.split)

lemma done_dequeue: "k_completion_done (snd (dequeue_ready_thread c k)) = k_completion_done k"
  by (auto simp: dequeue_ready_thread_def Let_def run_queue_left_def split: option.split)

lemma steadyD:
  assumes "steady k k'"
  shows "k_cpu_cur k' = k_cpu_cur k" "ring_part k' = ring_part k" "cpu_current_thread (k_cpus k' c) = cpu_current_thread (k_cpus k c)"
    "cpu_idle_thread (k_cpus k' c) = cpu_idle_thread (k_cpus k c)" "k_completion_done k' = k_completion_done k"
  using assms by (auto simp: steady_def part_defs fun_eq_iff)

lemma rotate_inv:
  assumes inv: "kernel_inv k h v" and runs: "runs_inv k v {k_cpu_cur k}"
  obtains k2 where "(case current_thread k of
        Some t \<Rightarrow> if keep_current \<and> Some t \<noteq> idle_thread k \<and> th_state (k_threads k t) = Thread_Running
                  then mark_thread_ready t (Some (k_cpu_cur k)) k else Some k
      | None \<Rightarrow> Some k) = Some k2"
    and "kernel_inv k2 h (v\<lparr>v_runq := (v_runq v)(k_cpu_cur k := v_runq v (k_cpu_cur k) @ rotated keep_current k)\<rparr>)"
    and "steady k k2" and "\<And>u. th_state (k_threads k2 u) = (if u \<in> set (rotated keep_current k) then Thread_Ready else th_state (k_threads k u))"
proof (cases "rotated keep_current k")
  case Nil
  then have "(v_runq v)(k_cpu_cur k := v_runq v (k_cpu_cur k) @ rotated keep_current k) = v_runq v" by simp
  moreover have "(case current_thread k of
        Some t \<Rightarrow> if keep_current \<and> Some t \<noteq> idle_thread k \<and> th_state (k_threads k t) = Thread_Running
                  then mark_thread_ready t (Some (k_cpu_cur k)) k else Some k
      | None \<Rightarrow> Some k) = Some k"
    using Nil by (auto simp: rotated_def split: option.splits if_splits)
  ultimately show ?thesis using that inv Nil by simp
next
  case (Cons t ts)
  then have t: "current_thread k = Some t" "keep_current" "Some t \<noteq> idle_thread k" "th_state (k_threads k t) = Thread_Running"
    and rot: "rotated keep_current k = [t]"
    by (auto simp: rotated_def split: option.splits if_splits)
  have c: "k_cpu_cur k \<in> set (v_cpus v)" using kernel_invD(3) [OF inv] by (simp add: ring_inv_def)
  have reg: "t \<in> set (v_threads v)" using runs c t(1) by (auto elim!: runs_invE simp: current_thread_def)
  have noidle: "cpu_idle_thread (k_cpus k d) \<noteq> Some t" for d
    using runs_inv_distinct(3) [OF runs c, of d] t(1,3) by (cases "d = k_cpu_cur k") (auto simp: current_thread_def idle_thread_def idle_thread_for_cpu_def)
  have nowait: "t \<notin> set (v_wait v i)" for i using kernel_invD(11) [OF inv] t(4) by fastforce
  have "t \<notin> set (v_runq v d)" for d using kernel_invD(9) [OF inv] t(4) by fastforce
  then have free: "th_run_queue_cpu (k_threads k t) = None" using not_queued [OF kernel_invD(5) [OF inv]] by blast
  obtain k2 Q where r: "mark_thread_ready t (Some (k_cpu_cur k)) k = Some k2" "kernel_inv k2 h (v\<lparr>v_runq := Q\<rparr>)" "steady k k2" "readied t k k2"
    "Q = (v_runq v)(k_cpu_cur k := v_runq v (k_cpu_cur k) @ [t])"
    by (rule mark_thread_ready_at [OF inv reg nowait noidle, of "Some (k_cpu_cur k)"]) (use t(4) free in auto)
  show ?thesis
    by (rule that [of k2], unfold rot) (use t r in \<open>auto simp: readied_def simp del: fun_upd_apply\<close>)
qed

text \<open>The thread chosen: the first of the local queue, or the idle thread of the CPU.\<close>

definition chosen :: "kernel \<Rightarrow> thread_ref list \<Rightarrow> thread_ref option" where
  "chosen k q = (case q of [] \<Rightarrow> idle_thread k | t # _ \<Rightarrow> Some t)"

lemma pick_inv:
  assumes inv: "kernel_inv k h v" and idle: "idle_thread k \<noteq> None"
  defines "c \<equiv> k_cpu_cur k"
  obtains n k3 where "next_runnable_thread k = (case v_runq v c of [] \<Rightarrow> None | t # _ \<Rightarrow> Some t, k3)"
    and "chosen k (v_runq v c) = Some n" and "kernel_inv k3 h (v\<lparr>v_runq := (v_runq v)(c := tl (v_runq v c))\<rparr>)" and "keeps k k3"
    and "\<And>u. th_state (k_threads k3 u) = th_state (k_threads k u)"
    and "\<And>d. n \<notin> set (((v_runq v)(c := tl (v_runq v c))) d)" and "\<And>i. n \<notin> set (v_wait v i)"
proof (cases "v_runq v c")
  case Nil
  have "(v_runq v)(c := tl (v_runq v c)) = v_runq v" using Nil by auto
  moreover obtain n where n: "idle_thread k = Some n" using idle by auto
  moreover have "n \<notin> set (v_runq v d)" "n \<notin> set (v_wait v i)" for d i
    using kernel_invD(13,14) [OF inv] n by (auto simp: idle_thread_def idle_thread_for_cpu_def)
  ultimately show ?thesis
    using that [of k n] inv dequeue_ready_empty [OF kernel_invD(5) [OF inv] Nil] Nil by (simp add: next_runnable_thread_def chosen_def c_def)
next
  case (Cons n ts)
  obtain k3 where k3: "dequeue_ready_thread c k = (Some n, k3)" "rq_inv k3 ((v_runq v)(c := ts))" "same_but_queues k k3"
    by (rule dequeue_ready_inv [OF kernel_invD(5) [OF inv] Cons])
  have g: "g_last_user_thread_cpu k3 = g_last_user_thread_cpu k" "k_completion_done k3 = k_completion_done k"
    using g_last_dequeue [of c k] done_dequeue [of c k] k3(1) by simp_all
  have "kernel_inv k3 h (v\<lparr>v_runq := (v_runq v)(c := ts)\<rparr>)"
  proof (rule kernel_inv_requeue [OF inv k3(3) g(1) k3(2)])
    fix d t assume "t \<in> set (((v_runq v)(c := ts)) d)"
    then have "\<exists>d'. t \<in> set (v_runq v d')" using Cons by (auto split: if_splits intro: exI [of _ c])
    then show "t \<in> set (v_threads v) \<and> th_state (k_threads k t) = Thread_Ready \<and> (\<forall>d. cpu_idle_thread (k_cpus k d) \<noteq> Some t)"
      using kernel_invD(8,9,13) [OF inv] by blast
  qed
  then have inv3: "kernel_inv k3 h (v\<lparr>v_runq := (v_runq v)(c := tl (v_runq v c))\<rparr>)" using Cons by simp
  have n: "n \<in> set (v_runq v c)" using Cons by simp
  have "th_run_queue_cpu (k_threads k3 n) = None"
    using k3(1) by (auto simp: dequeue_ready_thread_def Let_def run_queue_left_def split: option.splits)
  then have q: "n \<notin> set (((v_runq v)(c := tl (v_runq v c))) d)" for d using not_queued [OF k3(2)] Cons by simp
  have w: "n \<notin> set (v_wait v i)" for i using kernel_invD(9) [OF inv n] kernel_invD(11) [OF inv] by fastforce
  show ?thesis
    by (rule that [OF _ _ inv3 same_but_queues_keeps [OF k3(3) g(2)] _ q w])
      (use k3 Cons in \<open>simp_all add: next_runnable_thread_def chosen_def c_def same_but_queues_def\<close>)
qed

lemma runs_inv_switch:
  assumes runs: "runs_inv k v {c}" and c: "c \<in> set (v_cpus v)" and n: "n \<in> set (v_threads v)"
    and other: "\<And>d. d \<in> set (v_cpus v) \<Longrightarrow> d \<noteq> c \<Longrightarrow> cpu_current_thread (k_cpus k d) \<noteq> Some n" "\<And>d. d \<noteq> c \<Longrightarrow> cpu_idle_thread (k_cpus k d) \<noteq> Some n"
    and st: "\<And>u. th_state (k_threads k' u) = (if u = n then Thread_Running else if u \<in> R then Thread_Ready else th_state (k_threads k u))"
    and R: "\<And>u. u \<in> R \<Longrightarrow> cpu_current_thread (k_cpus k c) = Some u"
    and idle: "\<And>d. cpu_idle_thread (k_cpus k' d) = cpu_idle_thread (k_cpus k d)"
    and cur: "\<And>d. cpu_current_thread (k_cpus k' d) = (if d = c then Some n else cpu_current_thread (k_cpus k d))"
    and v: "v_threads v' = v_threads v" "v_cpus v' = v_cpus v"
  shows "runs_inv k' v' {}"
proof -
  have "\<exists>i t. cpu_idle_thread (k_cpus k' d) = Some i \<and> i \<in> set (v_threads v) \<and> th_state (k_threads k' i) \<in> {Thread_Ready, Thread_Running} \<and>
      cpu_current_thread (k_cpus k' d) = Some t \<and> t \<in> set (v_threads v) \<and> th_state (k_threads k' t) = Thread_Running"
    if d: "d \<in> set (v_cpus v)" for d
  proof (rule runs_invE [OF runs d])
    fix i t
    assume a: "cpu_idle_thread (k_cpus k d) = Some i" "i \<in> set (v_threads v)" "th_state (k_threads k i) \<in> {Thread_Ready, Thread_Running}"
      "cpu_current_thread (k_cpus k d) = Some t" "t \<in> set (v_threads v)" "d \<notin> {c} \<Longrightarrow> th_state (k_threads k t) = Thread_Running"
    have i: "th_state (k_threads k' i) \<in> {Thread_Ready, Thread_Running}" using a(3) st by auto
    show ?thesis
    proof (cases "d = c")
      case True
      then show ?thesis using a(1,2) i n st idle cur by auto
    next
      case False
      then have "t \<noteq> n" "t \<notin> R" using other(1) [OF d] a(4) R runs_inv_distinct(1) [OF runs d False c] by auto
      then show ?thesis using a i False st idle cur by auto
    qed
  qed
  moreover have "cpu_current_thread (k_cpus k' d) \<noteq> cpu_current_thread (k_cpus k' e)" if "d \<in> set (v_cpus v)" "e \<in> set (v_cpus v)" "d \<noteq> e" for d e
    using other(1) [of d] other(1) [of e, THEN not_sym] that runs_inv_distinct(1) [OF runs that(1,3,2)] by (cases "d = c"; cases "e = c") (simp_all add: cur)
  moreover have "cpu_idle_thread (k_cpus k' d) \<noteq> cpu_idle_thread (k_cpus k' e) \<and> cpu_current_thread (k_cpus k' d) \<noteq> cpu_idle_thread (k_cpus k' e)"
    if "d \<in> set (v_cpus v)" "d \<noteq> e" for d e
    using other(2) [of e, THEN not_sym] that runs_inv_distinct(2,3) [OF runs that] by (cases "d = c"; cases "e = c") (simp_all add: cur idle)
  ultimately show ?thesis unfolding runs_inv_def v by (intro conjI ballI allI impI) blast+
qed

lemma schedule_rest_inv:
  fixes k :: kernel and v :: views and keep_current :: bool
  assumes inv: "kernel_inv k h v" and runs: "runs_inv k v {k_cpu_cur k}"
  defines "c \<equiv> k_cpu_cur k"
  defines "q \<equiv> v_runq v c @ rotated keep_current k"
  obtains n k' where "schedule_rest keep_current k = Some (Some n, k')" and "chosen k q = Some n"
    and "kernel_inv k' h (v\<lparr>v_runq := (v_runq v)(c := tl q)\<rparr>)" and "steady k k'" and "n \<in> set (v_threads v)"
    and "\<And>u. th_state (k_threads k' u) = (if u = n then Thread_Running else if u \<in> set (rotated keep_current k) then Thread_Ready else th_state (k_threads k u))"
proof -
  have c: "c \<in> set (v_cpus v)" using kernel_invD(3) [OF inv] by (simp add: ring_inv_def c_def)
  obtain i where i: "cpu_idle_thread (k_cpus k c) = Some i" "i \<in> set (v_threads v)" "th_state (k_threads k i) \<in> {Thread_Ready, Thread_Running}"
    by (rule runs_invE [OF runs c])
  obtain k2 where k2: "(case current_thread k of
        Some t \<Rightarrow> if keep_current \<and> Some t \<noteq> idle_thread k \<and> th_state (k_threads k t) = Thread_Running
                  then mark_thread_ready t (Some (k_cpu_cur k)) k else Some k
      | None \<Rightarrow> Some k) = Some k2"
    "kernel_inv k2 h (v\<lparr>v_runq := (v_runq v)(c := q)\<rparr>)" "steady k k2"
    "\<And>u. th_state (k_threads k2 u) = (if u \<in> set (rotated keep_current k) then Thread_Ready else th_state (k_threads k u))"
    by (rule rotate_inv [OF inv runs, of keep_current]) (simp add: c_def q_def)
  note s2 = steadyD [OF k2(3)]
  let ?k2 = "upd_cpu c (\<lambda>c. c\<lparr>cpu_reschedule_pending := 0\<rparr>) k2" and ?v2 = "v\<lparr>v_runq := (v_runq v)(c := q)\<rparr>"
  have inv2: "kernel_inv ?k2 h ?v2" by (rule kernel_inv_same [OF k2(2)]) (simp_all add: same_links_def)
  have st2: "steady k ?k2" using k2(3) by (simp add: steady_def)
  have cur2: "k_cpu_cur ?k2 = c" using s2(1) by (simp add: c_def)
  have idle2: "idle_thread ?k2 = Some i" using s2(4) i(1) cur2 by (simp add: idle_thread_def idle_thread_for_cpu_def)
  have q2: "v_runq ?v2 c = q" "idle_thread ?k2 \<noteq> None" using idle2 by simp_all
  obtain n k3 where k3: "next_runnable_thread ?k2 = (case q of [] \<Rightarrow> None | t # _ \<Rightarrow> Some t, k3)" "chosen ?k2 q = Some n"
    "kernel_inv k3 h (?v2\<lparr>v_runq := (v_runq ?v2)(c := tl q)\<rparr>)" "keeps ?k2 k3" "\<And>u. th_state (k_threads k3 u) = th_state (k_threads ?k2 u)"
    "\<And>d. n \<notin> set (((v_runq ?v2)(c := tl q)) d)" "\<And>i. n \<notin> set (v_wait ?v2 i)"
    by (rule pick_inv [OF inv2 q2(2), unfolded cur2 q2(1)]) (rule that)
  have n: "n \<in> set (v_threads v)" "th_state (k_threads k3 n) \<in> {Thread_Ready, Thread_Running}"
  proof -
    have "n = i \<and> q = [] \<or> n \<in> set (v_runq ?v2 c)" using k3(2) idle2 by (cases q) (auto simp: chosen_def)
    then show "n \<in> set (v_threads v)" "th_state (k_threads k3 n) \<in> {Thread_Ready, Thread_Running}"
      using i(2,3) kernel_invD(8,9) [OF inv2, of n c] k2(4) k3(5) by auto
  qed
  define k4 where "k4 = set_process_state n Process_Running (upd_thread n (\<lambda>x. x\<lparr>th_state := Thread_Running\<rparr>) k3)"
  let ?v' = "v\<lparr>v_runq := (v_runq v)(c := tl q)\<rparr>"
  have "kernel_inv k3 h ?v'" using k3(3) by simp
  then have inv4: "kernel_inv k4 h ?v'"
    unfolding k4_def by (rule kernel_inv_links [OF _ only_state_links(1)])
      (use k3(6,7) kernel_invD(9,11) [OF k3(3)] in \<open>auto simp del: fun_upd_apply simp: fun_upd_apply [of "k_threads k3"]\<close>)
  define k' where "k' = (if Some n \<noteq> current_thread k
    then kernel_record 2 0 (thread_pid k4 (current_thread k)) (thread_tid k4 (current_thread k)) (thread_pid k4 (Some n)) (thread_tid k4 (Some n)) k4
    else k4)"
  have idle_eq: "idle_thread k = idle_thread ?k2" using idle2 i(1) by (simp add: idle_thread_def idle_thread_for_cpu_def c_def)
  have idle3: "cpu_idle_thread (k_cpus k3 c) = Some i" using steadyD(4) [of ?k2 k3 c] k3(4) i(1) s2(4) by (simp add: keeps_def)
  have picked: "(case case q of [] \<Rightarrow> None | t # _ \<Rightarrow> Some t of None \<Rightarrow> cpu_idle_thread (k_cpus k3 c) | Some t \<Rightarrow> Some t) = Some n"
    using k3(2) idle2 idle3 by (cases q) (simp_all add: chosen_def)
  have run: "schedule_rest keep_current k = Some (Some n, k')"
    unfolding schedule_rest_def Let_def k2(1) k'_def k4_def using k3(1) picked by (cases q; cases "current_thread k = Some n") (simp_all add: c_def [symmetric])
  have ch: "chosen k q = Some n" using k3(2) idle_eq by (cases q) (simp_all add: chosen_def)
  have inv': "kernel_inv k' h ?v'" using inv4 kernel_inv_same [OF inv4 only_state_links(5)] by (simp add: k'_def)
  have "steady k3 k'" using n(2) by (auto simp: k'_def k4_def steady_def)
  then have st': "steady k k'" using steady_trans [OF st2] k3(4) steady_trans by (auto simp: keeps_def)
  have states: "th_state (k_threads k' u) = (if u = n then Thread_Running else if u \<in> set (rotated keep_current k) then Thread_Ready else th_state (k_threads k u))" for u
    using k3(5) [of u] k2(4) [of u] by (simp add: k'_def k4_def)
  show ?thesis by (rule that [OF run ch inv' st' n(1) states])
qed

section \<open>Switching\<close>

lemma trap_return_current:
  assumes "k_cpu_cur k = c"
  shows "cpu_current_thread (k_cpus (trap_return user_frame (Some n) k) d) = (if d = c then Some n else cpu_current_thread (k_cpus k d))"
    and "cpu_idle_thread (k_cpus (trap_return user_frame (Some n) k) d) = cpu_idle_thread (k_cpus k d)"
    and "k_threads (trap_return user_frame (Some n) k) = k_threads k" and "k_completion_done (trap_return user_frame (Some n) k) = k_completion_done k"
    and "ring_part (trap_return user_frame (Some n) k) = ring_part k" and "same_links k (trap_return user_frame (Some n) k)"
  using assms by (auto simp: trap_return_def restore_thread_def current_thread_def same_links_def)

lemma switch_rest_inv:
  fixes k :: kernel and v :: views and keep_current user_frame :: bool
  assumes inv: "kernel_inv k (\<lambda>_. None) v" and runs: "runs_inv k v {k_cpu_cur k}"
  defines "c \<equiv> k_cpu_cur k"
  defines "q \<equiv> v_runq v c @ rotated keep_current k"
  obtains n k' where "do { (chosen, k1) \<leftarrow> schedule_rest keep_current k; Some (trap_return user_frame chosen k1) } = Some k'"
    and "chosen k q = Some n" and "current_thread k' = Some n" and "kernel_inv k' (\<lambda>_. None) (v\<lparr>v_runq := (v_runq v)(c := tl q)\<rparr>)"
    and "runs_inv k' (v\<lparr>v_runq := (v_runq v)(c := tl q)\<rparr>) {}" and "ring_part k' = ring_part k" and "k_completion_done k' = k_completion_done k"
    and "\<And>u. th_state (k_threads k' u) = (if u = n then Thread_Running else if u \<in> set (rotated keep_current k) then Thread_Ready else th_state (k_threads k u))"
    and "\<And>d. cpu_idle_thread (k_cpus k' d) = cpu_idle_thread (k_cpus k d)"
    and "\<And>d. d \<noteq> c \<Longrightarrow> cpu_current_thread (k_cpus k' d) = cpu_current_thread (k_cpus k d)"
proof -
  have c: "c \<in> set (v_cpus v)" using kernel_invD(3) [OF inv] by (simp add: ring_inv_def c_def)
  obtain n k1 where r: "schedule_rest keep_current k = Some (Some n, k1)" "chosen k q = Some n"
    "kernel_inv k1 (\<lambda>_. None) (v\<lparr>v_runq := (v_runq v)(c := tl q)\<rparr>)" "steady k k1" "n \<in> set (v_threads v)"
    "\<And>u. th_state (k_threads k1 u) = (if u = n then Thread_Running else if u \<in> set (rotated keep_current k) then Thread_Ready else th_state (k_threads k u))"
    by (rule schedule_rest_inv [OF inv runs, of keep_current, folded c_def, folded q_def]) (rule that)
  let ?k = "trap_return user_frame (Some n) k1" and ?v = "v\<lparr>v_runq := (v_runq v)(c := tl q)\<rparr>"
  note s = steadyD [OF r(4)]
  have tr: "k_cpu_cur k1 = c" using s(1) by (simp add: c_def)
  note t = trap_return_current [OF tr, of user_frame n]
  have cc: "current_thread ?k = Some n" using t(1) [of c] t(5) tr by (simp add: current_thread_def ring_part_def)
  have inv': "kernel_inv ?k (\<lambda>_. None) ?v" by (rule kernel_inv_same [OF r(3) t(6)]) (simp add: t(3))
  have rot: "u \<in> set (rotated keep_current k) \<Longrightarrow> cpu_current_thread (k_cpus k c) = Some u" for u
    by (auto simp: rotated_def current_thread_def c_def split: option.splits if_splits)
  have src: "n \<in> set (v_runq v c) \<or> cpu_current_thread (k_cpus k c) = Some n \<and> Some n \<noteq> cpu_idle_thread (k_cpus k c) \<or> cpu_idle_thread (k_cpus k c) = Some n"
    using r(2) rot by (cases q) (auto simp: chosen_def q_def idle_thread_def idle_thread_for_cpu_def c_def append_eq_Cons_conv)
  have n_cur: "cpu_current_thread (k_cpus k d) \<noteq> Some n" if d: "d \<in> set (v_cpus v)" "d \<noteq> c" for d
  proof (rule runs_invE [OF runs d(1)])
    fix i t assume t: "cpu_current_thread (k_cpus k d) = Some t" "d \<notin> {k_cpu_cur k} \<Longrightarrow> th_state (k_threads k t) = Thread_Running"
    then show ?thesis
      using src kernel_invD(9) [OF inv, of n c] runs_inv_distinct [OF runs d] runs_inv_distinct(1) [OF runs c d(2) [symmetric] d(1)] d(2) by (auto simp: c_def)
  qed
  have n_idle: "cpu_idle_thread (k_cpus k d) \<noteq> Some n" if d: "d \<noteq> c" for d
    using src kernel_invD(13) [OF inv, of d n c] runs_inv_distinct(2,3) [OF runs c d [symmetric]] by auto
  have runs': "runs_inv ?k ?v {}"
    by (rule runs_inv_switch [OF runs [folded c_def] c r(5) n_cur n_idle, of _ "set (rotated keep_current k)"])
      (use r(6) t s rot in \<open>simp_all\<close>)
  show ?thesis
    by (rule that [of ?k n]) (use r inv' runs' t s cc in simp_all)
qed

text \<open>The switch with its reaping, which may wake waiting parents.\<close>

lemma switch_thread_inv:
  assumes inv: "kernel_inv k (\<lambda>_. None) v" and runs: "runs_inv k v {k_cpu_cur k}"
  obtains k' v' where "switch_thread user_frame keep_current k = Some k'" and "kernel_inv k' (\<lambda>_. None) v'" and "runs_inv k' v' {}"
    and "v_cpus v' = v_cpus v" and "same_waits v v'" and "k_completion_done k' = k_completion_done k"
proof -
  obtain k1 v1 where r: "(if cpu_on_boot k then reap_dead_threads k else Some k) = Some k1" "kernel_inv k1 (\<lambda>_. None) v1" "v_cpus v1 = v_cpus v"
    "runs_inv k1 v1 {k_cpu_cur k}" "k_cpu_cur k1 = k_cpu_cur k" "same_waits v v1" "k_completion_done k1 = k_completion_done k"
  proof (cases "cpu_on_boot k")
    case True
    obtain k1 v1 where "reap_dead_threads k = Some k1" "kernel_inv k1 (\<lambda>_. None) v1" "v_cpus v1 = v_cpus v"
      "v_threads v1 = filter (\<lambda>t. \<not> dead k (v_cpus v) t) (v_threads v)" "spares {t. dead k (v_cpus v) t} k k1" "same_waits v v1"
      using reap_dead_threads_inv [OF inv] by blast
    then show ?thesis
      using that [of k1 v1] True runs_inv_reap [OF runs] by (simp add: spares_def ring_part_def)
  next
    case False
    then show ?thesis using that [of k v] inv runs by (simp add: same_waits_def)
  qed
  have runs1: "runs_inv k1 v1 {k_cpu_cur k1}" using r(4,5) by simp
  obtain n k2 where s: "do { (chosen, k1) \<leftarrow> schedule_rest keep_current k1; Some (trap_return user_frame chosen k1) } = Some k2"
    "kernel_inv k2 (\<lambda>_. None) (v1\<lparr>v_runq := (v_runq v1)(k_cpu_cur k1 := tl (v_runq v1 (k_cpu_cur k1) @ rotated keep_current k1))\<rparr>)"
    "runs_inv k2 (v1\<lparr>v_runq := (v_runq v1)(k_cpu_cur k1 := tl (v_runq v1 (k_cpu_cur k1) @ rotated keep_current k1))\<rparr>) {}"
    "k_completion_done k2 = k_completion_done k1"
    by (rule switch_rest_inv [OF r(2) runs1]) (rule that)
  have "switch_thread user_frame keep_current k = Some k2"
    using r(1) s(1) by (simp add: switch_thread_def schedule_next_eq)
  then show ?thesis using that [OF _ s(2,3)] r(3,6,7) s(4) by (simp add: same_waits_def)
qed

text \<open>Nothing to reap, the choice is exactly the next of the local queue.\<close>

lemma switch_thread_exact:
  fixes k :: kernel and v :: views and keep_current user_frame :: bool
  assumes inv: "kernel_inv k (\<lambda>_. None) v" and runs: "runs_inv k v {k_cpu_cur k}"
    and alive: "\<And>t. t \<in> set (v_threads v) \<Longrightarrow> \<not> dead k (v_cpus v) t"
  defines "c \<equiv> k_cpu_cur k"
  defines "q \<equiv> v_runq v c @ rotated keep_current k"
  obtains n k' where "switch_thread user_frame keep_current k = Some k'"
    and "chosen k q = Some n" and "current_thread k' = Some n" and "kernel_inv k' (\<lambda>_. None) (v\<lparr>v_runq := (v_runq v)(c := tl q)\<rparr>)"
    and "runs_inv k' (v\<lparr>v_runq := (v_runq v)(c := tl q)\<rparr>) {}" and "ring_part k' = ring_part k"
    and "\<And>u. th_state (k_threads k' u) = (if u = n then Thread_Running else if u \<in> set (rotated keep_current k) then Thread_Ready else th_state (k_threads k u))"
    and "\<And>d. cpu_idle_thread (k_cpus k' d) = cpu_idle_thread (k_cpus k d)"
proof -
  have "List.find (dead k (v_cpus v)) (v_threads v) = None" using alive by (simp add: find_None_iff)
  then have "reap_dead_threads k = Some k"
    using find_dead_run [OF kernel_invD(3) [OF inv] thread_chain [OF kernel_invD(1) [OF inv]]] by (subst reap_dead_threads.simps) simp
  then have eq: "switch_thread user_frame keep_current k = do { (chosen, k1) \<leftarrow> schedule_rest keep_current k; Some (trap_return user_frame chosen k1) }"
    by (simp add: switch_thread_def schedule_next_eq)
  show ?thesis
    by (rule switch_rest_inv [OF inv runs, of keep_current user_frame, folded c_def, folded q_def eq]) (rule that)
qed

end
