(* ===== verification/Kernel_Steps.thy ===== *)
theory Kernel_Steps
  imports Switch_Spec
begin

text \<open>
  The traps of the kernel as steps: the system calls that block, yield or exit, the signals of
  completions and the timer tick, each with the switch that ends it. A step runs to its end on one
  CPU before another CPU takes over.
\<close>

section \<open>Blocking\<close>

lemma keeps_steady: "keeps k k' \<Longrightarrow> steady k k'"
  by (simp add: keeps_def)

lemmas keepsD = steadyD [OF keeps_steady]

lemma current_running:
  assumes "runs_inv k v {}" and "kernel_inv k h v"
  obtains t where "current_thread k = Some t" "t \<in> set (v_threads v)" "th_state (k_threads k t) = Thread_Running"
    "\<And>d. t \<notin> set (v_runq v d)" "\<And>i. t \<notin> set (v_wait v i)" "k_cpu_cur k \<in> set (v_cpus v)"
proof -
  have c: "k_cpu_cur k \<in> set (v_cpus v)" using kernel_invD(3) [OF assms(2)] by (simp add: ring_inv_def)
  obtain t where t: "current_thread k = Some t" "t \<in> set (v_threads v)" "th_state (k_threads k t) = Thread_Running"
    by (rule runs_invE [OF assms(1) c]) (use that in \<open>auto simp: current_thread_def\<close>)
  moreover have "t \<notin> set (v_runq v d)" "t \<notin> set (v_wait v i)" for d i using kernel_invD(9,11) [OF assms(2)] t(3) by fastforce+
  ultimately show ?thesis using that c by blast
qed

lemma current_not_idle:
  assumes "runs_inv k v D" and "k_cpu_cur k \<in> set (v_cpus v)" and "current_thread k = Some t" and "current_thread k \<noteq> idle_thread k"
  shows "cpu_idle_thread (k_cpus k d) \<noteq> Some t"
  using runs_inv_distinct(3) [OF assms(1,2), of d] assms(3,4)
  by (cases "d = k_cpu_cur k") (auto simp: current_thread_def idle_thread_def idle_thread_for_cpu_def)

text \<open>The thread a CPU runs leaves the running state inside a trap.\<close>

lemma runs_inv_leave:
  assumes runs: "runs_inv k v {}" and c: "k_cpu_cur k \<in> set (v_cpus v)" and t: "current_thread k = Some t" "current_thread k \<noteq> idle_thread k"
    and cpus: "k_cpus k' = k_cpus k" and st: "\<And>u. u \<noteq> t \<Longrightarrow> th_state (k_threads k' u) = th_state (k_threads k u)"
  shows "runs_inv k' v {k_cpu_cur k}"
proof -
  have "\<exists>i u. cpu_idle_thread (k_cpus k d) = Some i \<and> i \<in> set (v_threads v) \<and> th_state (k_threads k' i) \<in> {Thread_Ready, Thread_Running} \<and>
      cpu_current_thread (k_cpus k d) = Some u \<and> u \<in> set (v_threads v) \<and> (d \<notin> {k_cpu_cur k} \<longrightarrow> th_state (k_threads k' u) = Thread_Running)"
    if d: "d \<in> set (v_cpus v)" for d
  proof (rule runs_invE [OF runs d])
    fix i u
    assume a: "cpu_idle_thread (k_cpus k d) = Some i" "i \<in> set (v_threads v)" "th_state (k_threads k i) \<in> {Thread_Ready, Thread_Running}"
      "cpu_current_thread (k_cpus k d) = Some u" "u \<in> set (v_threads v)" "d \<notin> {} \<Longrightarrow> th_state (k_threads k u) = Thread_Running"
    have "i \<noteq> t" using current_not_idle [OF runs c t, of d] a(1) by auto
    moreover have "u \<noteq> t" if "d \<noteq> k_cpu_cur k" using runs_inv_distinct(1) [OF runs d that c] a(4) t(1) by (auto simp: current_thread_def)
    ultimately show ?thesis using a st by auto
  qed
  then show ?thesis using runs unfolding runs_inv_def cpus by blast
qed

lemma enter_wait_inv:
  assumes inv: "kernel_inv k h v" and runs: "runs_inv k v {}" and t: "current_thread k = Some t" "current_thread k \<noteq> idle_thread k"
  shows "kernel_inv (enter_wait t wait k) h v" and "runs_inv (enter_wait t wait k) v {k_cpu_cur k}"
    and "t \<in> set (v_threads v)" "\<And>i. t \<notin> set (v_wait v i)" "\<And>d. cpu_idle_thread (k_cpus (enter_wait t wait k) d) \<noteq> Some t"
    and "th_state (k_threads (enter_wait t wait k) t) = Thread_Blocked" "k_cpu_cur (enter_wait t wait k) = k_cpu_cur k"
    and "k_completion_done (enter_wait t wait k) = k_completion_done k" "\<And>u. th_process (k_threads (enter_wait t wait k) u) = th_process (k_threads k u)"
proof -
  let ?k = "enter_wait t wait k"
  obtain t' where cur: "current_thread k = Some t'" "t' \<in> set (v_threads v)" "\<And>d. t' \<notin> set (v_runq v d)" "\<And>i. t' \<notin> set (v_wait v i)"
    "k_cpu_cur k \<in> set (v_cpus v)"
    by (rule current_running [OF runs inv]) (rule that)
  have "same_links k ?k" by (simp add: same_links_def enter_wait_def)
  then show "kernel_inv ?k h v"
    by (rule kernel_inv_links [OF inv]) (use t cur kernel_invD(9,11) [OF inv] in \<open>auto simp: enter_wait_def\<close>)
  show "t \<in> set (v_threads v)" "t \<notin> set (v_wait v i)" for i using cur t by auto
  show "runs_inv ?k v {k_cpu_cur k}" by (rule runs_inv_leave [OF runs cur(5) t]) (simp_all add: enter_wait_def)
  show "cpu_idle_thread (k_cpus ?k d) \<noteq> Some t" for d using current_not_idle [OF runs cur(5) t, of d] by (simp add: enter_wait_def)
qed (simp_all add: enter_wait_def)

text \<open>A thread that blocks on a completion does so only if the completion is not done.\<close>

definition waits_inv :: "kernel \<Rightarrow> views \<Rightarrow> bool" where
  "waits_inv k v \<longleftrightarrow> (\<forall>c. k_completion_done k c \<longrightarrow> v_wait v (Inl (CompletionQueue c)) = [])"

lemma waits_inv_cong: "k_completion_done k' = k_completion_done k \<Longrightarrow> same_waits v v' \<Longrightarrow> waits_inv k v \<Longrightarrow> waits_inv k' v'"
  by (simp add: waits_inv_def same_waits_def)

text \<open>The state all CPUs but those of \<open>D\<close> are in between traps.\<close>

definition system_inv :: "kernel \<Rightarrow> views \<Rightarrow> cpu_ref set \<Rightarrow> bool" where
  "system_inv k v D \<longleftrightarrow> kernel_inv k (\<lambda>_. None) v \<and> runs_inv k v D \<and> waits_inv k v"

lemma block_current_thread_inv:
  assumes inv: "system_inv k v {}" and t: "current_thread k \<noteq> idle_thread k" and q: "\<And>p. q \<noteq> ChildExitQueue p"
    and completion: "\<And>c. q = CompletionQueue c \<Longrightarrow> w_reason wait = Wait_BlockIo \<and> w_word0 wait = c \<and> c \<noteq> 0"
  obtains b k' v' where "block_current_thread wait (Some q) k = Some (b, k')" and "system_inv k' v' {k_cpu_cur k}" and "k_cpu_cur k' = k_cpu_cur k"
proof -
  have parts: "kernel_inv k (\<lambda>_. None) v" "runs_inv k v {}" "waits_inv k v" using inv by (simp_all add: system_inv_def)
  obtain t where cur: "current_thread k = Some t" "th_state (k_threads k t) = Thread_Running" by (rule current_running [OF parts(2,1)]) (rule that)
  show ?thesis
  proof (cases "w_reason wait = Wait_BlockIo \<and> w_word0 wait \<noteq> 0 \<and> completion_done (w_word0 wait) k")
    case True
    then have "block_current_thread wait (Some q) k = Some (False, k)" using cur by (simp add: block_current_thread_def)
    then show ?thesis using that [of False k v] inv runs_inv_weaken [OF parts(2)] by (simp add: system_inv_def)
  next
    case False
    note e = enter_wait_inv [OF parts(1,2) cur(1) t]
    obtain k' where w: "wait_queue_enqueue_locked q t (enter_wait t wait k) = Some k'"
      "kernel_inv k' (\<lambda>_. None) (v\<lparr>v_wait := (v_wait v)(Inl q := v_wait v (Inl q) @ [t])\<rparr>)" "keeps (enter_wait t wait k) k'"
      by (rule enqueue_wait_inv [OF e(1,3,4,5,6), of q]) (use q in auto)
    let ?v = "v\<lparr>v_wait := (v_wait v)(Inl q := v_wait v (Inl q) @ [t])\<rparr>"
    have compl: "k_completion_done k' = k_completion_done k" using keepsD(5) [OF w(3)] e(8) by simp
    have "waits_inv k' ?v"
      using parts(3) completion False unfolding waits_inv_def compl by (auto simp: completion_done_def)
    moreover have "runs_inv k' ?v {k_cpu_cur k}" by (rule runs_inv_keeps [OF e(2) w(3)]) simp_all
    moreover have "block_current_thread wait (Some q) k = Some (True, k')" using cur False w(1) by (auto simp: block_current_thread_def)
    moreover have "k_cpu_cur k' = k_cpu_cur k" using keepsD(1) [OF w(3)] e(7) by simp
    ultimately show ?thesis using that w(2) by (simp add: system_inv_def)
  qed
qed

lemma mark_dying_inv:
  assumes inv: "system_inv k v {}" and idle: "current_thread k \<noteq> idle_thread k"
  shows "system_inv (mark_current_thread_dying status k) v {k_cpu_cur k}" and "k_cpu_cur (mark_current_thread_dying status k) = k_cpu_cur k"
proof -
  have parts: "kernel_inv k (\<lambda>_. None) v" "runs_inv k v {}" "waits_inv k v" using inv by (simp_all add: system_inv_def)
  obtain t where t: "current_thread k = Some t" "\<And>d. t \<notin> set (v_runq v d)" "\<And>i. t \<notin> set (v_wait v i)" "k_cpu_cur k \<in> set (v_cpus v)"
    by (rule current_running [OF parts(2,1)]) (rule that)
  let ?k = "mark_current_thread_dying status k"
  have f: "same_links k ?k" "k_cpus ?k = k_cpus k" "k_completion_done ?k = k_completion_done k" "k_cpu_cur ?k = k_cpu_cur k"
    "th_state (k_threads ?k u) = (if u = t then Thread_Dying else th_state (k_threads k u))" for u
    using t(1) by (auto simp: mark_current_thread_dying_def same_links_def clear_thread_wait_def Let_def split: option.split)
  then show "k_cpu_cur ?k = k_cpu_cur k" by simp
  have "kernel_inv ?k (\<lambda>_. None) v"
    by (rule kernel_inv_links [OF parts(1) f(1)]) (use t kernel_invD(9,11) [OF parts(1)] f(5) in auto)
  moreover have "runs_inv ?k v {k_cpu_cur k}" by (rule runs_inv_leave [OF parts(2) t(4,1) idle f(2)]) (simp add: f(5))
  ultimately show "system_inv ?k v {k_cpu_cur k}" using parts(3) f(3) by (simp add: system_inv_def waits_inv_def)
qed

lemma wait_pid_inv:
  assumes inv: "system_inv k v {}" and t: "current_thread k = Some t" "current_thread k \<noteq> idle_thread k"
  obtains r k' v' where "try_complete_or_block_wait_pid t pid usp k = Some (r, k')" and "system_inv k' v' {k_cpu_cur k}" and "k_cpu_cur k' = k_cpu_cur k"
    and "r \<noteq> None \<Longrightarrow> system_inv k' v' {}"
proof -
  have parts: "kernel_inv k (\<lambda>_. None) v" "runs_inv k v {}" "waits_inv k v" using inv by (simp_all add: system_inv_def)
  have stay: "system_inv k v {k_cpu_cur k}" using inv runs_inv_weaken [OF parts(2)] by (simp add: system_inv_def)
  show ?thesis
  proof (cases "th_process (k_threads k t) = None \<or> bit pid 63")
    case True
    then have "try_complete_or_block_wait_pid t pid usp k = Some (Some (NOT 0), k)"
      by (auto simp: try_complete_or_block_wait_pid_def split: option.split)
    then show ?thesis using that [OF _ stay] inv by simp
  next
    case False
    then obtain parent where p: "th_process (k_threads k t) = Some parent" "\<not> bit pid 63" by auto
    let ?zombie = "List.find (child_matches k parent pid True) (v_processes v)"
    let ?ready = "case ?zombie of None \<Rightarrow> None | Some c \<Rightarrow> if has_threads k (v_threads v) c then None else Some c"
    have run: "try_complete_or_block_wait_pid t pid usp k =
        (case ?ready of
           Some child \<Rightarrow> do { (result, k1) \<leftarrow> finish_wait t child usp k; Some (Some result, k1) }
         | None \<Rightarrow> (case List.find (child_matches k parent pid False) (v_processes v) of
             None \<Rightarrow> Some (Some (NOT 0), k)
           | Some _ \<Rightarrow> do { k1 \<leftarrow> wait_queue_enqueue_locked (ChildExitQueue parent) t (enter_wait t (child_exit_wait usp pid) k); Some (None, k1) }))"
      using p find_child_run [OF parts(1), of parent pid] process_has_threads_run [OF parts(1)]
      by (simp add: try_complete_or_block_wait_pid_def split: option.split)
    show ?thesis
    proof (cases ?ready)
      case (Some child)
      obtain r k' ps where f: "finish_wait t child usp k = Some (r, k')" "same_threads k k'" "kernel_inv k' (\<lambda>_. None) (v\<lparr>v_processes := ps\<rparr>)"
        by (rule finish_wait_inv [OF parts(1)])
      note keep = same_threads_keeps [OF f(2)]
      have "system_inv k' (v\<lparr>v_processes := ps\<rparr>) {}"
        using f(3) runs_inv_keeps [OF parts(2) keep] parts(3) keepsD(5) [OF keep] by (simp add: system_inv_def waits_inv_def)
      moreover have "system_inv k' (v\<lparr>v_processes := ps\<rparr>) {k_cpu_cur k}"
        using calculation runs_inv_weaken by (auto simp: system_inv_def)
      ultimately show ?thesis using that [of "Some r" k'] run Some f(1) keepsD(1) [OF keep] by simp
    next
      case None
      show ?thesis
      proof (cases "List.find (child_matches k parent pid False) (v_processes v)")
        case none: None
        then show ?thesis using that [OF _ stay] run None inv by simp
      next
        case some: (Some c)
        let ?w = "child_exit_wait usp pid" and ?q = "ChildExitQueue parent"
        note e = enter_wait_inv [OF parts(1,2) t]
        have owner: "?q = ChildExitQueue r \<Longrightarrow> th_process (k_threads (enter_wait t ?w k) t) = Some r" for r using p(1) e(9) by simp
        obtain k' where w: "wait_queue_enqueue_locked ?q t (enter_wait t ?w k) = Some k'"
          "kernel_inv k' (\<lambda>_. None) (v\<lparr>v_wait := (v_wait v)(Inl ?q := v_wait v (Inl ?q) @ [t])\<rparr>)" "keeps (enter_wait t ?w k) k'"
          by (rule enqueue_wait_inv [OF e(1,3,4,5,6) owner])
        let ?v = "v\<lparr>v_wait := (v_wait v)(Inl ?q := v_wait v (Inl ?q) @ [t])\<rparr>"
        have "system_inv k' ?v {k_cpu_cur k}"
          using w(2) runs_inv_keeps [OF e(2) w(3), of ?v] parts(3) keepsD(5) [OF w(3)] e(8) by (simp add: system_inv_def waits_inv_def)
        then show ?thesis using that [of None k'] run None some w(1) keepsD(1) [OF w(3)] e(7) by simp
      qed
    qed
  qed
qed

section \<open>Waking\<close>

lemma wait_queue_wake_all_inv:
  assumes inv: "kernel_inv k (\<lambda>_. None) v"
  obtains k' Q where "wait_queue_wake_all q target k = Some (of_nat (length (v_wait v (Inl q))), k')"
    and "kernel_inv k' (\<lambda>_. None) (v\<lparr>v_wait := (v_wait v)(Inl q := []), v_runq := Q\<rparr>)" and "keeps k k'" and "all_woken (v_wait v (Inl q)) k k'"
proof -
  let ?h = "(\<lambda>_. None)(0 :: nat := wq_head q k)" and ?k1 = "wq_set_head q None k"
  let ?v1 = "v\<lparr>v_wait := (v_wait v)(Inl q := [], Inr (0 :: nat) := v_wait v (Inl q))\<rparr>"
  note d = dequeue_all_inv [OF inv, of q]
  have "v_wait ?v1 (Inr 0) = v_wait v (Inl q)" by simp
  from wake_all_loop_inv [OF d(1) this, of target 0] obtain k' Q where
    w: "wake_all_loop target (?h 0) 0 ?k1 = Some (0 + of_nat (length (v_wait v (Inl q))), k')"
      "kernel_inv k' (?h(0 := None)) (?v1\<lparr>v_wait := (v_wait ?v1)(Inr 0 := []), v_runq := Q\<rparr>)" "keeps ?k1 k'" "all_woken (v_wait v (Inl q)) ?k1 k'"
    by blast
  have h: "?h(0 := None) = (\<lambda>_. None)" by auto
  have W: "(v_wait ?v1)(Inr 0 := []) = (v_wait v)(Inl q := [])" using no_detached [OF inv, of 0] by (auto simp: fun_eq_iff)
  have "?v1\<lparr>v_wait := (v_wait ?v1)(Inr 0 := []), v_runq := Q\<rparr> = v\<lparr>v_wait := (v_wait v)(Inl q := []), v_runq := Q\<rparr>"
    unfolding W by simp
  then have "kernel_inv k' (\<lambda>_. None) (v\<lparr>v_wait := (v_wait v)(Inl q := []), v_runq := Q\<rparr>)" using w(2) unfolding h by simp
  moreover have "k_threads ?k1 = k_threads k \<and> current_thread ?k1 = current_thread k" by (cases q) (simp_all add: current_thread_def)
  then have "all_woken (v_wait v (Inl q)) k k'" using w(4) by (simp add: all_woken_def)
  moreover have "wait_queue_wake_all q target k = Some (of_nat (length (v_wait v (Inl q))), k')"
    using w(1) by (simp add: wait_queue_wake_all_def wait_queue_dequeue_all_locked_def del: wq_set_head.simps wq_head.simps)
  ultimately show ?thesis using that keeps_trans [OF d(2) w(3)] by blast
qed

lemma kernel_inv_done:
  assumes "kernel_inv k h v"
  shows "kernel_inv (k\<lparr>k_completion_done := d\<rparr>) h v"
proof -
  have "wq_head q (k\<lparr>k_completion_done := d\<rparr>) = wq_head q k" for q by (cases q) simp_all
  then show ?thesis by (intro kernel_inv_same [OF assms]) (simp_all add: same_links_def part_defs)
qed

lemma completion_signal_inv:
  assumes inv: "system_inv k v D"
  obtains k' v' where "completion_signal c k = Some (\<not> k_completion_done k c, k')" and "system_inv k' v' D"
proof -
  let ?k = "k\<lparr>k_completion_done := (k_completion_done k)(c := True)\<rparr>"
  have parts: "kernel_inv k (\<lambda>_. None) v" "runs_inv k v D" "waits_inv k v" using inv by (simp_all add: system_inv_def)
  obtain k' Q where w: "wait_queue_wake_all (CompletionQueue c) None ?k = Some (of_nat (length (v_wait v (Inl (CompletionQueue c)))), k')"
    "kernel_inv k' (\<lambda>_. None) (v\<lparr>v_wait := (v_wait v)(Inl (CompletionQueue c) := []), v_runq := Q\<rparr>)" "keeps ?k k'"
    by (rule wait_queue_wake_all_inv [OF kernel_inv_done [OF parts(1)]]) (rule that)
  let ?v = "v\<lparr>v_wait := (v_wait v)(Inl (CompletionQueue c) := []), v_runq := Q\<rparr>"
  have "runs_inv ?k v D" using parts(2) by (simp add: runs_inv_def)
  then have "runs_inv k' ?v D" using w(3) by (rule runs_inv_keeps) simp_all
  moreover have "waits_inv k' ?v" using parts(3) keepsD(5) [OF w(3)] by (simp add: waits_inv_def)
  ultimately show ?thesis using that [of k' ?v] w(1,2) by (simp add: completion_signal_def system_inv_def)
qed

lemma timer_tick_inv:
  assumes inv: "system_inv k v D"
  obtains k' v' where "scheduler_handle_timer_tick k = Some k'" and "system_inv k' v' D" and "k_cpu_cur k' = k_cpu_cur k"
proof -
  have parts: "kernel_inv k (\<lambda>_. None) v" "runs_inv k v D" "waits_inv k v" using inv by (simp_all add: system_inv_def)
  let ?c = "k_cpu_cur k"
  define f :: "cpu \<Rightarrow> cpu" where "f = (\<lambda>x. x\<lparr>cpu_balance_idle_ticks := (if current_thread k = idle_thread k \<and> cpu_runq_length (k_cpus k ?c) = 0
    then cpu_balance_idle_ticks x + 1 else 0)\<rparr>)"
  let ?k = "upd_cpu ?c f k"
  have keep: "keeps k ?k" by (simp add: keeps_defs f_def)
  have inv1: "kernel_inv ?k (\<lambda>_. None) v" by (rule kernel_inv_same [OF parts(1)]) (simp_all add: same_links_def f_def)
  have tick: "system_inv k' (v\<lparr>v_runq := Q\<rparr>) D" if "kernel_inv k' (\<lambda>_. None) (v\<lparr>v_runq := Q\<rparr>)" "keeps ?k k'" for k' Q
    using that runs_inv_keeps [OF parts(2) keeps_trans [OF keep that(2)]] parts(3) keepsD(5) [OF keeps_trans [OF keep that(2)]]
    by (simp add: system_inv_def waits_inv_def)
  show ?thesis
  proof (cases "scheduler_handle_timer_tick k \<in> {Some k, Some ?k}")
    case True
    then show ?thesis using that [of k v] that [of ?k v] inv tick [of ?k "v_runq v"] inv1 by auto
  next
    case False
    then obtain now force where run: "scheduler_handle_timer_tick k = map_option snd (scheduler_balance_cpu ?c now force ?k)"
      unfolding scheduler_handle_timer_tick_def Let_def f_def by (auto split: if_splits)
    have "?c \<in> set (v_cpus v)" using kernel_invD(3) [OF parts(1)] by (simp add: ring_inv_def)
    from scheduler_balance_inv [OF inv1 this] obtain moved k' Q where
      b: "scheduler_balance_cpu ?c now force ?k = Some (moved, k')" "kernel_inv k' (\<lambda>_. None) (v\<lparr>v_runq := Q\<rparr>)" "keeps ?k k'"
      by metis
    show ?thesis using that [OF _ tick [OF b(2,3)]] run b(1) keepsD(1) [OF b(3)] by simp
  qed
qed

section \<open>The steps\<close>

text \<open>
  What a trap on the current CPU does, from the cases of \<^verbatim>\<open>handle_syscall\<close>, \<^verbatim>\<open>handle_irq\<close>,
  \<^verbatim>\<open>handle_exception\<close> and \<^verbatim>\<open>block_request_wait\<close>. The idle thread makes no system call. A thread that
  waits for a completion loops until the next tick takes its CPU away.
\<close>

inductive kernel_step :: "kernel \<Rightarrow> kernel \<Rightarrow> bool" where
  yield: "switch_thread user_frame True k = Some k' \<Longrightarrow> kernel_step k k'"
| tick: "scheduler_handle_timer_tick k = Some k1 \<Longrightarrow> switch_thread user_frame True k1 = Some k' \<Longrightarrow> kernel_step k k'"
| exit: "current_thread k \<noteq> idle_thread k \<Longrightarrow> switch_thread user_frame False (mark_current_thread_dying status k) = Some k' \<Longrightarrow> kernel_step k k'"
| read: "current_thread k \<noteq> idle_thread k \<Longrightarrow> block_current_thread_on_console_read buffer len k = Some k1 \<Longrightarrow>
    switch_thread user_frame False k1 = Some k' \<Longrightarrow> kernel_step k k'"
| block_io: "current_thread k \<noteq> idle_thread k \<Longrightarrow> c \<noteq> 0 \<Longrightarrow> block_current_thread_on_block_io (Some c) k = Some k1 \<Longrightarrow>
    switch_thread user_frame True k1 = Some k' \<Longrightarrow> kernel_step k k'"
| wait_complete: "current_thread k = Some t \<Longrightarrow> Some t \<noteq> idle_thread k \<Longrightarrow>
    try_complete_or_block_wait_pid t pid user_status_pointer k = Some (Some result, k') \<Longrightarrow> kernel_step k k'"
| wait_block: "current_thread k = Some t \<Longrightarrow> Some t \<noteq> idle_thread k \<Longrightarrow>
    try_complete_or_block_wait_pid t pid user_status_pointer k = Some (None, k1) \<Longrightarrow>
    switch_thread user_frame False k1 = Some k' \<Longrightarrow> kernel_step k k'"
| signal: "completion_signal c k = Some (first_signal, k') \<Longrightarrow> kernel_step k k'"
| reset: "kernel_step k (completion_reset c k)"
| other_cpu: "chain (\<lambda>c. cpu_next (k_cpus k c)) (g_cpu_boot k) cs \<Longrightarrow> c \<in> set cs \<Longrightarrow> kernel_step k (k\<lparr>k_cpu_cur := c\<rparr>)"

lemma switch_system_inv:
  assumes inv: "system_inv k v {k_cpu_cur k}" and run: "switch_thread user_frame keep_current k = Some k'"
  shows "\<exists>v'. system_inv k' v' {}"
proof -
  have "kernel_inv k (\<lambda>_. None) v" "runs_inv k v {k_cpu_cur k}" using inv by (simp_all add: system_inv_def)
  from switch_thread_inv [OF this, of user_frame keep_current] obtain k'' v'' where
    "switch_thread user_frame keep_current k = Some k''" "kernel_inv k'' (\<lambda>_. None) v''" "runs_inv k'' v'' {}" "same_waits v v''"
    "k_completion_done k'' = k_completion_done k" by metis
  then show ?thesis using run inv waits_inv_cong [of k'' k v v''] by (auto simp: system_inv_def)
qed

lemma system_inv_weaken: "system_inv k v {} \<Longrightarrow> system_inv k v D"
  using runs_inv_weaken by (auto simp: system_inv_def)

lemma other_cpu_inv:
  assumes inv: "system_inv k v D" and cs: "chain (\<lambda>c. cpu_next (k_cpus k c)) (g_cpu_boot k) cs" "c \<in> set cs"
  shows "system_inv (k\<lparr>k_cpu_cur := c\<rparr>) v D"
proof -
  let ?k = "k\<lparr>k_cpu_cur := c\<rparr>"
  have inv0: "kernel_inv k (\<lambda>_. None) v" using inv by (simp add: system_inv_def)
  have "cs = v_cpus v" by (rule chain_unique [OF cs(1)]) (use kernel_invD(3) [OF inv0] in \<open>simp add: ring_inv_def\<close>)
  then have "c \<in> set (v_cpus v)" using cs(2) by simp
  then have "ring_inv ?k (v_cpus v)" using kernel_invD(3) [OF inv0] by (simp add: ring_inv_def)
  moreover have "wq_head q ?k = wq_head q k" for q by (cases q) simp_all
  then have "list_view thread_registry ?k (v_threads v)" "list_view process_registry ?k (v_processes v)" "rq_inv ?k (v_runq v)" "wq_inv ?k (\<lambda>_. None) (v_wait v)"
    using inv0 iffD2 [OF registry_cong [of ?k k]] iffD2 [OF processes_cong [of ?k k]] iffD2 [OF rq_inv_cong [of ?k k]] iffD2 [OF wq_inv_cong [of ?k k]]
    by (simp_all add: kernel_inv_def part_defs)
  ultimately have "kernel_inv ?k (\<lambda>_. None) v" using inv0 by (simp add: kernel_inv_def)
  then show ?thesis using inv by (simp add: system_inv_def runs_inv_def waits_inv_def)
qed

lemma kernel_step_inv:
  assumes "kernel_step k k'" and inv: "system_inv k v {}"
  shows "\<exists>v'. system_inv k' v' {}"
  using assms(1)
proof cases
  case (yield user_frame)
  show ?thesis by (rule switch_system_inv [OF system_inv_weaken [OF inv] yield])
next
  case (tick k1 user_frame)
  obtain v1 where "system_inv k1 v1 {}" using timer_tick_inv [OF inv] tick(1) by (metis option.inject)
  from switch_system_inv [OF system_inv_weaken [OF this] tick(2)] show ?thesis .
next
  case (exit user_frame status)
  show ?thesis
    by (rule switch_system_inv [OF _ exit(2)]) (use mark_dying_inv [OF inv exit(1)] in simp)
next
  case (read buffer len k1 user_frame)
  obtain b k2 v2 where "block_current_thread (console_read_wait buffer len) (Some ConsoleReadQueue) k = Some (b, k2)"
    "system_inv k2 v2 {k_cpu_cur k}" "k_cpu_cur k2 = k_cpu_cur k"
    by (rule block_current_thread_inv [OF inv read(1), of ConsoleReadQueue "console_read_wait buffer len"]) simp_all
  then show ?thesis using read(2) switch_system_inv [OF _ read(3)] by (auto simp: block_current_thread_on_console_read_def)
next
  case (block_io c k1 user_frame)
  obtain b k2 v2 where "block_current_thread (block_io_wait c) (Some (CompletionQueue c)) k = Some (b, k2)"
    "system_inv k2 v2 {k_cpu_cur k}" "k_cpu_cur k2 = k_cpu_cur k"
    by (rule block_current_thread_inv [OF inv block_io(1), of "CompletionQueue c" "block_io_wait c"]) (use block_io(2) in \<open>simp_all add: block_io_wait_def\<close>)
  then show ?thesis using block_io(3) switch_system_inv [OF _ block_io(4)] by (auto simp: block_current_thread_on_block_io_def)
next
  case (wait_complete t pid usp result)
  show ?thesis by (rule wait_pid_inv [OF inv wait_complete(1), of pid usp]) (use wait_complete in auto)
next
  case (wait_block t pid usp k1 user_frame)
  obtain v1 where "system_inv k1 v1 {k_cpu_cur k1}"
    by (rule wait_pid_inv [OF inv wait_block(1), of pid usp]) (use wait_block that in auto)
  from switch_system_inv [OF this wait_block(4)] show ?thesis .
next
  case (signal c first_signal)
  show ?thesis by (rule completion_signal_inv [OF inv, of c]) (use signal in auto)
next
  case (reset c)
  have "system_inv (completion_reset c k) v {}"
    using inv kernel_inv_done [of k "\<lambda>_. None" v] by (simp add: system_inv_def runs_inv_def waits_inv_def completion_reset_def)
  then show ?thesis using reset by blast
next
  case (other_cpu cs c)
  then show ?thesis using other_cpu_inv [OF inv] by blast
qed

lemma kernel_steps_inv: "kernel_step\<^sup>*\<^sup>* k k' \<Longrightarrow> system_inv k v {} \<Longrightarrow> \<exists>v'. system_inv k' v' {}"
  by (induction arbitrary: v rule: rtranclp_induct) (blast dest: kernel_step_inv)+

section \<open>Taking turns\<close>

text \<open>The current thread gives up the CPU again and again.\<close>

primrec yields :: "bool \<Rightarrow> nat \<Rightarrow> kernel \<Rightarrow> kernel option" where
  "yields user_frame 0 k = Some k"
| "yields user_frame (Suc n) k = do { k1 \<leftarrow> switch_thread user_frame True k; yields user_frame n k1 }"

lemma yield_once:
  assumes inv: "kernel_inv k (\<lambda>_. None) v" and runs: "runs_inv k v {}" and alive: "\<And>u. u \<in> set (v_threads v) \<Longrightarrow> th_state (k_threads k u) \<noteq> Thread_Dying"
    and t: "current_thread k = Some t" "Some t \<noteq> idle_thread k" and q: "v_runq v (k_cpu_cur k) = q"
  obtains k' v' where "switch_thread user_frame True k = Some k'" and "kernel_inv k' (\<lambda>_. None) v'" and "runs_inv k' v' {}"
    and "\<And>u. u \<in> set (v_threads v') \<Longrightarrow> th_state (k_threads k' u) \<noteq> Thread_Dying" and "k_cpu_cur k' = k_cpu_cur k"
    and "current_thread k' = Some (hd (q @ [t]))" and "v_runq v' (k_cpu_cur k') = tl (q @ [t])" and "Some (hd (q @ [t])) \<noteq> idle_thread k'"
proof -
  let ?c = "k_cpu_cur k"
  have st: "th_state (k_threads k t) = Thread_Running"
    by (rule current_running [OF runs inv]) (use t in auto)
  then have rot: "rotated True k = [t]" using t by (simp add: rotated_def)
  have dead: "\<not> dead k (v_cpus v) u" if "u \<in> set (v_threads v)" for u using alive [OF that] by (simp add: dead_def)
  obtain n k' where s: "switch_thread user_frame True k = Some k'" "chosen k (q @ [t]) = Some n" "current_thread k' = Some n"
    "kernel_inv k' (\<lambda>_. None) (v\<lparr>v_runq := (v_runq v)(?c := tl (q @ [t]))\<rparr>)" "runs_inv k' (v\<lparr>v_runq := (v_runq v)(?c := tl (q @ [t]))\<rparr>) {}"
    "ring_part k' = ring_part k"
    "\<And>u. th_state (k_threads k' u) = (if u = n then Thread_Running else if u \<in> set [t] then Thread_Ready else th_state (k_threads k u))"
    "\<And>d. cpu_idle_thread (k_cpus k' d) = cpu_idle_thread (k_cpus k d)"
    by (rule switch_thread_exact [OF inv runs_inv_weaken [OF runs] dead, of user_frame True, unfolded q rot]) (auto intro: that)
  have n: "n = hd (q @ [t])" using s(2) by (cases q) (simp_all add: chosen_def)
  have cur: "k_cpu_cur k' = ?c" using s(6) by (simp add: ring_part_def)
  have "Some n \<noteq> idle_thread k"
  proof (cases q)
    case (Cons a as)
    then show ?thesis using kernel_invD(13) [OF inv, of ?c n ?c] q n by (auto simp: idle_thread_def idle_thread_for_cpu_def)
  qed (use n t(2) in simp)
  then have "Some n \<noteq> idle_thread k'" using s(8) cur by (simp add: idle_thread_def idle_thread_for_cpu_def)
  then show ?thesis
    using that [OF s(1,4,5)] s(3,7) alive cur n by simp
qed

lemma yields_rotate:
  assumes "kernel_inv k (\<lambda>_. None) v" and "runs_inv k v {}" and "\<And>u. u \<in> set (v_threads v) \<Longrightarrow> th_state (k_threads k u) \<noteq> Thread_Dying"
    and "current_thread k = Some t" "Some t \<noteq> idle_thread k" and "v_runq v (k_cpu_cur k) = q"
  shows "\<exists>k' v'. yields user_frame n k = Some k' \<and> kernel_inv k' (\<lambda>_. None) v' \<and> k_cpu_cur k' = k_cpu_cur k \<and>
    current_thread k' = Some (hd (rotate n (t # q))) \<and> v_runq v' (k_cpu_cur k') = tl (rotate n (t # q))"
  using assms
proof (induction n arbitrary: k v t q)
  case (Suc n)
  obtain k1 v1 where y: "switch_thread user_frame True k = Some k1" "kernel_inv k1 (\<lambda>_. None) v1" "runs_inv k1 v1 {}"
    "\<And>u. u \<in> set (v_threads v1) \<Longrightarrow> th_state (k_threads k1 u) \<noteq> Thread_Dying" "k_cpu_cur k1 = k_cpu_cur k"
    "current_thread k1 = Some (hd (q @ [t]))" "v_runq v1 (k_cpu_cur k1) = tl (q @ [t])" "Some (hd (q @ [t])) \<noteq> idle_thread k1"
    by (rule yield_once [OF Suc.prems, of user_frame]) (assumption, rule that)
  have "hd (q @ [t]) # tl (q @ [t]) = rotate1 (t # q)" by simp
  with Suc.IH [OF y(2,3,4,6,8,7)] show ?case using y(1,5) by (simp add: rotate1_rotate_swap [symmetric] del: rotate1.simps)
qed auto

end
