(* ===== verification/Kernel_Demo.thy ===== *)
theory Kernel_Demo
  imports Kernel_Steps
begin

text \<open>Concrete kernels with two CPUs that satisfy the invariants; the witnesses use them.\<close>

definition two_views :: views where
  "two_views = \<lparr>v_threads = [0x7000, 0x7100, 0x7200, 0x7300], v_processes = [0x500], v_cpus = [0x1000, 0x2000],
     v_runq = (\<lambda>_. [])(0x1000 := [0x7100]), v_wait = (\<lambda>_. [])\<rparr>"

lemma two_cpus_parts:
  "list_view thread_registry two_cpus (v_threads two_views)" "list_view process_registry two_cpus (v_processes two_views)"
  "ring_inv two_cpus (v_cpus two_views)" "wq_inv two_cpus (\<lambda>_. None) (v_wait two_views)"
proof -
  show "list_view thread_registry two_cpus (v_threads two_views)"
    by (simp add: list_view_def thread_registry_def two_cpus_def two_views_def demo_thread_def zero_thread_def last_opt_def)
  show "list_view process_registry two_cpus (v_processes two_views)"
    by (simp add: list_view_def process_registry_def two_cpus_def two_views_def zero_process_def last_opt_def)
  show "ring_inv two_cpus (v_cpus two_views)" using two_cpus_ring by (simp add: ring_inv_def two_views_def two_cpus_def)
  have "wl_head (\<lambda>_. None) two_cpus i = None" for i
  proof (cases i)
    case (Inl q)
    then show ?thesis by (cases q) (simp_all add: two_cpus_def zero_process_def)
  qed simp
  then show "wq_inv two_cpus (\<lambda>_. None) (v_wait two_views)" by (simp add: wq_inv_def two_views_def)
qed

lemma two_cpus_rq: "rq_inv two_cpus (v_runq two_views)"
  by (auto simp: rq_inv_def lists_view_def list_view_def run_queue_def two_cpus_def two_views_def demo_thread_def zero_thread_def zero_cpu_def last_opt_def)

lemma two_cpus_inv: "kernel_inv two_cpus (\<lambda>_. None) two_views"
  using two_cpus_parts two_cpus_rq
  by (auto simp: kernel_inv_def cpu_known_def two_cpus_def two_views_def demo_thread_def zero_thread_def zero_cpu_def split: if_splits)

lemma two_cpus_runs: "runs_inv two_cpus two_views {}"
  by (auto simp: runs_inv_def two_cpus_def two_views_def demo_thread_def zero_thread_def zero_cpu_def split: if_splits)

lemma two_cpus_system: "system_inv two_cpus two_views {}"
  using two_cpus_inv two_cpus_runs by (simp add: system_inv_def waits_inv_def two_views_def)

text \<open>The first CPU runs its idle thread; the thread it ran before is dying.\<close>

definition dying_cpus :: kernel where
  "dying_cpus = upd_cpu 0x1000 (\<lambda>c. c\<lparr>cpu_current_thread := Some 0x7200\<rparr>) (upd_thread 0x7000 (\<lambda>x. x\<lparr>th_state := Thread_Dying\<rparr>) two_cpus)"

lemma dying_cpus_inv: "kernel_inv dying_cpus (\<lambda>_. None) two_views"
  by (rule kernel_inv_links [OF two_cpus_inv])
    (auto simp: same_links_def dying_cpus_def two_views_def two_cpus_def demo_thread_def split: if_splits)

text \<open>Two threads wait for the first CPU, which idles, none for the second.\<close>

definition busy_cpus :: kernel where
  "busy_cpus = upd_cpu 0x1000 (\<lambda>c. c\<lparr>cpu_current_thread := Some 0x7200, cpu_runq_tail := Some 0x7000, cpu_runq_length := 2\<rparr>)
     (upd_thread 0x7100 (\<lambda>x. x\<lparr>th_next := Some 0x7000\<rparr>)
       (upd_thread 0x7000 (\<lambda>x. x\<lparr>th_state := Thread_Ready, th_run_queue_cpu := Some 0x1000\<rparr>) two_cpus))"

definition busy_views :: views where
  "busy_views = two_views\<lparr>v_runq := (\<lambda>_. [])(0x1000 := [0x7100, 0x7000])\<rparr>"

lemma busy_cpus_inv: "kernel_inv busy_cpus (\<lambda>_. None) busy_views"
proof -
  have "rq_inv busy_cpus (v_runq busy_views)"
    by (auto simp: rq_inv_def lists_view_def list_view_def run_queue_def busy_cpus_def two_cpus_def busy_views_def demo_thread_def
        zero_thread_def zero_cpu_def last_opt_def)
  moreover have "reg_part busy_cpus = reg_part two_cpus" "preg_part busy_cpus = preg_part two_cpus" "ring_part busy_cpus = ring_part two_cpus"
    "wq_part busy_cpus = wq_part two_cpus" "g_last_user_thread_cpu busy_cpus = g_last_user_thread_cpu two_cpus"
    by (simp_all add: busy_cpus_def upd_thread_part upd_cpu_part)
  ultimately show ?thesis
    using two_cpus_inv registry_cong [of busy_cpus two_cpus] processes_cong [of busy_cpus two_cpus] ring_inv_cong [of busy_cpus two_cpus]
      wq_inv_cong [of busy_cpus two_cpus]
    by (auto simp: kernel_inv_def busy_views_def two_views_def busy_cpus_def two_cpus_def demo_thread_def zero_cpu_def zero_thread_def split: if_splits)
qed

end
