(* ===== verification/Wait_Race.thy ===== *)
theory Wait_Race
  imports Kernel_Demo
begin

text \<open>
  A wait for a child that loses the waiting thread. The parent calls \<^verbatim>\<open>waitpid\<close> on the boot CPU while its
  child is a zombie whose last thread the reaper has not removed yet. The call blocks the parent; the
  switch that follows reaps the child, completes the wait and marks the parent running, since it is
  still the current thread. Then \<^verbatim>\<open>schedule_next(false)\<close> switches away from it without putting it in a queue.
\<close>

text \<open>A parent runs on the boot CPU, its child is a zombie whose dying thread is not reaped yet.\<close>

definition exit_race :: kernel where
  "exit_race = (upd_thread 0x7300 (\<lambda>x. x\<lparr>th_registry_next := Some 0x7400\<rparr>)
     (upd_thread 0x7400 (\<lambda>_. (demo_thread Thread_Dying)\<lparr>th_process := Some 0x600\<rparr>)
       (upd_process 0x500 (\<lambda>x. x\<lparr>pr_registry_next := Some 0x600\<rparr>)
         (upd_process 0x600 (\<lambda>_. zero_process\<lparr>pr_pid := 2, pr_state := Process_Zombie, pr_parent := Some 0x500\<rparr>) two_cpus))))
     \<lparr>g_thread_tail := Some 0x7400, g_process_tail := Some 0x600\<rparr>"

definition race_views :: views where
  "race_views = two_views\<lparr>v_threads := [0x7000, 0x7100, 0x7200, 0x7300, 0x7400], v_processes := [0x500, 0x600]\<rparr>"

lemma exit_race_fields:
  "k_threads exit_race = (\<lambda>_. zero_thread)(0x7000 := (demo_thread Thread_Running)\<lparr>th_registry_next := Some 0x7100\<rparr>,
     0x7100 := (demo_thread Thread_Ready)\<lparr>th_run_queue_cpu := Some 0x1000, th_registry_next := Some 0x7200\<rparr>,
     0x7200 := (demo_thread Thread_Ready)\<lparr>th_registry_next := Some 0x7300\<rparr>,
     0x7300 := (demo_thread Thread_Running)\<lparr>th_registry_next := Some 0x7400\<rparr>, 0x7400 := (demo_thread Thread_Dying)\<lparr>th_process := Some 0x600\<rparr>)"
  "k_processes exit_race = (\<lambda>_. zero_process)(0x500 := zero_process\<lparr>pr_pid := 1, pr_state := Process_Running, pr_registry_next := Some 0x600\<rparr>,
     0x600 := zero_process\<lparr>pr_pid := 2, pr_state := Process_Zombie, pr_parent := Some 0x500\<rparr>)"
  "k_cpus exit_race = k_cpus two_cpus" "g_thread_head exit_race = Some 0x7000" "g_thread_tail exit_race = Some 0x7400"
  "g_process_head exit_race = Some 0x500" "g_process_tail exit_race = Some 0x600" "g_cpu_boot exit_race = Some 0x1000" "k_cpu_cur exit_race = 0x1000"
  "g_thread_cache exit_race" "g_process_cache exit_race" "g_kernel_process exit_race = Some 0x500"
  by (simp_all add: exit_race_def two_cpus_def upd_thread_def upd_process_def fun_eq_iff)

lemma two_cpus_cpus: "k_cpus two_cpus = (\<lambda>_. zero_cpu)(
    0x1000 := zero_cpu\<lparr>cpu_current_thread := Some 0x7000, cpu_idle_thread := Some 0x7200,
      cpu_runq_head := Some 0x7100, cpu_runq_tail := Some 0x7100, cpu_runq_length := 1, cpu_next := Some 0x2000\<rparr>,
    0x2000 := zero_cpu\<lparr>cpu_current_thread := Some 0x7300, cpu_idle_thread := Some 0x7300, cpu_id := 1, cpu_booted := 1\<rparr>)"
  by (simp add: two_cpus_def)

lemmas zero_defs = demo_thread_def zero_thread_def zero_process_def no_wait_def zero_frame_def

lemma exit_race_system: "system_inv exit_race race_views {}"
proof -
  have "list_view thread_registry exit_race (v_threads race_views)" "list_view process_registry exit_race (v_processes race_views)"
    by (simp_all add: list_view_def thread_registry_def process_registry_def exit_race_fields race_views_def zero_defs last_opt_def)
  moreover have "ring_inv exit_race (v_cpus race_views)"
    by (simp add: ring_inv_def exit_race_fields two_cpus_cpus race_views_def two_views_def zero_cpu_def)
  moreover have "wq_head q exit_race = None" for q
    by (cases q) (simp_all add: exit_race_fields zero_defs, simp_all add: exit_race_def two_cpus_def upd_thread_def upd_process_def)
  then have "wl_head (\<lambda>_. None) exit_race i = None" for i by (cases i) (simp_all del: wq_head.simps)
  then have "wq_inv exit_race (\<lambda>_. None) (v_wait race_views)" by (simp add: wq_inv_def race_views_def two_views_def)
  moreover have "rq_inv exit_race (v_runq race_views)"
    by (auto simp: rq_inv_def lists_view_def list_view_def run_queue_def race_views_def two_views_def exit_race_fields two_cpus_cpus zero_defs zero_cpu_def last_opt_def)
  moreover have "g_last_user_thread_cpu exit_race = None" by (simp add: exit_race_def two_cpus_def upd_thread_def upd_process_def)
  ultimately have "kernel_inv exit_race (\<lambda>_. None) race_views"
    by (auto simp: kernel_inv_def cpu_known_def exit_race_fields two_cpus_cpus race_views_def two_views_def zero_defs zero_cpu_def split: if_splits)
  moreover have "runs_inv exit_race race_views {}"
    by (auto simp: runs_inv_def exit_race_fields two_cpus_cpus race_views_def two_views_def zero_defs zero_cpu_def split: if_splits)
  ultimately show ?thesis by (simp add: system_inv_def waits_inv_def race_views_def two_views_def)
qed

section \<open>The call blocks\<close>

definition race_blocked :: kernel where
  "race_blocked = upd_process 0x500 (\<lambda>p. p\<lparr>pr_child_exit_head := Some 0x7000\<rparr>)
     (upd_thread 0x7000 (\<lambda>x. x\<lparr>th_wait_link := None\<rparr>) (enter_wait 0x7000 (child_exit_wait 0 0) exit_race))"

lemma race_blocks: "try_complete_or_block_wait_pid 0x7000 0 0 exit_race = Some (None, race_blocked)"
  by (simp add: try_complete_or_block_wait_pid_def find_child_process_locked_def process_has_threads_def find_from.simps exit_race_fields zero_defs
      first_process_def next_process_def first_thread_def next_thread_def wait_queue_enqueue_locked_def race_blocked_def enter_wait_def
      set_process_state_def child_exit_wait_def)

lemma race_blocked_fields:
  "k_threads race_blocked = (k_threads exit_race)(0x7000 := (k_threads exit_race 0x7000)\<lparr>th_wait := child_exit_wait 0 0, th_state := Thread_Blocked\<rparr>)"
  "k_processes race_blocked = (k_processes exit_race)(0x500 := (k_processes exit_race 0x500)\<lparr>pr_state := Process_Ready, pr_child_exit_head := Some 0x7000\<rparr>)"
  "k_cpus race_blocked = k_cpus two_cpus" "g_thread_head race_blocked = Some 0x7000" "g_thread_tail race_blocked = Some 0x7400"
  "g_process_head race_blocked = Some 0x500" "g_process_tail race_blocked = Some 0x600" "g_cpu_boot race_blocked = Some 0x1000"
  "k_cpu_cur race_blocked = 0x1000" "g_thread_cache race_blocked" "g_process_cache race_blocked" "g_kernel_process race_blocked = Some 0x500"
  by (simp_all add: race_blocked_def enter_wait_def set_process_state_def exit_race_fields zero_defs upd_process_def upd_thread_def)

lemmas race_fields = race_blocked_fields exit_race_fields(1,2) zero_defs

section \<open>The child is reaped and the parent woken\<close>

definition race_threads :: "thread_ref \<Rightarrow> thread" where
  "race_threads = (k_threads race_blocked)(0x7300 := (k_threads race_blocked 0x7300)\<lparr>th_registry_next := None\<rparr>, 0x7400 := zero_thread)"

definition race_cleared :: "kernel \<Rightarrow> bool" where
  "race_cleared k \<longleftrightarrow> k_threads k = race_threads \<and> k_cpus k = k_cpus two_cpus \<and> g_thread_head k = Some 0x7000 \<and> g_process_head k = Some 0x500 \<and>
     g_process_tail k = Some 0x600 \<and> g_cpu_boot k = Some 0x1000 \<and> k_cpu_cur k = 0x1000 \<and> g_process_cache k \<and> g_kernel_process k = Some 0x500"

lemma race_clear:
  "\<exists>k. clear_thread 0x7400 (race_blocked\<lparr>k_frames := f\<rparr>) = Some k \<and> race_cleared k \<and> k_processes k = k_processes race_blocked"
  by (simp add: clear_thread_def dequeue_thread_if_queued_def fold_from.simps race_fields two_cpus_cpus zero_cpu_def unlink_thread_def list_remove_def
      find_from.simps thread_registry_def list_detach_def release_thread_record_def upd_thread_def upd_cpu_def Let_def fun_eq_iff race_cleared_def race_threads_def)

lemma race_threads_at:
  "race_threads 0x7000 = k_threads race_blocked 0x7000" "race_threads 0x7100 = k_threads race_blocked 0x7100"
  "race_threads 0x7200 = k_threads race_blocked 0x7200" "race_threads 0x7300 = (k_threads race_blocked 0x7300)\<lparr>th_registry_next := None\<rparr>"
  by (simp_all add: race_threads_def)

lemma race_child_free: "race_cleared k \<Longrightarrow> process_has_threads 0x600 k = Some False"
  by (simp add: race_cleared_def process_has_threads_def find_from.simps first_thread_def next_thread_def race_threads_at race_fields)

lemma race_complete:
  assumes k: "race_cleared k" and ps: "k_processes k = (k_processes race_blocked)(0x500 := (k_processes race_blocked 0x500)\<lparr>pr_child_exit_head := None\<rparr>)"
  shows "\<exists>k'. try_complete_wait_pid 0x7000 0 0 k = Some (Some 2, k') \<and> k_threads k' = race_threads \<and> k_cpus k' = k_cpus k \<and> k_cpu_cur k' = k_cpu_cur k"
proof -
  note f = k [unfolded race_cleared_def]
  have z: "find_child_process_locked 0x500 0 True k = Some (Some 0x600)"
    by (simp add: find_child_process_locked_def find_from.simps first_process_def next_process_def f ps race_fields)
  have "\<exists>k'. reap_process 0x600 k = Some (True, k') \<and> k_threads k' = race_threads \<and> k_cpus k' = k_cpus k \<and> k_cpu_cur k' = k_cpu_cur k"
    by (simp add: reap_process_def race_child_free [OF k] orphan_children_def fold_from.simps unlink_process_def list_remove_def process_registry_def
        list_detach_def release_process_record_def Let_def find_from.simps f ps race_fields upd_process_def)
  then obtain k' where r: "reap_process 0x600 k = Some (True, k')" "k_threads k' = race_threads \<and> k_cpus k' = k_cpus k \<and> k_cpu_cur k' = k_cpu_cur k"
    by blast
  show ?thesis
    by (rule exI [of _ k']) (simp add: r try_complete_wait_pid_def race_child_free [OF k] z finish_wait_def f ps race_threads_at race_fields)
qed

lemma race_wakes:
  assumes k: "race_cleared k" and ps: "k_processes k = k_processes race_blocked"
  shows "\<exists>k'. wake_child_waiters (Some 0x500) k = Some k' \<and> th_state (k_threads k' 0x7000) = Thread_Running \<and>
    tf_rax (th_frame (k_threads k' 0x7000)) = 2 \<and> th_wait (k_threads k' 0x7000) = no_wait"
proof -
  note f = k [unfolded race_cleared_def]
  let ?k1 = "upd_thread 0x7000 (\<lambda>x. x\<lparr>th_wait_link := None\<rparr>) (wq_set_head (ChildExitQueue 0x500) None k)"
  have "race_threads(0x7000 := (race_threads 0x7000)\<lparr>th_wait_link := None\<rparr>) = race_threads"
    by (simp add: race_threads_at race_fields fun_upd_idem_iff)
  then have "race_cleared ?k1" using f by (simp add: race_cleared_def, simp add: upd_thread_def upd_process_def)
  from race_complete [OF this] obtain k' where c: "try_complete_wait_pid 0x7000 0 0 ?k1 = Some (Some 2, k')"
    "k_threads k' = race_threads" "k_cpus k' = k_cpus two_cpus" "k_cpu_cur k' = 0x1000"
    using f by (auto simp: ps)
  have w: "w_word0 (th_wait (race_threads 0x7000)) = 0" "w_word1 (th_wait (race_threads 0x7000)) = 0" "th_wait_link (race_threads 0x7000) = None"
    by (simp_all add: race_threads_at race_fields child_exit_wait_def)
  have pend: "wait_queue_dequeue_all_locked (ChildExitQueue 0x500) k = (Some 0x7000, wq_set_head (ChildExitQueue 0x500) None k)"
    by (simp add: wait_queue_dequeue_all_locked_def ps race_blocked_fields)
  have "wake_child_waiters (Some 0x500) k =
      do { k3 \<leftarrow> wake_blocked_thread 0x7000 None (upd_thread 0x7000 (\<lambda>x. x\<lparr>th_frame := (th_frame x)\<lparr>tf_rax := 2\<rparr>\<rparr>) k');
           (still_waiting, k2) \<leftarrow> wake_child_loop None None None k3; requeue_loop 0x500 still_waiting k2 }"
    using c(1) w f by (simp add: wake_child_waiters_def pend wake_child_loop.simps [of "Some 0x7000"])
  then show ?thesis
    using c by (simp add: wake_blocked_thread_def clear_thread_wait_def current_thread_def two_cpus_cpus wake_child_loop.simps requeue_loop.simps)
qed

lemma race_reaps:
  "\<exists>k. reap_thread 0x7400 race_blocked = Some k \<and> th_state (k_threads k 0x7000) = Thread_Running \<and>
     tf_rax (th_frame (k_threads k 0x7000)) = 2 \<and> th_wait (k_threads k 0x7000) = no_wait"
proof -
  obtain f where f: "free_stack 0 race_blocked = race_blocked\<lparr>k_frames := f\<rparr>"
    using free_stack_frame by blast
  obtain k where k: "clear_thread 0x7400 (race_blocked\<lparr>k_frames := f\<rparr>) = Some k" "race_cleared k" "k_processes k = k_processes race_blocked"
    using race_clear by blast
  obtain k' where "wake_child_waiters (Some 0x500) k = Some k'" "th_state (k_threads k' 0x7000) = Thread_Running"
    "tf_rax (th_frame (k_threads k' 0x7000)) = 2" "th_wait (k_threads k' 0x7000) = no_wait"
    using race_wakes [OF k(2,3)] by blast
  then show ?thesis
    by (intro exI [of _ k']) (simp add: reap_thread_def f k race_child_free [OF k(2)] Let_def race_fields)
qed

section \<open>The parent is lost\<close>

lemma race_switch:
  obtains k where "switch_thread True False race_blocked = Some k" and "th_state (k_threads k 0x7000) = Thread_Running"
    and "cpu_current_thread (k_cpus k 0x1000) \<noteq> Some 0x7000" "cpu_current_thread (k_cpus k 0x2000) \<noteq> Some 0x7000"
    and "th_run_queue_cpu (k_threads k 0x7000) = None"
proof -
  have cur: "current_thread exit_race = Some 0x7000" "current_thread exit_race \<noteq> idle_thread exit_race"
    by (simp_all add: current_thread_def idle_thread_def idle_thread_for_cpu_def exit_race_fields two_cpus_cpus)
  obtain r k1 v1 where b: "try_complete_or_block_wait_pid 0x7000 0 0 exit_race = Some (r, k1)" "system_inv k1 v1 {k_cpu_cur exit_race}"
    by (rule wait_pid_inv [OF exit_race_system cur])
  have inv1: "kernel_inv race_blocked (\<lambda>_. None) v1" "runs_inv race_blocked v1 {0x1000}"
    using b race_blocks by (auto simp: system_inv_def exit_race_fields)
  have ring: "v_cpus v1 = [0x1000, 0x2000]"
    by (rule chain_unique [of "\<lambda>c. cpu_next (k_cpus race_blocked c)" "g_cpu_boot race_blocked"])
      (use kernel_invD(3) [OF inv1(1)] in \<open>simp_all add: ring_inv_def race_blocked_fields two_cpus_cpus zero_cpu_def\<close>)
  have threads: "v_threads v1 = [0x7000, 0x7100, 0x7200, 0x7300, 0x7400]"
    by (rule chain_unique [OF thread_chain [OF kernel_invD(1) [OF inv1(1)]]]) (simp add: next_thread_def first_thread_def race_fields)
  have dead: "dead race_blocked (v_cpus v1) t \<longleftrightarrow> t = 0x7400" for t
    by (auto simp: dead_def ring race_fields two_cpus_cpus)
  obtain k2 where k2: "reap_thread 0x7400 race_blocked = Some k2" "th_state (k_threads k2 0x7000) = Thread_Running" using race_reaps by blast
  have "th_state (k_threads race_blocked 0x7400) = Thread_Dying" by (simp add: race_fields)
  from reap_thread_inv [OF inv1(1) this] obtain v2 where
    v2: "kernel_inv k2 (\<lambda>_. None) v2" "spares {0x7400} race_blocked k2" "v_threads v2 = remove1 0x7400 (v_threads v1)" "v_cpus v2 = v_cpus v1"
    using k2(1) by (metis option.inject)
  have "\<not> dead k2 (v_cpus v2) t" if "t \<in> set (v_threads v2)" for t
    using that v2(2,3,4) dead [of t] by (auto simp: threads dead_def spares_def)
  then have "List.find (dead k2 (v_cpus v2)) (v_threads v2) = None" by (simp add: find_None_iff)
  then have "reap_dead_threads k2 = Some k2"
    using find_dead_run [OF kernel_invD(3) [OF v2(1)] thread_chain [OF kernel_invD(1) [OF v2(1)]]] by (subst reap_dead_threads.simps) simp
  moreover have "find_dead_thread race_blocked (first_thread race_blocked) = Some (Some 0x7400)"
    using find_dead_run [OF kernel_invD(3) [OF inv1(1)] thread_chain [OF kernel_invD(1) [OF inv1(1)]]] by (simp add: threads dead)
  ultimately have reap: "reap_dead_threads race_blocked = Some k2" using k2(1) by (subst reap_dead_threads.simps) simp
  have cpu2: "k_cpu_cur k2 = 0x1000" using v2(2) by (simp add: spares_def ring_part_def race_blocked_fields)
  have "runs_inv k2 v2 {0x1000}"
    by (rule runs_inv_reap [OF inv1(2)]) (use v2 dead in \<open>simp_all add: threads\<close>)
  then have runs2: "runs_inv k2 v2 {k_cpu_cur k2}" by (simp add: cpu2)
  have rot: "rotated False k2 = []" by (simp add: rotated_def split: option.split)
  obtain n k3 where s: "do { (chosen, k1) \<leftarrow> schedule_rest False k2; Some (trap_return True chosen k1) } = Some k3"
    "chosen k2 (v_runq v2 (k_cpu_cur k2) @ rotated False k2) = Some n" "current_thread k3 = Some n"
    "kernel_inv k3 (\<lambda>_. None) (v2\<lparr>v_runq := (v_runq v2)(k_cpu_cur k2 := tl (v_runq v2 (k_cpu_cur k2) @ rotated False k2))\<rparr>)"
    "runs_inv k3 (v2\<lparr>v_runq := (v_runq v2)(k_cpu_cur k2 := tl (v_runq v2 (k_cpu_cur k2) @ rotated False k2))\<rparr>) {}" "ring_part k3 = ring_part k2"
    "\<And>u. th_state (k_threads k3 u) = (if u = n then Thread_Running else if u \<in> set (rotated False k2) then Thread_Ready else th_state (k_threads k2 u))"
    "\<And>d. d \<noteq> k_cpu_cur k2 \<Longrightarrow> cpu_current_thread (k_cpus k3 d) = cpu_current_thread (k_cpus k2 d)"
    by (rule switch_rest_inv [OF v2(1) runs2, of False True]) (rule that)
  have "idle_thread k2 = Some 0x7200"
    using v2(2) by (simp add: spares_def idle_thread_def idle_thread_for_cpu_def cpu2 race_blocked_fields two_cpus_cpus)
  then have n: "n \<noteq> 0x7000"
    using s(2) k2(2) kernel_invD(9) [OF v2(1), of n "0x1000"] by (cases "v_runq v2 0x1000") (auto simp: chosen_def rot cpu2)
  have st: "th_state (k_threads k3 0x7000) = Thread_Running" using s(7) [of "0x7000"] k2(2) rot by simp
  have "0x7000 \<notin> set ((v_runq (v2\<lparr>v_runq := (v_runq v2)(k_cpu_cur k2 := tl (v_runq v2 (k_cpu_cur k2) @ rotated False k2))\<rparr>)) d)" for d
    using kernel_invD(9) [OF s(4), of "0x7000" d] st by auto
  then have "th_run_queue_cpu (k_threads k3 0x7000) = None" using not_queued [OF kernel_invD(5) [OF s(4)]] by blast
  moreover have "cpu_current_thread (k_cpus k3 0x2000) \<noteq> Some 0x7000"
    using s(8) [of "0x2000"] v2(2) by (simp add: cpu2 spares_def race_blocked_fields two_cpus_cpus)
  moreover have "cpu_current_thread (k_cpus k3 0x1000) \<noteq> Some 0x7000"
    using s(3,6) n cpu2 by (simp add: current_thread_def ring_part_def)
  moreover have "switch_thread True False race_blocked = Some k3"
    using s(1) by (simp add: switch_thread_def schedule_next_eq cpu_on_boot_def race_blocked_fields reap)
  ultimately show ?thesis using that st by blast
qed

end
