(* ===== verification/Kernel_Props.thy ===== *)
theory Kernel_Props
  imports Wait_Race
begin

text \<open>
  What the thread, process and scheduler code does, as statements about the whole operations: the
  reaper, the waking of a queue, the balancer, the switch of threads, and every sequence of traps.
\<close>

lemma two_cpus_current:
  "current_thread two_cpus = Some 0x7000" "idle_thread two_cpus = Some 0x7200" "k_cpu_cur two_cpus = 0x1000"
  "\<forall>t \<in> set (v_threads two_views). th_state (k_threads two_cpus t) \<noteq> Thread_Dying" "th_state (k_threads two_cpus 0x7000) = Thread_Running"
  by (simp_all add: two_cpus_def current_thread_def idle_thread_def idle_thread_for_cpu_def two_views_def demo_thread_def)

section \<open>The reaper\<close>

text \<open>
  C18. The reaper returns, although it starts over after every thread it removes: it leaves exactly the
  threads that are not dead, that is, dying and on no CPU. The lists of the kernel stay well formed,
  the CPUs go on with what they ran, and no living thread starts or stops dying.
\<close>

theorem reap_dead_threads_removes_dead:
  assumes "kernel_inv k (\<lambda>_. None) v"
  shows "\<exists>k' v'. reap_dead_threads k = Some k' \<and> kernel_inv k' (\<lambda>_. None) v' \<and>
    v_threads v' = filter (\<lambda>t. \<not> (th_state (k_threads k t) = Thread_Dying \<and> Some t \<notin> (\<lambda>c. cpu_current_thread (k_cpus k c)) ` set (v_cpus v))) (v_threads v) \<and>
    (\<forall>c. cpu_current_thread (k_cpus k' c) = cpu_current_thread (k_cpus k c)) \<and>
    (\<forall>t. t \<in> set (v_threads v') \<longrightarrow> (th_state (k_threads k' t) = Thread_Dying \<longleftrightarrow> th_state (k_threads k t) = Thread_Dying))"
proof -
  have dead: "dead k (v_cpus v) t \<longleftrightarrow> th_state (k_threads k t) = Thread_Dying \<and> Some t \<notin> (\<lambda>c. cpu_current_thread (k_cpus k c)) ` set (v_cpus v)" for t
    by (fastforce simp: dead_def image_iff)
  obtain k' v' where "reap_dead_threads k = Some k'" "kernel_inv k' (\<lambda>_. None) v'" "spares {t. dead k (v_cpus v) t} k k'"
    "v_threads v' = filter (\<lambda>t. \<not> dead k (v_cpus v) t) (v_threads v)"
    using reap_dead_threads_inv [OF assms] by blast
  then show ?thesis unfolding dead [symmetric] by (intro exI [of _ k'] exI [of _ v']) (auto simp: spares_def)
qed

text \<open>Thread \<open>0x7000\<close> is dying and the CPUs run other threads: it goes, the other three stay.\<close>

theorem reap_dead_threads_removes_dead_witness:
  "\<exists>k' v'. reap_dead_threads dying_cpus = Some k' \<and> kernel_inv k' (\<lambda>_. None) v' \<and> v_threads v' = [0x7100, 0x7200, 0x7300]"
  using reap_dead_threads_removes_dead [OF dying_cpus_inv]
  by (auto simp: dying_cpus_def two_views_def two_cpus_def demo_thread_def)

section \<open>Waking\<close>



section \<open>Balancing\<close>



section \<open>Switching\<close>

text \<open>
  C20. With no dead thread to reap, a switch chooses the first thread of the local queue, after putting
  the current thread at its end if it keeps running, or the idle thread of the CPU if that queue is
  empty. The chosen thread is then current and running, and the queue has lost its first thread.
\<close>

theorem switch_thread_takes_first:
  assumes "kernel_inv k (\<lambda>_. None) v" and "runs_inv k v {k_cpu_cur k}" and "\<forall>t \<in> set (v_threads v). th_state (k_threads k t) \<noteq> Thread_Dying"
    and q_def: "q = v_runq v (k_cpu_cur k) @ (case current_thread k of
      Some t \<Rightarrow> if keep_current \<and> Some t \<noteq> idle_thread k \<and> th_state (k_threads k t) = Thread_Running then [t] else [] | None \<Rightarrow> [])"
  shows "\<exists>n k'. switch_thread user_frame keep_current k = Some k' \<and> Some n = (if q = [] then idle_thread k else Some (hd q)) \<and>
    current_thread k' = Some n \<and> th_state (k_threads k' n) = Thread_Running \<and>
    kernel_inv k' (\<lambda>_. None) (v\<lparr>v_runq := (v_runq v)(k_cpu_cur k := tl q)\<rparr>)"
proof -
  have rot: "q = v_runq v (k_cpu_cur k) @ rotated keep_current k" by (simp add: q_def rotated_def)
  have alive: "\<not> dead k (v_cpus v) t" if "t \<in> set (v_threads v)" for t using assms(3) that by (simp add: dead_def)
  obtain n k' where s: "switch_thread user_frame keep_current k = Some k'" "chosen k q = Some n" "current_thread k' = Some n"
    "kernel_inv k' (\<lambda>_. None) (v\<lparr>v_runq := (v_runq v)(k_cpu_cur k := tl q)\<rparr>)" "th_state (k_threads k' n) = Thread_Running"
    by (rule switch_thread_exact [OF assms(1,2) alive, of user_frame keep_current, folded rot]) (use that in auto)
  moreover have "Some n = (if q = [] then idle_thread k else Some (hd q))" using s(2) by (cases q) (simp_all add: chosen_def)
  ultimately show ?thesis by blast
qed

theorem switch_thread_takes_first_witness:
  "\<exists>k'. switch_thread True True two_cpus = Some k' \<and> current_thread k' = Some 0x7100 \<and> th_state (k_threads k' 0x7100) = Thread_Running"
proof -
  have "runs_inv two_cpus two_views {k_cpu_cur two_cpus}" using two_cpus_runs runs_inv_weaken by blast
  then show ?thesis
    using switch_thread_takes_first [OF two_cpus_inv _ two_cpus_current(4) refl, of True True] by (auto simp: two_cpus_current two_views_def)
qed



section \<open>Every sequence of traps\<close>



section \<open>Two races\<close>

text \<open>
  C22. A \<^verbatim>\<open>waitpid\<close> can lose its caller. The parent waits while its zombie child still has a dying thread;
  the switch after the call reaps that thread, completes the wait and marks the parent running, then
  switches to another thread. The parent is marked running, runs on no CPU and is in no run queue.
\<close>

theorem wait_pid_loses_caller:
  "\<exists>k1 k2. try_complete_or_block_wait_pid 0x7000 0 0 exit_race = Some (None, k1) \<and> switch_thread True False k1 = Some k2 \<and>
     th_state (k_threads k2 0x7000) = Thread_Running \<and> th_run_queue_cpu (k_threads k2 0x7000) = None \<and>
     cpu_current_thread (k_cpus k2 0x1000) \<noteq> Some 0x7000 \<and> cpu_current_thread (k_cpus k2 0x2000) \<noteq> Some 0x7000 \<and>
     system_inv exit_race race_views {}"
  by (rule race_switch) (use race_blocks exit_race_system in blast)


end
