(* ===== verification/Spec2Isabelle.thy ===== *)
theory Spec2Isabelle
  imports Page_Frame_Init Page_Frame_Spec Virtual_Memory_Props Event_Ring User_Copy_Props Kernel_Props
begin

text \<open>
  A verification development for the os1 kernel, a 64-bit x86 multiprocessor kernel written in C++
  (\<^verbatim>\<open>src/src/kernel\<close>). Every definition that models code is a translation of the named C++ function
  on machine words of the C++ widths; everything a property says is about those translations.

  \<^bold>\<open>The parts and how they interact.\<close> The boot loader hands over a memory map. The page-frame
  container takes it and owns the physical frames; the page-table manager, the kernel stacks and
  the address spaces of processes take frames from it and give them back. The copy routines reach
  user memory through the page tables of the current thread and record their failures in the event
  ring. Threads and processes are kernel objects that are linked into registries, run queues and wait
  queues; traps (system calls, timer ticks, completions of devices) change them and end with a switch
  to the next thread, which the scheduler chooses.

  \<^bold>\<open>Theories and sources.\<close>
  \<^item> \<open>Os1_Prelude\<close>: machine integers, \<^verbatim>\<open>util/align.hpp\<close>, checked addition, the page-stepping loop.
  \<^item> \<open>Page_Frame\<close>, \<open>Page_Frame_Init\<close>, \<open>Frame_Allocator\<close>, \<open>Page_Frame_Spec\<close>: \<^verbatim>\<open>mm/page_frame.cpp\<close> and
    \<^verbatim>\<open>mm/boot_reserve.cpp\<close>. The record \<open>page_frames\<close> has the fields of \<^verbatim>\<open>PageFrameContainer\<close>; the bitmap is
    the memory \<^verbatim>\<open>bitmap_\<close> points to. The invariant \<open>pf_inv\<close> ties the bitmap to a set of free pages;
    initialisation, allocation, release and reservation are shown to do exactly what they should to
    that set. The locale \<open>frame_allocator\<close> is the contract the clients use.
  \<^item> \<open>Virtual_Memory\<close>, \<open>Page_Table_Tree\<close>, \<open>Virtual_Memory_Spec\<close>, \<open>Virtual_Memory_Props\<close>:
    \<^verbatim>\<open>mm/virtual_memory.cpp\<close>. Physical memory is a function on 64-bit words; the tables are read from it
    as the code reads them. The tree theory says which tables a root reaches and that they are distinct;
    the operations are shown correct against the address space the tree describes.
  \<^item> \<open>Event_Ring\<close>: \<^verbatim>\<open>debug/event_ring.cpp\<close>, a refinement of a log that keeps its last entries.
  \<^item> \<open>User_Copy\<close>, \<open>User_Copy_Props\<close>: \<^verbatim>\<open>mm/user_copy.cpp\<close> and \<^verbatim>\<open>mm/user_address.hpp\<close>.
  \<^item> \<open>Intrusive_List\<close>, \<open>Kernel_State\<close>, \<open>Thread_Table\<close>, \<open>Process_Table\<close>, \<open>Scheduler\<close>: the kernel objects on
    an explicit store, \<^verbatim>\<open>proc/thread.cpp\<close>, \<^verbatim>\<open>sched/thread_queue.cpp\<close>, \<^verbatim>\<open>sync/wait_queue.cpp\<close>,
    \<^verbatim>\<open>proc/process.cpp\<close>, \<^verbatim>\<open>syscall/wait.cpp\<close>, \<^verbatim>\<open>proc/reaper.cpp\<close> and \<^verbatim>\<open>sched/scheduler.cpp\<close>. A pointer loop is
    a \<open>partial_function (option)\<close>: not returning is \<open>None\<close>.
  \<^item> \<open>Thread_Queues\<close>, \<open>Cpu_Selection\<close>, \<open>Kernel_Inv\<close>, \<open>Process_Inv\<close>, \<open>Reaper_Spec\<close>, \<open>Balance_Spec\<close>, \<open>Switch_Spec\<close>,
    \<open>Kernel_Steps\<close>: the queues as sequences, the invariant \<open>system_inv\<close> of the whole thread state and that
    every operation returns and keeps it. \<open>kernel_step\<close> is one trap on one CPU, run to its end.
  \<^item> \<open>Kernel_Demo\<close>, \<open>Wait_Race\<close>, \<open>Kernel_Props\<close>: concrete kernels, an interleaving of a wait and an exit,
    and the properties of the thread, process and scheduler code.

  \<^bold>\<open>Bounds.\<close> Loops over a counter are folds over the list of its values, so they need no fuel. Loops
  that follow pointers or wrap are partial functions, and the properties show that they return.
\<close>

end
